(* ===== verification/Kronos_Prelude.thy ===== *)
theory Kronos_Prelude
  imports Main "HOL-Library.Word" "HOL-Library.Multiset"
begin

text \<open>
  Shared vocabulary of the development.

  \<^item> Names for the machine types of the C++ code: \<open>u64\<close> is \<open>std::uint64_t\<close> (its \<open>+\<close> wraps),
    \<open>u32\<close> is \<open>std::uint32_t\<close>.  A C++ \<open>int\<close> is an \<open>int\<close> together with the range check
    \<open>in_range\<close> wherever the code makes one (no \<open>int\<close> is ever computed with, only parsed,
    compared and printed).  \<open>std::string\<close> is \<open>string\<close>: one \<open>char\<close> per byte.
  \<^item> C++ exceptions as values: \<open>exn\<close> has one constructor per exception class the code throws,
    \<open>what\<close> is \<open>std::exception::what()\<close>, and a function that may throw returns \<open>exn + 'a\<close>.
  \<^item> The collections of facts (\<open>text_simps\<close>, \<open>registry_simps\<close>) that the component theories fill and
    hand to the simplifier.
  \<^item> Generic lemmas on association lists with distinct keys, which model \<open>std::unordered_map\<close>.
\<close>

section \<open>Machine types\<close>

type_synonym u64 = "64 word"
type_synonym u32 = "32 word"

definition in_range :: "int \<Rightarrow> int \<Rightarrow> int \<Rightarrow> bool" where
  "in_range lo hi i \<longleftrightarrow> lo \<le> i \<and> i \<le> hi"

abbreviation int32_range :: "int \<Rightarrow> bool" where
  "int32_range \<equiv> in_range (- (2 ^ 31)) (2 ^ 31 - 1)"

abbreviation int64_range :: "int \<Rightarrow> bool" where
  "int64_range \<equiv> in_range (- (2 ^ 63)) (2 ^ 63 - 1)"

section \<open>Exceptions as values\<close>

text \<open>
  \<open>system_error w m\<close> carries the text given to the constructor and the message of the error code;
  its \<open>what()\<close> joins them with a colon and a blank.
\<close>

datatype exn =
    invalid_argument string
  | runtime_error string
  | logic_error string
  | length_error string
  | system_error string string

fun what :: "exn \<Rightarrow> string" where
  "what (invalid_argument s) = s"
| "what (runtime_error s) = s"
| "what (logic_error s) = s"
| "what (length_error s) = s"
| "what (system_error w m) = w @ '': '' @ m"

type_synonym 'a result = "exn + 'a"

named_theorems text_simps
named_theorems registry_simps

section \<open>Pairs of a result and a new state\<close>

lemma map_snd_eq_Pair_iff: "map_prod (\<lambda>x. x) f p = (a, b) \<longleftrightarrow> (\<exists>c. p = (a, c) \<and> b = f c)"
  by (cases p) auto

section \<open>Unsigned 64-bit counters\<close>

lemma unat_Suc_no_wrap: "unat (w :: u64) + 1 < 2 ^ 64 \<Longrightarrow> unat (w + 1) = unat w + 1"
  by (simp add: unat_word_ariths)

lemma unat_less_2p64: "unat (w :: u64) < 2 ^ 64"
  using unsigned_less [of w, where ?'a = nat] by simp

lemma unat_Suc_below: "unat (w :: u64) < unat (v :: u64) \<Longrightarrow> unat (w + 1) = unat w + 1"
  using unat_less_2p64 [of v] by (intro unat_Suc_no_wrap) simp

lemma unat_of_nat_u64: "n < 2 ^ 64 \<Longrightarrow> unat (of_nat n :: u64) = n"
  by (simp add: unat_of_nat)

section \<open>Hash maps as association lists with distinct keys\<close>

text \<open>
  \<open>std::unordered_map\<close> iterates in an unspecified order; the model keeps the entries in insertion
  order, and no theorem depends on that order.  \<open>emplace\<close> leaves an existing entry alone, as
  \<open>unordered_map::emplace\<close> does, and reports whether it inserted; \<open>modify\<close> is an update through a
  reference to the mapped value.
\<close>

type_synonym ('k, 'v) hash_map = "('k \<times> 'v) list"

definition hm_find :: "('k, 'v) hash_map \<Rightarrow> 'k \<Rightarrow> 'v option" where
  "hm_find m k = map_of m k"

definition hm_emplace :: "'k \<Rightarrow> 'v \<Rightarrow> ('k, 'v) hash_map \<Rightarrow> ('k, 'v) hash_map \<times> bool" where
  "hm_emplace k v m =
     (case hm_find m k of Some _ \<Rightarrow> (m, False) | None \<Rightarrow> (m @ [(k, v)], True))"

definition hm_modify :: "'k \<Rightarrow> ('v \<Rightarrow> 'v) \<Rightarrow> ('k, 'v) hash_map \<Rightarrow> ('k, 'v) hash_map" where
  "hm_modify k f m = map (\<lambda>(j, v). if j = k then (j, f v) else (j, v)) m"

definition hm_wf :: "('k, 'v) hash_map \<Rightarrow> bool" where
  "hm_wf m \<longleftrightarrow> distinct (map fst m)"

lemma hm_wf_Nil [simp]: "hm_wf []"
  by (simp add: hm_wf_def)

lemma hm_find_Nil [registry_simps, simp]: "hm_find [] k = None"
  by (simp add: hm_find_def)

lemma hm_find_None_iff: "hm_find m k = None \<longleftrightarrow> k \<notin> fst ` set m"
  by (simp add: hm_find_def map_of_eq_None_iff)

lemma hm_wf_emplace: "hm_wf m \<Longrightarrow> hm_wf (fst (hm_emplace k v m))"
  by (auto simp: hm_emplace_def hm_wf_def hm_find_None_iff split: option.split)

lemma hm_find_emplace [registry_simps]:
  "hm_find (fst (hm_emplace k v m)) j =
     (if j = k \<and> hm_find m k = None then Some v else hm_find m j)"
  by (auto simp: hm_emplace_def hm_find_def map_add_def split: option.splits)

lemma hm_emplace_inserted [registry_simps]: "snd (hm_emplace k v m) \<longleftrightarrow> hm_find m k = None"
  by (simp add: hm_emplace_def split: option.split)

lemma hm_keys_modify [registry_simps]: "map fst (hm_modify k f m) = map fst m"
  by (induction m) (auto simp: hm_modify_def)

lemma hm_wf_modify [registry_simps]: "hm_wf (hm_modify k f m) \<longleftrightarrow> hm_wf m"
  by (simp add: hm_wf_def hm_keys_modify)

lemma hm_find_modify [registry_simps]:
  "hm_find (hm_modify k f m) j = (if j = k then map_option f (hm_find m k) else hm_find m j)"
  by (induction m) (auto simp: hm_modify_def hm_find_def)

lemma hm_find_set_iff: "hm_wf m \<Longrightarrow> hm_find m k = Some v \<longleftrightarrow> (k, v) \<in> set m"
  by (simp add: hm_find_def hm_wf_def)

lemma hm_length_modify [simp]: "length (hm_modify k f m) = length m"
  by (simp add: hm_modify_def)

end
