(* ===== verification/Kronos_Types.thy ===== *)
theory Kronos_Types
  imports Kronos_Prelude
begin

text \<open>
  The value types of \<open>include/kronos/types.hpp\<close>, \<open>journal.hpp\<close> and \<open>scheduler.hpp\<close>, with the functions of
  \<open>src/types.cpp\<close>.  Structs are records whose fields carry a prefix naming the struct (record
  selectors are global in HOL); enumerators shared by two enums carry a prefix too.
  The lemmas show that the printed names are injective (the write-ahead log relies on it) and
  give \<open>job_state\<close> and \<open>scheduler_kind\<close> their \<open>enum\<close> instances, so that statements over all
  states are decided by evaluation.
\<close>

section \<open>Identifiers and enumerations\<close>

type_synonym job_id = u64
type_synonym work_units = u64
type_synonym time_point = int

definition unlimited_work :: work_units where
  "unlimited_work = 0xFFFFFFFFFFFFFFFF"

datatype job_state = New | Ready | Running | Completed | Failed | Cancelled

datatype slice_status = SliceYielded | SliceCompleted | SliceFailed | SliceCancelled

datatype scheduler_kind = Fifo | Priority | ShortestJobFirst | RoundRobin

datatype shutdown_mode = Drain | CancelPending

instantiation job_state :: enum
begin

definition enum_job_state :: "job_state list" where
  "enum_job_state = [New, Ready, Running, Completed, Failed, Cancelled]"

definition enum_all_job_state :: "(job_state \<Rightarrow> bool) \<Rightarrow> bool" where
  "enum_all_job_state P \<longleftrightarrow> P New \<and> P Ready \<and> P Running \<and> P Completed \<and> P Failed \<and> P Cancelled"

definition enum_ex_job_state :: "(job_state \<Rightarrow> bool) \<Rightarrow> bool" where
  "enum_ex_job_state P \<longleftrightarrow> P New \<or> P Ready \<or> P Running \<or> P Completed \<or> P Failed \<or> P Cancelled"

instance
proof
  show univ: "(UNIV :: job_state set) = set enum_class.enum"
  proof (rule UNIV_eq_I)
    show "s \<in> set enum_class.enum" for s :: job_state
      by (cases s) (simp_all add: enum_job_state_def)
  qed
  show "distinct (enum_class.enum :: job_state list)"
    by (simp add: enum_job_state_def)
  show "enum_class.enum_all P \<longleftrightarrow> Ball UNIV P" for P :: "job_state \<Rightarrow> bool"
    by (simp add: univ enum_all_job_state_def enum_job_state_def)
  show "enum_class.enum_ex P \<longleftrightarrow> Bex UNIV P" for P :: "job_state \<Rightarrow> bool"
    by (simp add: univ enum_ex_job_state_def enum_job_state_def)
qed

end

instantiation scheduler_kind :: enum
begin

definition enum_scheduler_kind :: "scheduler_kind list" where
  "enum_scheduler_kind = [Fifo, Priority, ShortestJobFirst, RoundRobin]"

definition enum_all_scheduler_kind :: "(scheduler_kind \<Rightarrow> bool) \<Rightarrow> bool" where
  "enum_all_scheduler_kind P \<longleftrightarrow> P Fifo \<and> P Priority \<and> P ShortestJobFirst \<and> P RoundRobin"

definition enum_ex_scheduler_kind :: "(scheduler_kind \<Rightarrow> bool) \<Rightarrow> bool" where
  "enum_ex_scheduler_kind P \<longleftrightarrow> P Fifo \<or> P Priority \<or> P ShortestJobFirst \<or> P RoundRobin"

instance
proof
  show univ: "(UNIV :: scheduler_kind set) = set enum_class.enum"
  proof (rule UNIV_eq_I)
    show "k \<in> set enum_class.enum" for k :: scheduler_kind
      by (cases k) (simp_all add: enum_scheduler_kind_def)
  qed
  show "distinct (enum_class.enum :: scheduler_kind list)"
    by (simp add: enum_scheduler_kind_def)
  show "enum_class.enum_all P \<longleftrightarrow> Ball UNIV P" for P :: "scheduler_kind \<Rightarrow> bool"
    by (simp add: univ enum_all_scheduler_kind_def enum_scheduler_kind_def)
  show "enum_class.enum_ex P \<longleftrightarrow> Bex UNIV P" for P :: "scheduler_kind \<Rightarrow> bool"
    by (simp add: univ enum_ex_scheduler_kind_def enum_scheduler_kind_def)
qed

end

section \<open>Structs\<close>

record scheduler_config =
  cfg_kind :: scheduler_kind
  cfg_quantum :: work_units

record durable_task_spec =
  spec_type :: string
  spec_payload :: string

record submission_options =
  opt_name :: string
  opt_priority :: int
  opt_estimated_work_units :: work_units
  opt_durable_spec :: "durable_task_spec option"

record slice_result =
  sr_status :: slice_status
  sr_work_units_consumed :: work_units
  sr_message :: string

record job_result =
  res_id :: job_id
  res_state :: job_state
  res_message :: string
  res_work_units_consumed :: work_units

record job_snapshot =
  snap_id :: job_id
  snap_name :: string
  snap_state :: job_state
  snap_priority :: int
  snap_estimated_work_units :: work_units
  snap_work_units_consumed :: work_units
  snap_submission_sequence :: u64
  snap_submitted_at :: time_point
  snap_started_at :: time_point
  snap_finished_at :: time_point
  snap_message :: string

record scheduler_entry =
  se_id :: job_id
  se_priority :: int
  se_estimated_work_units :: work_units
  se_submission_sequence :: u64

record job_submission_record =
  sub_id :: job_id
  sub_submission_sequence :: u64
  sub_name :: string
  sub_priority :: int
  sub_estimated_work_units :: work_units
  sub_task :: durable_task_spec

record job_transition_record =
  tr_id :: job_id
  tr_state :: job_state
  tr_work_units_consumed :: work_units
  tr_message :: string

section \<open>Functions of types.hpp and types.cpp\<close>

definition slice_yielded :: "work_units \<Rightarrow> slice_result" where
  "slice_yielded consumed =
     \<lparr>sr_status = SliceYielded, sr_work_units_consumed = consumed, sr_message = []\<rparr>"

definition slice_completed :: "string \<Rightarrow> work_units \<Rightarrow> slice_result" where
  "slice_completed output consumed =
     \<lparr>sr_status = SliceCompleted, sr_work_units_consumed = consumed, sr_message = output\<rparr>"

definition slice_failed :: "string \<Rightarrow> work_units \<Rightarrow> slice_result" where
  "slice_failed error consumed =
     \<lparr>sr_status = SliceFailed, sr_work_units_consumed = consumed, sr_message = error\<rparr>"

definition slice_cancelled :: "string \<Rightarrow> work_units \<Rightarrow> slice_result" where
  "slice_cancelled reason consumed =
     \<lparr>sr_status = SliceCancelled, sr_work_units_consumed = consumed, sr_message = reason\<rparr>"

lemmas slice_result_defs =
  slice_yielded_def slice_completed_def slice_failed_def slice_cancelled_def

definition is_terminal :: "job_state \<Rightarrow> bool" where
  "is_terminal s \<longleftrightarrow> s = Completed \<or> s = Failed \<or> s = Cancelled"

fun job_state_to_string :: "job_state \<Rightarrow> string" where
  "job_state_to_string New = ''NEW''"
| "job_state_to_string Ready = ''READY''"
| "job_state_to_string Running = ''RUNNING''"
| "job_state_to_string Completed = ''COMPLETED''"
| "job_state_to_string Failed = ''FAILED''"
| "job_state_to_string Cancelled = ''CANCELLED''"

fun scheduler_kind_to_string :: "scheduler_kind \<Rightarrow> string" where
  "scheduler_kind_to_string Fifo = ''fifo''"
| "scheduler_kind_to_string Priority = ''priority''"
| "scheduler_kind_to_string ShortestJobFirst = ''sjf''"
| "scheduler_kind_to_string RoundRobin = ''round-robin''"

lemma is_terminal_simps [simp]:
  "is_terminal Completed" "is_terminal Failed" "is_terminal Cancelled"
  "\<not> is_terminal New" "\<not> is_terminal Ready" "\<not> is_terminal Running"
  by (simp_all add: is_terminal_def)

lemma job_state_to_string_inj: "inj job_state_to_string"
proof (rule injI)
  show "s = t" if "job_state_to_string s = job_state_to_string t" for s t
    using that by (cases s; cases t) simp_all
qed

end
