(* ===== verification/Priority_Heap.thy ===== *)
theory Priority_Heap
  imports Kronos_Prelude
begin

text \<open>
  \<open>std::priority_queue\<close> over a \<open>std::vector\<close>, the container behind the Priority and the
  Shortest-Job-First scheduler: \<open>push\<close> is \<open>push_back\<close> and \<open>std::push_heap\<close>, \<open>pop\<close> is \<open>std::pop_heap\<close> and
  \<open>pop_back\<close>, \<open>top\<close> is the first element.  The heap operations are the usual binary-heap ones over
  the vector.  The locale \<open>weak_order\<close> is what the C++ standard asks of a comparator; the locale
  \<open>priority_queue\<close> is what it promises of the container; the sublocale proves the second from the
  first, so the schedulers need only check their comparators.
\<close>

section \<open>The vector operations\<close>

definition parent :: "nat \<Rightarrow> nat" where
  "parent i = (i - 1) div 2"

definition swap_at :: "nat \<Rightarrow> nat \<Rightarrow> 'a list \<Rightarrow> 'a list" where
  "swap_at i j xs = xs[i := xs ! j, j := xs ! i]"

function sift_up :: "('a \<Rightarrow> 'a \<Rightarrow> bool) \<Rightarrow> nat \<Rightarrow> 'a list \<Rightarrow> 'a list" where
  "sift_up lt i xs =
     (if i \<noteq> 0 \<and> lt (xs ! parent i) (xs ! i)
      then sift_up lt (parent i) (swap_at (parent i) i xs) else xs)"
  by pat_completeness auto
termination
  by (relation "measure (\<lambda>(lt, i, xs). i)") (auto simp: parent_def)

definition larger_child :: "('a \<Rightarrow> 'a \<Rightarrow> bool) \<Rightarrow> nat \<Rightarrow> 'a list \<Rightarrow> nat" where
  "larger_child lt i xs =
     (if 2 * i + 2 < length xs \<and> lt (xs ! (2 * i + 1)) (xs ! (2 * i + 2))
      then 2 * i + 2 else 2 * i + 1)"

function sift_down :: "('a \<Rightarrow> 'a \<Rightarrow> bool) \<Rightarrow> nat \<Rightarrow> 'a list \<Rightarrow> 'a list" where
  "sift_down lt i xs =
     (if 2 * i + 1 < length xs \<and> lt (xs ! i) (xs ! larger_child lt i xs)
      then sift_down lt (larger_child lt i xs) (swap_at i (larger_child lt i xs) xs) else xs)"
  by pat_completeness auto
termination
  by (relation "measure (\<lambda>(lt, i, xs). length xs - i)") (auto simp: larger_child_def swap_at_def)

declare sift_up.simps [simp del] sift_down.simps [simp del]

definition pq_push :: "('a \<Rightarrow> 'a \<Rightarrow> bool) \<Rightarrow> 'a \<Rightarrow> 'a list \<Rightarrow> 'a list" where
  "pq_push lt x xs = sift_up lt (length xs) (xs @ [x])"

text \<open>\<open>top\<close> and \<open>pop\<close> of an empty queue are undefined behaviour in C++; callers test \<open>empty\<close> first.\<close>

definition pq_top :: "'a list \<Rightarrow> 'a" where
  "pq_top xs = xs ! 0"

definition pq_pop :: "('a \<Rightarrow> 'a \<Rightarrow> bool) \<Rightarrow> 'a list \<Rightarrow> 'a list" where
  "pq_pop lt xs = sift_down lt 0 (butlast (swap_at 0 (length xs - 1) xs))"

section \<open>Permutation lemmas\<close>

lemma length_swap_at [simp]: "length (swap_at i j xs) = length xs"
  by (simp add: swap_at_def)

lemma nth_swap_at:
  "i < length xs \<Longrightarrow> j < length xs \<Longrightarrow>
     swap_at i j xs ! k = (if k = j then xs ! i else if k = i then xs ! j else xs ! k)"
  by (auto simp: swap_at_def nth_list_update)

lemma mset_swap_at [simp]:
  "i < length xs \<Longrightarrow> j < length xs \<Longrightarrow> mset (swap_at i j xs) = mset xs"
  by (simp add: swap_at_def mset_swap)

lemma parent_less: "0 < i \<Longrightarrow> parent i < i"
  by (simp add: parent_def)

lemma parent_le: "parent i \<le> i"
  by (simp add: parent_def)

lemma parent_eq_iff: "0 < j \<Longrightarrow> parent j = i \<longleftrightarrow> j = 2 * i + 1 \<or> j = 2 * i + 2"
  unfolding parent_def by arith

lemma larger_child_bound: "2 * i + 1 < length xs \<Longrightarrow> larger_child lt i xs < length xs"
  by (simp add: larger_child_def)

lemma larger_child_parent: "parent (larger_child lt i xs) = i" "0 < larger_child lt i xs"
  by (auto simp: larger_child_def parent_def)

lemma mset_sift_up [simp]: "i < length xs \<Longrightarrow> mset (sift_up lt i xs) = mset xs"
proof (induction lt i xs rule: sift_up.induct)
  case (1 lt i xs)
  have "parent i < length xs" using 1 parent_le [of i] by simp
  with 1 show ?case by (simp add: sift_up.simps [of lt i xs])
qed

lemma mset_sift_down [simp]: "i < length xs \<Longrightarrow> mset (sift_down lt i xs) = mset xs"
proof (induction lt i xs rule: sift_down.induct)
  case (1 lt i xs)
  then show ?case
    using larger_child_bound [of i xs lt] by (simp add: sift_down.simps [of lt i xs])
qed

lemma length_sift_up [simp]: "length (sift_up lt i xs) = length xs"
proof (induction lt i xs rule: sift_up.induct)
  case (1 lt i xs)
  then show ?case by (simp add: sift_up.simps [of lt i xs])
qed

lemma length_sift_down [simp]: "length (sift_down lt i xs) = length xs"
proof (induction lt i xs rule: sift_down.induct)
  case (1 lt i xs)
  then show ?case by (simp add: sift_down.simps [of lt i xs])
qed

lemma mset_pq_push: "mset (pq_push lt x xs) = add_mset x (mset xs)"
  by (simp add: pq_push_def)

lemma length_pq_pop [simp]: "length (pq_pop lt xs) = length xs - 1"
  by (simp add: pq_pop_def)

lemma mset_pq_pop:
  assumes "xs \<noteq> []"
  shows "add_mset (pq_top xs) (mset (pq_pop lt xs)) = mset xs"
proof -
  let ?ys = "swap_at 0 (length xs - 1) xs"
  have bounds: "0 < length xs" "length xs - 1 < length xs" using assms by simp_all
  have "mset xs = mset ?ys" using bounds by simp
  also have "?ys = butlast ?ys @ [last ?ys]"
    using assms by (metis append_butlast_last_id length_swap_at length_0_conv)
  also have "last ?ys = pq_top xs"
    using bounds by (simp add: last_conv_nth pq_top_def nth_swap_at flip: length_greater_0_conv)
  finally have eq: "mset xs = add_mset (pq_top xs) (mset (butlast ?ys))" by simp
  show ?thesis
  proof (cases "butlast ?ys = []")
    case True
    then show ?thesis by (simp add: eq pq_pop_def sift_down.simps)
  next
    case False
    then have "mset (sift_down lt 0 (butlast ?ys)) = mset (butlast ?ys)"
      by (intro mset_sift_down) (simp only: length_greater_0_conv not_False_eq_True)
    then show ?thesis by (simp add: eq pq_pop_def)
  qed
qed

section \<open>The heap invariant\<close>

definition heap_ordered :: "('a \<Rightarrow> 'a \<Rightarrow> bool) \<Rightarrow> 'a list \<Rightarrow> bool" where
  "heap_ordered lt xs \<longleftrightarrow> (\<forall>i < length xs. 0 < i \<longrightarrow> \<not> lt (xs ! parent i) (xs ! i))"

lemma heap_ordered_Nil [simp]: "heap_ordered lt []"
  by (simp add: heap_ordered_def)

text \<open>The heap order but for the edge above \<open>i\<close> (\<open>up_inv\<close>) or the edges below it (\<open>down_inv\<close>).\<close>

definition up_inv :: "('a \<Rightarrow> 'a \<Rightarrow> bool) \<Rightarrow> nat \<Rightarrow> 'a list \<Rightarrow> bool" where
  "up_inv lt i xs \<longleftrightarrow>
     (\<forall>j < length xs. 0 < j \<longrightarrow> j \<noteq> i \<longrightarrow> \<not> lt (xs ! parent j) (xs ! j)) \<and>
     (\<forall>j < length xs. 0 < j \<longrightarrow> 0 < i \<longrightarrow> parent j = i \<longrightarrow> \<not> lt (xs ! parent i) (xs ! j))"

definition down_inv :: "('a \<Rightarrow> 'a \<Rightarrow> bool) \<Rightarrow> nat \<Rightarrow> 'a list \<Rightarrow> bool" where
  "down_inv lt i xs \<longleftrightarrow>
     (\<forall>j < length xs. 0 < j \<longrightarrow> parent j \<noteq> i \<longrightarrow> \<not> lt (xs ! parent j) (xs ! j)) \<and>
     (\<forall>j < length xs. 0 < j \<longrightarrow> 0 < i \<longrightarrow> parent j = i \<longrightarrow> \<not> lt (xs ! parent i) (xs ! j))"

text \<open>What the C++ standard requires of a comparator: a strict weak order.\<close>

locale weak_order =
  fixes lt :: "'a \<Rightarrow> 'a \<Rightarrow> bool"
  assumes asym: "lt a b \<Longrightarrow> \<not> lt b a"
    and neg_trans: "\<not> lt a b \<Longrightarrow> \<not> lt b c \<Longrightarrow> \<not> lt a c"
begin

lemma up_inv_swap:
  assumes inv: "up_inv lt i xs" and i: "i < length xs" "0 < i" and less: "lt (xs ! parent i) (xs ! i)"
  shows "up_inv lt (parent i) (swap_at (parent i) i xs)"
proof -
  have p: "parent i < i" "parent i < length xs" using i parent_less [of i] by simp_all
  note nth = nth_swap_at [OF p(2) i(1)]
  have ord: "\<not> lt (xs ! parent j) (xs ! j)" if "j < length xs" "0 < j" "j \<noteq> i" for j
    using inv that by (simp add: up_inv_def)
  have below: "\<not> lt (xs ! parent i) (xs ! j)" if "j < length xs" "0 < j" "parent j = i" for j
    using inv i that by (simp add: up_inv_def)
  have "\<not> lt (swap_at (parent i) i xs ! parent j) (swap_at (parent i) i xs ! j)"
    if "j < length xs" "0 < j" "j \<noteq> parent i" for j
    using that ord [of j] below [of j] asym [OF less] neg_trans [of "xs ! i" "xs ! parent i" "xs ! j"]
      parent_less [of j] by (auto simp: nth)
  moreover have "\<not> lt (swap_at (parent i) i xs ! parent (parent i)) (swap_at (parent i) i xs ! j)"
    if "j < length xs" "0 < j" "0 < parent i" "parent j = parent i" for j
    using that ord [of j] ord [of "parent i"] p parent_less [of "parent i"] parent_less [of j]
      neg_trans [of "xs ! parent (parent i)" "xs ! parent i" "xs ! j"]
    by (auto simp: nth)
  ultimately show ?thesis by (simp add: up_inv_def)
qed

lemma sift_up_heap: "i < length xs \<Longrightarrow> up_inv lt i xs \<Longrightarrow> heap_ordered lt (sift_up lt i xs)"
proof (induction i arbitrary: xs rule: less_induct)
  case (less i)
  show ?case
  proof (cases "i \<noteq> 0 \<and> lt (xs ! parent i) (xs ! i)")
    case True
    with less.prems have "up_inv lt (parent i) (swap_at (parent i) i xs)"
      by (intro up_inv_swap) auto
    with less True parent_less [of i] show ?thesis
      by (simp add: sift_up.simps [of lt i xs])
  next
    case False
    with less.prems have "heap_ordered lt xs" by (auto simp: heap_ordered_def up_inv_def)
    with False show ?thesis by (auto simp: sift_up.simps [of lt i xs])
  qed
qed

lemma down_inv_swap:
  assumes inv: "down_inv lt i xs" and c: "2 * i + 1 < length xs"
    and less: "lt (xs ! i) (xs ! larger_child lt i xs)"
  shows "down_inv lt (larger_child lt i xs) (swap_at i (larger_child lt i xs) xs)"
proof -
  define c where "c = larger_child lt i xs"
  have b: "i < length xs" "c < length xs" "parent c = i" "0 < c" "i < c"
    using c larger_child_bound [of i xs lt] larger_child_parent [of lt i xs]
      parent_less [of "larger_child lt i xs"] by (simp_all add: c_def)
  note nth = nth_swap_at [OF b(1,2)]
  have ord: "\<not> lt (xs ! parent j) (xs ! j)" if "j < length xs" "0 < j" "parent j \<noteq> i" for j
    using inv that by (simp add: down_inv_def)
  have above: "\<not> lt (xs ! parent i) (xs ! j)" if "j < length xs" "0 < j" "parent j = i" "0 < i" for j
    using inv that by (simp add: down_inv_def)
  have max: "\<not> lt (xs ! c) (xs ! j)" if "j < length xs" "0 < j" "parent j = i" for j
    using that asym neg_trans [of "xs ! (2 * i + 2)" "xs ! (2 * i + 2)" "xs ! (2 * i + 2)"]
    by (auto simp: parent_eq_iff c_def larger_child_def)
  have "\<not> lt (swap_at i c xs ! parent j) (swap_at i c xs ! j)"
    if "j < length xs" "0 < j" "parent j \<noteq> c" for j
    using that ord [of j] above [of j] above [OF b(2,4,3)] max [of j] asym [OF less [folded c_def]]
      parent_less [of j] b by (auto simp: nth)
  moreover have "\<not> lt (swap_at i c xs ! parent c) (swap_at i c xs ! j)"
    if "j < length xs" "0 < j" "parent j = c" for j
    using that ord [of j] b parent_less [of j] by (auto simp: nth)
  ultimately show ?thesis by (simp add: down_inv_def c_def)
qed

lemma sift_down_heap: "down_inv lt i xs \<Longrightarrow> heap_ordered lt (sift_down lt i xs)"
proof (induction "length xs - i" arbitrary: i xs rule: less_induct)
  case less
  let ?c = "larger_child lt i xs"
  show ?case
  proof (cases "2 * i + 1 < length xs \<and> lt (xs ! i) (xs ! ?c)")
    case True
    have "i < ?c" "?c < length xs"
      using True larger_child_parent [of lt i xs] parent_less [of ?c] larger_child_bound [of i xs lt]
      by simp_all
    with True less.prems less.hyps [of "swap_at i ?c xs" ?c] show ?thesis
      by (simp add: sift_down.simps [of lt i xs] down_inv_swap)
  next
    case False
    have "\<not> lt (xs ! i) (xs ! j)" if j: "j < length xs" "0 < j" "parent j = i" for j
    proof -
      have "2 * i + 1 < length xs" using j by (auto simp: parent_eq_iff)
      with False have "\<not> lt (xs ! i) (xs ! ?c)" by simp
      moreover have "\<not> lt (xs ! ?c) (xs ! j)"
        using j asym by (auto simp: parent_eq_iff larger_child_def)
      ultimately show ?thesis by (rule neg_trans)
    qed
    with less.prems have "heap_ordered lt xs"
      unfolding heap_ordered_def down_inv_def by metis
    with False show ?thesis by (auto simp: sift_down.simps [of lt i xs])
  qed
qed

lemma heap_ordered_push: "heap_ordered lt xs \<Longrightarrow> heap_ordered lt (pq_push lt x xs)"
  unfolding pq_push_def
proof (rule sift_up_heap)
  assume heap: "heap_ordered lt xs"
  have "\<not> lt ((xs @ [x]) ! parent j) ((xs @ [x]) ! j)" if "j < length xs" "0 < j" for j
    using heap that parent_less [of j] by (simp add: heap_ordered_def nth_append)
  moreover have "parent j \<noteq> length xs" if "j < Suc (length xs)" "0 < j" for j
    using that parent_less [of j] by simp
  ultimately show "up_inv lt (length xs) (xs @ [x])"
    by (auto simp: up_inv_def less_Suc_eq)
qed simp

lemma heap_ordered_pop:
  assumes heap: "heap_ordered lt xs" and ne: "xs \<noteq> []"
  shows "heap_ordered lt (pq_pop lt xs)"
  unfolding pq_pop_def
proof (rule sift_down_heap)
  let ?ys = "butlast (swap_at 0 (length xs - 1) xs)"
  have nth: "?ys ! j = xs ! j" if "0 < j" "j < length xs - 1" for j
    using that ne by (simp add: nth_butlast nth_swap_at)
  have "\<not> lt (?ys ! parent j) (?ys ! j)" if "j < length xs - 1" "0 < j" "parent j \<noteq> 0" for j
  proof -
    have "parent j < length xs - 1" using that parent_less [of j] by simp
    then have "?ys ! parent j = xs ! parent j" "?ys ! j = xs ! j" using that by (simp_all only: nth)
    then show ?thesis using that heap by (simp only: heap_ordered_def) simp
  qed
  then show "down_inv lt 0 ?ys" by (simp add: down_inv_def)
qed

lemma heap_top_max:
  assumes "heap_ordered lt xs" and "x \<in> set xs"
  shows "\<not> lt (pq_top xs) x"
proof -
  have "\<not> lt (xs ! 0) (xs ! i)" if "i < length xs" for i
    using that
  proof (induction i rule: less_induct)
    case (less i)
    show ?case
    proof (cases "i = 0")
      case True
      then show ?thesis using asym by auto
    next
      case False
      with less parent_less [of i] have "\<not> lt (xs ! 0) (xs ! parent i)" by simp
      moreover have "\<not> lt (xs ! parent i) (xs ! i)"
        using assms(1) False less.prems by (simp add: heap_ordered_def)
      ultimately show ?thesis by (rule neg_trans)
    qed
  qed
  with assms(2) show ?thesis by (auto simp: in_set_conv_nth pq_top_def)
qed

end

section \<open>The container's contract\<close>

text \<open>
  \<open>std::priority_queue\<close> as its clients see it: a multiset whose \<open>top\<close> is a greatest element.  The
  lemma shows what emptying such a queue element by element yields.
\<close>

locale priority_queue = weak_order lt for lt :: "'a \<Rightarrow> 'a \<Rightarrow> bool" +
  fixes pq_empty :: 'q and is_empty :: "'q \<Rightarrow> bool" and push :: "'a \<Rightarrow> 'q \<Rightarrow> 'q"
    and top :: "'q \<Rightarrow> 'a" and pop :: "'q \<Rightarrow> 'q"
    and invar :: "'q \<Rightarrow> bool" and content :: "'q \<Rightarrow> 'a multiset"
  assumes content_empty: "content pq_empty = {#}"
    and invar_empty: "invar pq_empty"
    and is_empty_iff: "is_empty q \<longleftrightarrow> content q = {#}"
    and content_push: "content (push x q) = add_mset x (content q)"
    and invar_push: "invar q \<Longrightarrow> invar (push x q)"
    and content_pop: "\<not> is_empty q \<Longrightarrow> content q = add_mset (top q) (content (pop q))"
    and invar_pop: "invar q \<Longrightarrow> \<not> is_empty q \<Longrightarrow> invar (pop q)"
    and top_greatest: "invar q \<Longrightarrow> \<not> is_empty q \<Longrightarrow> x \<in># content q \<Longrightarrow> \<not> lt (top q) x"
begin

lemma top_in_content: "\<not> is_empty q \<Longrightarrow> top q \<in># content q"
  by (simp add: content_pop)

lemma pop_below_top:
  "invar q \<Longrightarrow> \<not> is_empty q \<Longrightarrow> x \<in># content (pop q) \<Longrightarrow> \<not> lt (top q) x"
  by (rule top_greatest) (simp_all add: content_pop)

end

sublocale weak_order \<subseteq> heap: priority_queue lt "[]" "\<lambda>xs. xs = []" "pq_push lt" pq_top "pq_pop lt"
  "heap_ordered lt" mset
  by unfold_locales (auto simp: mset_pq_push mset_pq_pop heap_ordered_push heap_ordered_pop heap_top_max)

end
