(* ===== verification/Kronos_Scheduler.thy ===== *)
theory Kronos_Scheduler
  imports Kronos_Types Priority_Heap
begin

text \<open>
  The four scheduling strategies of \<open>src/scheduler.cpp\<close> and the interface \<open>IScheduler\<close> of
  \<open>include/kronos/scheduler.hpp\<close>.  A \<open>std::deque\<close> is a list (front first), a \<open>std::priority_queue\<close> the
  heap vector of \<open>Priority_Heap\<close>.  The object behind an \<open>IScheduler\<close> pointer is a value of the
  datatype \<open>scheduler\<close>, and a virtual call is the function of the same name that dispatches on
  it.  A method that changes the object returns the changed object.

  The locale \<open>scheduler_container\<close> is the contract the task queue relies on (nothing is lost or
  duplicated, whatever the strategy); it is interpreted for every class and for the dispatching
  operations.  Further lemmas give the order in which each strategy hands entries out.
\<close>

section \<open>Helpers on containers\<close>

function drain_container :: "scheduler_entry list \<Rightarrow> scheduler_entry list \<Rightarrow>
    scheduler_entry list \<times> scheduler_entry list" where
  "drain_container entries container =
     (if container \<noteq> [] then drain_container (entries @ [hd container]) (tl container)
      else (entries, container))"
  by pat_completeness auto
termination
  by (relation "measure (\<lambda>(entries, container). length container)") auto

definition pop_priority_queue :: "(scheduler_entry \<Rightarrow> scheduler_entry \<Rightarrow> bool) \<Rightarrow>
    scheduler_entry list \<Rightarrow> scheduler_entry option \<times> scheduler_entry list" where
  "pop_priority_queue lt queue =
     (if queue = [] then (None, queue) else (Some (pq_top queue), pq_pop lt queue))"

function drain_priority_queue :: "(scheduler_entry \<Rightarrow> scheduler_entry \<Rightarrow> bool) \<Rightarrow>
    scheduler_entry list \<Rightarrow> scheduler_entry list \<Rightarrow> scheduler_entry list \<times> scheduler_entry list" where
  "drain_priority_queue lt entries queue =
     (if queue \<noteq> [] then drain_priority_queue lt (entries @ [pq_top queue]) (pq_pop lt queue)
      else (entries, queue))"
  by pat_completeness auto
termination
  by (relation "measure (\<lambda>(lt, entries, queue). length queue)") auto

declare drain_container.simps [simp del] drain_priority_queue.simps [simp del]

definition PriorityCompare :: "scheduler_entry \<Rightarrow> scheduler_entry \<Rightarrow> bool" where
  "PriorityCompare lhs rhs =
     (if se_priority lhs \<noteq> se_priority rhs then se_priority lhs < se_priority rhs
      else se_submission_sequence lhs > se_submission_sequence rhs)"

definition SjfCompare :: "scheduler_entry \<Rightarrow> scheduler_entry \<Rightarrow> bool" where
  "SjfCompare lhs rhs =
     (if se_estimated_work_units lhs \<noteq> se_estimated_work_units rhs
      then se_estimated_work_units lhs > se_estimated_work_units rhs
      else se_submission_sequence lhs > se_submission_sequence rhs)"

section \<open>FifoScheduler\<close>

definition fifo_push :: "scheduler_entry \<Rightarrow> scheduler_entry list \<Rightarrow> scheduler_entry list" where
  "fifo_push entry entries = entries @ [entry]"

definition fifo_pop :: "scheduler_entry list \<Rightarrow> scheduler_entry option \<times> scheduler_entry list" where
  "fifo_pop entries = (if entries = [] then (None, entries) else (Some (hd entries), tl entries))"

definition fifo_drain :: "scheduler_entry list \<Rightarrow> scheduler_entry list \<times> scheduler_entry list" where
  "fifo_drain entries = drain_container [] entries"

definition fifo_size :: "scheduler_entry list \<Rightarrow> nat" where
  "fifo_size entries = length entries"

definition fifo_empty :: "scheduler_entry list \<Rightarrow> bool" where
  "fifo_empty entries \<longleftrightarrow> entries = []"

definition fifo_slice_budget :: work_units where
  "fifo_slice_budget = unlimited_work"

section \<open>PriorityScheduler\<close>

definition priority_push :: "scheduler_entry \<Rightarrow> scheduler_entry list \<Rightarrow> scheduler_entry list" where
  "priority_push entry entries = pq_push PriorityCompare entry entries"

definition priority_pop :: "scheduler_entry list \<Rightarrow> scheduler_entry option \<times> scheduler_entry list" where
  "priority_pop entries = pop_priority_queue PriorityCompare entries"

definition priority_drain :: "scheduler_entry list \<Rightarrow> scheduler_entry list \<times> scheduler_entry list" where
  "priority_drain entries = drain_priority_queue PriorityCompare [] entries"

definition priority_size :: "scheduler_entry list \<Rightarrow> nat" where
  "priority_size entries = length entries"

definition priority_empty :: "scheduler_entry list \<Rightarrow> bool" where
  "priority_empty entries \<longleftrightarrow> entries = []"

definition priority_slice_budget :: work_units where
  "priority_slice_budget = unlimited_work"

section \<open>SjfScheduler\<close>

definition sjf_push :: "scheduler_entry \<Rightarrow> scheduler_entry list \<Rightarrow> scheduler_entry list" where
  "sjf_push entry entries = pq_push SjfCompare entry entries"

definition sjf_pop :: "scheduler_entry list \<Rightarrow> scheduler_entry option \<times> scheduler_entry list" where
  "sjf_pop entries = pop_priority_queue SjfCompare entries"

definition sjf_drain :: "scheduler_entry list \<Rightarrow> scheduler_entry list \<times> scheduler_entry list" where
  "sjf_drain entries = drain_priority_queue SjfCompare [] entries"

definition sjf_size :: "scheduler_entry list \<Rightarrow> nat" where
  "sjf_size entries = length entries"

definition sjf_empty :: "scheduler_entry list \<Rightarrow> bool" where
  "sjf_empty entries \<longleftrightarrow> entries = []"

definition sjf_slice_budget :: work_units where
  "sjf_slice_budget = unlimited_work"

section \<open>RoundRobinScheduler\<close>

record round_robin =
  rr_entries :: "scheduler_entry list"
  rr_quantum :: work_units

definition RoundRobinScheduler :: "work_units \<Rightarrow> round_robin result" where
  "RoundRobinScheduler quantum =
     (if quantum = 0 then Inl (invalid_argument ''round-robin quantum must be greater than zero'')
      else Inr \<lparr>rr_entries = [], rr_quantum = quantum\<rparr>)"

definition rr_push :: "scheduler_entry \<Rightarrow> round_robin \<Rightarrow> round_robin" where
  "rr_push entry s = s\<lparr>rr_entries := rr_entries s @ [entry]\<rparr>"

definition rr_pop :: "round_robin \<Rightarrow> scheduler_entry option \<times> round_robin" where
  "rr_pop s =
     (if rr_entries s = [] then (None, s)
      else (Some (hd (rr_entries s)), s\<lparr>rr_entries := tl (rr_entries s)\<rparr>))"

definition rr_drain :: "round_robin \<Rightarrow> scheduler_entry list \<times> round_robin" where
  "rr_drain s =
     (let (entries, rest) = drain_container [] (rr_entries s) in (entries, s\<lparr>rr_entries := rest\<rparr>))"

definition rr_size :: "round_robin \<Rightarrow> nat" where
  "rr_size s = length (rr_entries s)"

definition rr_empty :: "round_robin \<Rightarrow> bool" where
  "rr_empty s \<longleftrightarrow> rr_entries s = []"

definition rr_slice_budget :: "round_robin \<Rightarrow> work_units" where
  "rr_slice_budget s = rr_quantum s"

section \<open>The interface IScheduler\<close>

datatype scheduler =
    FifoS "scheduler_entry list"
  | PriorityS "scheduler_entry list"
  | SjfS "scheduler_entry list"
  | RoundRobinS round_robin

fun sched_push :: "scheduler_entry \<Rightarrow> scheduler \<Rightarrow> scheduler" where
  "sched_push e (FifoS es) = FifoS (fifo_push e es)"
| "sched_push e (PriorityS es) = PriorityS (priority_push e es)"
| "sched_push e (SjfS es) = SjfS (sjf_push e es)"
| "sched_push e (RoundRobinS r) = RoundRobinS (rr_push e r)"

fun sched_pop :: "scheduler \<Rightarrow> scheduler_entry option \<times> scheduler" where
  "sched_pop (FifoS es) = map_prod (\<lambda>x. x) FifoS (fifo_pop es)"
| "sched_pop (PriorityS es) = map_prod (\<lambda>x. x) PriorityS (priority_pop es)"
| "sched_pop (SjfS es) = map_prod (\<lambda>x. x) SjfS (sjf_pop es)"
| "sched_pop (RoundRobinS r) = map_prod (\<lambda>x. x) RoundRobinS (rr_pop r)"

fun sched_drain :: "scheduler \<Rightarrow> scheduler_entry list \<times> scheduler" where
  "sched_drain (FifoS es) = map_prod (\<lambda>x. x) FifoS (fifo_drain es)"
| "sched_drain (PriorityS es) = map_prod (\<lambda>x. x) PriorityS (priority_drain es)"
| "sched_drain (SjfS es) = map_prod (\<lambda>x. x) SjfS (sjf_drain es)"
| "sched_drain (RoundRobinS r) = map_prod (\<lambda>x. x) RoundRobinS (rr_drain r)"

fun sched_size :: "scheduler \<Rightarrow> nat" where
  "sched_size (FifoS es) = fifo_size es"
| "sched_size (PriorityS es) = priority_size es"
| "sched_size (SjfS es) = sjf_size es"
| "sched_size (RoundRobinS r) = rr_size r"

fun sched_empty :: "scheduler \<Rightarrow> bool" where
  "sched_empty (FifoS es) = fifo_empty es"
| "sched_empty (PriorityS es) = priority_empty es"
| "sched_empty (SjfS es) = sjf_empty es"
| "sched_empty (RoundRobinS r) = rr_empty r"

fun sched_slice_budget :: "scheduler \<Rightarrow> work_units" where
  "sched_slice_budget (FifoS es) = fifo_slice_budget"
| "sched_slice_budget (PriorityS es) = priority_slice_budget"
| "sched_slice_budget (SjfS es) = sjf_slice_budget"
| "sched_slice_budget (RoundRobinS r) = rr_slice_budget r"

fun sched_kind :: "scheduler \<Rightarrow> scheduler_kind" where
  "sched_kind (FifoS es) = Fifo"
| "sched_kind (PriorityS es) = Priority"
| "sched_kind (SjfS es) = ShortestJobFirst"
| "sched_kind (RoundRobinS r) = RoundRobin"

fun make_scheduler :: "scheduler_config \<Rightarrow> scheduler result" where
  "make_scheduler config =
     (case cfg_kind config of
        Fifo \<Rightarrow> Inr (FifoS [])
      | Priority \<Rightarrow> Inr (PriorityS [])
      | ShortestJobFirst \<Rightarrow> Inr (SjfS [])
      | RoundRobin \<Rightarrow> map_sum (\<lambda>e. e) RoundRobinS (RoundRobinScheduler (cfg_quantum config)))"

section \<open>The comparators are strict weak orders\<close>

interpretation priority_order: weak_order PriorityCompare
  by unfold_locales (auto simp: PriorityCompare_def split: if_splits)

interpretation sjf_order: weak_order SjfCompare
  by unfold_locales (auto simp: SjfCompare_def split: if_splits)

section \<open>Draining\<close>

lemma drain_container_eq: "drain_container entries container = (entries @ container, [])"
proof (induction container arbitrary: entries)
  case Nil
  show ?case by (subst drain_container.simps) simp
next
  case (Cons e container)
  show ?case by (subst drain_container.simps) (simp add: Cons)
qed

text \<open>The entries of a heap in the order in which repeated \<open>top\<close> and \<open>pop\<close> hand them out.\<close>

function pq_drained :: "('a \<Rightarrow> 'a \<Rightarrow> bool) \<Rightarrow> 'a list \<Rightarrow> 'a list" where
  "pq_drained lt queue =
     (if queue = [] then [] else pq_top queue # pq_drained lt (pq_pop lt queue))"
  by pat_completeness auto
termination
  by (relation "measure (\<lambda>(lt, queue). length queue)") auto

declare pq_drained.simps [simp del]

lemma pq_drained_simps [simp]:
  "pq_drained lt [] = []"
  "queue \<noteq> [] \<Longrightarrow> pq_drained lt queue = pq_top queue # pq_drained lt (pq_pop lt queue)"
  by (simp_all add: pq_drained.simps [of lt "[]"] pq_drained.simps [of lt queue])

lemma drain_priority_queue_acc:
  "drain_priority_queue lt entries queue = (entries @ pq_drained lt queue, [])"
proof (induction lt entries queue rule: drain_priority_queue.induct)
  case (1 lt entries queue)
  then show ?case
    by (cases "queue = []") (simp_all add: drain_priority_queue.simps [of lt entries])
qed

lemma mset_pq_drained: "mset (pq_drained lt queue) = mset queue"
proof (induction "length queue" arbitrary: queue rule: less_induct)
  case less
  then show ?case by (cases "queue = []") (simp_all add: mset_pq_pop)
qed

text \<open>Emptying a heap-ordered queue hands the entries out in non-increasing order.\<close>

lemma pq_drained_sorted:
  assumes "weak_order lt" and "heap_ordered lt queue"
  shows "sorted_wrt (\<lambda>x y. \<not> lt x y) (pq_drained lt queue)"
  using assms(2)
proof (induction "length queue" arbitrary: queue rule: less_induct)
  case less
  show ?case
  proof (cases "queue = []")
    case True
    then show ?thesis by simp
  next
    case False
    have "heap_ordered lt (pq_pop lt queue)"
      using assms(1) less.prems False by (rule weak_order.heap_ordered_pop)
    moreover have "set (pq_drained lt (pq_pop lt queue)) = set (pq_pop lt queue)"
      by (metis mset_pq_drained set_mset_mset)
    moreover have "set (pq_pop lt queue) \<subseteq> set queue"
      using mset_pq_pop [OF False, of lt] by (metis set_mset_mset set_mset_add_mset_insert subset_insertI)
    ultimately show ?thesis
      using False less.hyps [of "pq_pop lt queue"] less.prems weak_order.heap_top_max [OF assms(1)]
      by auto
  qed
qed

section \<open>The contract of a strategy\<close>

text \<open>
  What \<open>TaskQueue\<close> needs of any strategy: it holds a multiset of entries, \<open>push\<close> adds one, \<open>pop\<close>
  removes one and fails only when there is none, \<open>drain\<close> returns all of them and leaves the
  strategy empty, and the invariant of the container is kept.
\<close>

locale scheduler_container =
  fixes push :: "scheduler_entry \<Rightarrow> 's \<Rightarrow> 's" and pop :: "'s \<Rightarrow> scheduler_entry option \<times> 's"
    and drain :: "'s \<Rightarrow> scheduler_entry list \<times> 's" and size_of :: "'s \<Rightarrow> nat"
    and is_empty :: "'s \<Rightarrow> bool"
    and invar :: "'s \<Rightarrow> bool" and content :: "'s \<Rightarrow> scheduler_entry multiset"
  assumes content_push: "content (push e s) = add_mset e (content s)"
    and invar_push: "invar s \<Longrightarrow> invar (push e s)"
    and pop_None: "pop s = (None, s') \<Longrightarrow> s' = s \<and> content s = {#}"
    and pop_Some: "pop s = (Some e, s') \<Longrightarrow> content s = add_mset e (content s')"
    and invar_pop: "invar s \<Longrightarrow> invar (snd (pop s))"
    and content_drain: "mset (fst (drain s)) = content s"
    and drain_empties: "content (snd (drain s)) = {#}"
    and invar_drain: "invar s \<Longrightarrow> invar (snd (drain s))"
    and size_content: "size_of s = size (content s)"
    and empty_content: "is_empty s \<longleftrightarrow> content s = {#}"
begin

lemma pop_None_iff: "fst (pop s) = None \<longleftrightarrow> is_empty s"
proof (cases "pop s")
  case (Pair r s')
  show ?thesis
  proof (cases r)
    case None
    with Pair show ?thesis by (simp add: empty_content pop_None)
  next
    case (Some e)
    with Pair show ?thesis using pop_Some [of s e s'] by (simp add: empty_content)
  qed
qed

lemma pop_nonempty: "\<not> is_empty s \<Longrightarrow> \<exists>e s'. pop s = (Some e, s')"
  using pop_None_iff [of s] by (cases "pop s") auto

lemma content_fold_push: "content (fold push es s) = mset es + content s"
  by (induction es arbitrary: s) (simp_all add: content_push)

lemma invar_fold_push: "invar s \<Longrightarrow> invar (fold push es s)"
  by (induction es arbitrary: s) (simp_all add: invar_push)

lemma push_then_pop_available: "\<exists>x s'. pop (push e s) = (Some x, s')"
  by (rule pop_nonempty) (simp add: empty_content content_push)

end

lemma pop_priority_queue_None: "pop_priority_queue lt q = (None, q') \<Longrightarrow> q' = q \<and> q = []"
  by (auto simp: pop_priority_queue_def split: if_splits)

lemma pop_priority_queue_Some:
  "pop_priority_queue lt q = (Some e, q') \<Longrightarrow> q \<noteq> [] \<and> e = pq_top q \<and> q' = pq_pop lt q"
  by (auto simp: pop_priority_queue_def split: if_splits)

lemmas fifo_defs = fifo_push_def fifo_pop_def fifo_drain_def fifo_size_def fifo_empty_def
lemmas priority_defs =
  priority_push_def priority_pop_def priority_drain_def priority_size_def priority_empty_def
lemmas sjf_defs = sjf_push_def sjf_pop_def sjf_drain_def sjf_size_def sjf_empty_def
lemmas rr_defs = rr_push_def rr_pop_def rr_drain_def rr_size_def rr_empty_def

interpretation fifo: scheduler_container fifo_push fifo_pop fifo_drain fifo_size fifo_empty
  "\<lambda>_. True" mset
proof
  fix s s' e
  assume "fifo_pop s = (Some e, s')"
  then show "mset s = add_mset e (mset s')" by (cases s) (auto simp: fifo_defs)
qed (auto simp: fifo_defs drain_container_eq split: if_splits)

interpretation priority: scheduler_container priority_push priority_pop priority_drain priority_size
  priority_empty "heap_ordered PriorityCompare" mset
proof
  fix s s' e
  assume "priority_pop s = (Some e, s')"
  then show "mset s = add_mset e (mset s')"
    by (auto simp: priority_defs mset_pq_pop dest!: pop_priority_queue_Some)
next
  show "heap_ordered PriorityCompare s \<Longrightarrow> heap_ordered PriorityCompare (snd (priority_pop s))" for s
    by (auto simp: priority_defs pop_priority_queue_def priority_order.heap_ordered_pop)
qed (auto simp: priority_defs mset_pq_push priority_order.heap_ordered_push drain_priority_queue_acc
    mset_pq_drained dest!: pop_priority_queue_None)

interpretation sjf: scheduler_container sjf_push sjf_pop sjf_drain sjf_size
  sjf_empty "heap_ordered SjfCompare" mset
proof
  fix s s' e
  assume "sjf_pop s = (Some e, s')"
  then show "mset s = add_mset e (mset s')"
    by (auto simp: sjf_defs mset_pq_pop dest!: pop_priority_queue_Some)
next
  show "heap_ordered SjfCompare s \<Longrightarrow> heap_ordered SjfCompare (snd (sjf_pop s))" for s
    by (auto simp: sjf_defs pop_priority_queue_def sjf_order.heap_ordered_pop)
qed (auto simp: sjf_defs mset_pq_push sjf_order.heap_ordered_push drain_priority_queue_acc
    mset_pq_drained dest!: pop_priority_queue_None)

interpretation rr: scheduler_container rr_push rr_pop rr_drain rr_size rr_empty
  "\<lambda>s. rr_quantum s \<noteq> 0" "\<lambda>s. mset (rr_entries s)"
proof
  fix s s' e
  assume "rr_pop s = (Some e, s')"
  then show "mset (rr_entries s) = add_mset e (mset (rr_entries s'))"
    by (cases "rr_entries s") (auto simp: rr_defs)
qed (auto simp: rr_defs drain_container_eq split: if_splits)

section \<open>The dispatching operations\<close>

fun sched_entries :: "scheduler \<Rightarrow> scheduler_entry list" where
  "sched_entries (FifoS es) = es"
| "sched_entries (PriorityS es) = es"
| "sched_entries (SjfS es) = es"
| "sched_entries (RoundRobinS r) = rr_entries r"

fun sched_invar :: "scheduler \<Rightarrow> bool" where
  "sched_invar (FifoS es) = True"
| "sched_invar (PriorityS es) = heap_ordered PriorityCompare es"
| "sched_invar (SjfS es) = heap_ordered SjfCompare es"
| "sched_invar (RoundRobinS r) = (rr_quantum r \<noteq> 0)"

abbreviation sched_content :: "scheduler \<Rightarrow> scheduler_entry multiset" where
  "sched_content s \<equiv> mset (sched_entries s)"

interpretation sched: scheduler_container sched_push sched_pop sched_drain sched_size sched_empty
  sched_invar sched_content
proof
  fix s s' e
  show "sched_content (sched_push e s) = add_mset e (sched_content s)"
    by (cases s) (simp_all add: fifo.content_push priority.content_push sjf.content_push rr.content_push)
  show "sched_invar s \<Longrightarrow> sched_invar (sched_push e s)"
    by (cases s) (simp_all add: priority.invar_push sjf.invar_push rr.invar_push)
  show "sched_pop s = (None, s') \<Longrightarrow> s' = s \<and> sched_content s = {#}"
    by (cases s) (auto simp: map_snd_eq_Pair_iff dest: fifo.pop_None priority.pop_None sjf.pop_None
        rr.pop_None)
  show "sched_pop s = (Some e, s') \<Longrightarrow> sched_content s = add_mset e (sched_content s')"
    by (cases s) (auto simp: map_snd_eq_Pair_iff dest: fifo.pop_Some priority.pop_Some sjf.pop_Some
        rr.pop_Some)
  show "sched_invar s \<Longrightarrow> sched_invar (snd (sched_pop s))"
    by (cases s) (simp_all add: priority.invar_pop sjf.invar_pop rr.invar_pop)
  show "mset (fst (sched_drain s)) = sched_content s"
    by (cases s) (simp_all add: fifo.content_drain priority.content_drain sjf.content_drain
        rr.content_drain)
  show "sched_content (snd (sched_drain s)) = {#}"
    using fifo.drain_empties priority.drain_empties sjf.drain_empties rr.drain_empties
    by (cases s) simp_all
  show "sched_invar s \<Longrightarrow> sched_invar (snd (sched_drain s))"
    by (cases s) (simp_all add: priority.invar_drain sjf.invar_drain rr.invar_drain)
  show "sched_size s = size (sched_content s)"
    by (cases s) (simp_all add: fifo.size_content priority.size_content sjf.size_content
        rr.size_content)
  show "sched_empty s \<longleftrightarrow> sched_content s = {#}"
    using fifo.empty_content priority.empty_content sjf.empty_content rr.empty_content
    by (cases s) simp_all
qed


lemma make_scheduler_kind:
  "make_scheduler config = Inr s \<Longrightarrow>
     sched_kind s = cfg_kind config \<and> sched_invar s \<and> sched_content s = {#}"
  by (auto simp: RoundRobinScheduler_def split: scheduler_kind.splits if_splits)

section \<open>The order of each strategy\<close>

text \<open>The documented orders: \<open>x\<close> may be handed out before \<open>y\<close>.\<close>

definition priority_before :: "scheduler_entry \<Rightarrow> scheduler_entry \<Rightarrow> bool" where
  "priority_before x y \<longleftrightarrow>
     se_priority x > se_priority y \<or>
     se_priority x = se_priority y \<and> se_submission_sequence x \<le> se_submission_sequence y"

definition sjf_before :: "scheduler_entry \<Rightarrow> scheduler_entry \<Rightarrow> bool" where
  "sjf_before x y \<longleftrightarrow>
     se_estimated_work_units x < se_estimated_work_units y \<or>
     se_estimated_work_units x = se_estimated_work_units y \<and>
     se_submission_sequence x \<le> se_submission_sequence y"

lemma not_PriorityCompare: "\<not> PriorityCompare x y \<longleftrightarrow> priority_before x y"
  by (auto simp: PriorityCompare_def priority_before_def)

lemma not_SjfCompare: "\<not> SjfCompare x y \<longleftrightarrow> sjf_before x y"
  by (auto simp: SjfCompare_def sjf_before_def)

lemma priority_drain_sorted:
  "heap_ordered PriorityCompare es \<Longrightarrow> sorted_wrt priority_before (fst (priority_drain es))"
  using pq_drained_sorted [OF priority_order.weak_order_axioms, of es]
  by (simp add: priority_drain_def drain_priority_queue_acc not_PriorityCompare)

lemma sjf_drain_sorted:
  "heap_ordered SjfCompare es \<Longrightarrow> sorted_wrt sjf_before (fst (sjf_drain es))"
  using pq_drained_sorted [OF sjf_order.weak_order_axioms, of es]
  by (simp add: sjf_drain_def drain_priority_queue_acc not_SjfCompare)

text \<open>Priority order.  Whatever entries are pushed, in whatever order, into a fresh
  PriorityScheduler, draining it returns exactly those entries, higher priority first and, among
  equal priorities, the earlier submission first.\<close>

theorem priority_schedule_order:
  "mset (fst (priority_drain (fold priority_push es []))) = mset es \<and>
   sorted_wrt priority_before (fst (priority_drain (fold priority_push es [])))"
  using priority.content_drain [of "fold priority_push es []"] priority.content_fold_push [of es "[]"]
    priority_drain_sorted [OF priority.invar_fold_push [OF heap_ordered_Nil, of es]]
  by simp

text \<open>Shortest job first.  Whatever entries are pushed into a fresh SjfScheduler, draining it
  returns exactly those entries, the smaller declared estimate first and, among equal estimates,
  the earlier submission first.\<close>

theorem sjf_schedule_order:
  "mset (fst (sjf_drain (fold sjf_push es []))) = mset es \<and>
   sorted_wrt sjf_before (fst (sjf_drain (fold sjf_push es [])))"
  using sjf.content_drain [of "fold sjf_push es []"] sjf.content_fold_push [of es "[]"]
    sjf_drain_sorted [OF sjf.invar_fold_push [OF heap_ordered_Nil, of es]]
  by simp

text \<open>
  A run of a strategy: any interleaving of pushes and pops after \<open>make_scheduler\<close>.  The entries
  handed out are collected in order.
\<close>

datatype sched_op = SPush scheduler_entry | SPop

fun sched_run :: "sched_op list \<Rightarrow> scheduler \<Rightarrow> scheduler_entry list \<times> scheduler" where
  "sched_run [] s = ([], s)"
| "sched_run (SPush e # ops) s = sched_run ops (sched_push e s)"
| "sched_run (SPop # ops) s =
     (case sched_pop s of
        (None, s') \<Rightarrow> sched_run ops s'
      | (Some e, s') \<Rightarrow> map_prod (Cons e) (\<lambda>x. x) (sched_run ops s'))"

fun pushed :: "sched_op list \<Rightarrow> scheduler_entry multiset" where
  "pushed [] = {#}"
| "pushed (SPush e # ops) = add_mset e (pushed ops)"
| "pushed (SPop # ops) = pushed ops"

lemma sched_run_content:
  "sched_run ops s = (out, s') \<Longrightarrow>
     mset out + sched_content s' = pushed ops + sched_content s \<and> (sched_invar s \<longrightarrow> sched_invar s')"
proof (induction ops s arbitrary: out rule: sched_run.induct)
  case (2 e ops s)
  then show ?case by (simp add: sched.content_push sched.invar_push)
next
  case (3 ops s)
  obtain r t where pop: "sched_pop s = (r, t)" by (cases "sched_pop s")
  have inv: "sched_invar s \<Longrightarrow> sched_invar t" using sched.invar_pop [of s] by (simp add: pop)
  show ?case
  proof (cases r)
    case None
    with 3 pop inv show ?thesis using sched.pop_None [of s t] by simp
  next
    case (Some e)
    with 3 pop obtain out' where out': "sched_run ops t = (out', s')" "out = e # out'"
      by (cases "sched_run ops t") simp
    with 3(2) [OF pop [symmetric] Some] inv sched.pop_Some [of s e t] pop Some show ?thesis
      by auto
  qed
qed simp

text \<open>C26 (no entry is lost or duplicated).  For every strategy and every interleaving of pushes and
  pops after \<open>make_scheduler\<close>, the entries handed out together with the entries still queued are
  exactly the entries pushed; the strategy keeps its kind-specific invariant.\<close>

theorem scheduler_conserves_entries:
  assumes "make_scheduler config = Inr s" and "sched_run ops s = (out, s')"
  shows "mset out + sched_content s' = pushed ops \<and> sched_invar s'"
  using make_scheduler_kind [OF assms(1)] sched_run_content [OF assms(2)] by simp

theorem scheduler_conserves_entries_witness:
  "\<exists>s s'. make_scheduler \<lparr>cfg_kind = RoundRobin, cfg_quantum = 7\<rparr> = Inr s \<and>
     sched_run [SPush \<lparr>se_id = 1, se_priority = 0, se_estimated_work_units = 1, se_submission_sequence = 0\<rparr>,
                SPop] s =
       ([\<lparr>se_id = 1, se_priority = 0, se_estimated_work_units = 1, se_submission_sequence = 0\<rparr>], s') \<and>
     sched_content s' = {#} \<and> sched_invar s'"
proof -
  let ?e = "\<lparr>se_id = 1, se_priority = 0, se_estimated_work_units = 1, se_submission_sequence = 0\<rparr>"
  let ?s = "RoundRobinS \<lparr>rr_entries = [], rr_quantum = 7\<rparr>"
  have mk: "make_scheduler \<lparr>cfg_kind = RoundRobin, cfg_quantum = 7\<rparr> = Inr ?s"
    by (simp add: RoundRobinScheduler_def)
  have run: "sched_run [SPush ?e, SPop] ?s = ([?e], ?s)"
    by (simp add: rr_push_def rr_pop_def)
  show ?thesis using mk run scheduler_conserves_entries [OF mk run] by auto
qed

lemma sched_pop_Fifo: "sched_pop (FifoS es) = (Some e, s') \<Longrightarrow> \<exists>rest. es = e # rest \<and> s' = FifoS rest"
  by (cases es) (auto simp: fifo_pop_def)

lemma sched_pop_RoundRobin:
  "sched_pop (RoundRobinS r) = (Some e, s') \<Longrightarrow>
     \<exists>rest. rr_entries r = e # rest \<and> s' = RoundRobinS (r\<lparr>rr_entries := rest\<rparr>)"
  by (cases "rr_entries r") (auto simp: rr_pop_def)

lemma priority_pop_first:
  "heap_ordered PriorityCompare es \<Longrightarrow> priority_pop es = (Some e, es') \<Longrightarrow> x \<in> set es \<Longrightarrow>
     priority_before e x"
  using priority_order.heap_top_max [of es x]
  by (auto simp: priority_pop_def not_PriorityCompare dest!: pop_priority_queue_Some)

lemma sjf_pop_first:
  "heap_ordered SjfCompare es \<Longrightarrow> sjf_pop es = (Some e, es') \<Longrightarrow> x \<in> set es \<Longrightarrow> sjf_before e x"
  using sjf_order.heap_top_max [of es x]
  by (auto simp: sjf_pop_def not_SjfCompare dest!: pop_priority_queue_Some)

text \<open>The entries pushed by a run, in the order of the pushes.\<close>

fun push_order :: "sched_op list \<Rightarrow> scheduler_entry list" where
  "push_order [] = []"
| "push_order (SPush e # ops) = e # push_order ops"
| "push_order (SPop # ops) = push_order ops"

lemma sched_kind_push [simp]: "sched_kind (sched_push e s) = sched_kind s"
  by (cases s) simp_all

lemma sched_kind_pop: "sched_pop s = (r, s') \<Longrightarrow> sched_kind s' = sched_kind s"
  by (cases s) (auto simp: map_snd_eq_Pair_iff)

lemma sched_kind_run: "sched_run ops s = (out, s') \<Longrightarrow> sched_kind s' = sched_kind s"
  by (induction ops s arbitrary: out rule: sched_run.induct)
    (auto simp: map_prod_def split: prod.splits option.splits dest!: sched_kind_pop)

lemma sched_push_queue:
  "sched_kind s \<in> {Fifo, RoundRobin} \<Longrightarrow> sched_entries (sched_push e s) = sched_entries s @ [e]"
  by (cases s) (simp_all add: fifo_push_def rr_push_def)

lemma sched_pop_queue:
  "sched_kind s \<in> {Fifo, RoundRobin} \<Longrightarrow> sched_pop s = (Some e, s') \<Longrightarrow>
     sched_entries s = e # sched_entries s'"
  by (cases s) (auto dest!: sched_pop_Fifo sched_pop_RoundRobin simp del: sched_pop.simps)

text \<open>The history of a FIFO or Round Robin queue: what was queued and pushed is what was handed out
  followed by what is still queued.\<close>

lemma sched_run_queue:
  "sched_run ops s = (out, s') \<Longrightarrow> sched_kind s \<in> {Fifo, RoundRobin} \<Longrightarrow>
     out @ sched_entries s' = sched_entries s @ push_order ops"
proof (induction ops s arbitrary: out rule: sched_run.induct)
  case (2 e ops s)
  then show ?case by (simp add: sched_push_queue)
next
  case (3 ops s)
  obtain r t where pop: "sched_pop s = (r, t)" by (cases "sched_pop s")
  note kind = sched_kind_pop [OF pop]
  show ?case
  proof (cases r)
    case None
    with 3 pop show ?thesis using sched.pop_None [of s t] by simp
  next
    case (Some e)
    with 3 pop obtain out' where out': "sched_run ops t = (out', s')" "out = e # out'"
      by (cases "sched_run ops t") simp
    with 3(2) [OF pop [symmetric] Some] 3(4) kind sched_pop_queue [of s e t] pop Some show ?thesis
      by simp
  qed
qed simp

lemma sched_pop_first:
  assumes "sched_invar s" and "sched_pop s = (Some e, s')" and "x \<in> set (sched_entries s)"
  shows "(sched_kind s = Priority \<longrightarrow> priority_before e x) \<and>
    (sched_kind s = ShortestJobFirst \<longrightarrow> sjf_before e x)"
  using assms by (cases s) (auto simp: map_snd_eq_Pair_iff intro: priority_pop_first sjf_pop_first)

text \<open>C27 (policy of a running scheduler).  After any interleaving of pushes and pops, the entry that
  the next \<open>pop\<close> hands out is the one the strategy documents, judged by the history of the run alone:
  for FIFO and Round Robin it is the oldest push not handed out yet (the entries handed out so far,
  then this one, then the later pushes are the pushes of the run in their order); for Priority no
  entry that was pushed and not handed out has a higher priority, or the same priority and an earlier
  submission; for SJF none has a smaller estimate, or the same estimate and an earlier submission.\<close>

theorem pop_follows_policy:
  assumes "make_scheduler config = Inr s0" and "sched_run ops s0 = (out, s)"
    and "sched_pop s = (Some e, s')"
  shows "sched_kind s = cfg_kind config \<and> e \<in># pushed ops - mset out \<and>
    (case cfg_kind config of
       Fifo \<Rightarrow> \<exists>later. push_order ops = out @ e # later
     | RoundRobin \<Rightarrow> \<exists>later. push_order ops = out @ e # later
     | Priority \<Rightarrow> \<forall>x \<in># pushed ops - mset out. priority_before e x
     | ShortestJobFirst \<Rightarrow> \<forall>x \<in># pushed ops - mset out. sjf_before e x)"
proof -
  note fresh = make_scheduler_kind [OF assms(1)] and run = sched_run_content [OF assms(2)]
  have waiting: "pushed ops - mset out = sched_content s" and invar: "sched_invar s"
    using fresh run by (metis add_diff_cancel_left' add.right_neutral, blast)
  have kind: "sched_kind s = cfg_kind config" using sched_kind_run [OF assms(2)] fresh by simp
  have "\<exists>later. push_order ops = out @ e # later" if "cfg_kind config \<in> {Fifo, RoundRobin}"
  proof -
    have "push_order ops = out @ e # sched_entries s'"
      using sched_run_queue [OF assms(2)] sched_pop_queue [OF _ assms(3)] fresh kind that by auto
    then show ?thesis ..
  qed
  moreover have "(cfg_kind config = Priority \<longrightarrow> priority_before e x) \<and>
      (cfg_kind config = ShortestJobFirst \<longrightarrow> sjf_before e x)" if "x \<in># sched_content s" for x
    using sched_pop_first [OF invar assms(3), of x] that kind by simp
  ultimately show ?thesis
    using kind sched.pop_Some [OF assms(3)] by (cases "cfg_kind config") (simp_all add: waiting)
qed

theorem pop_follows_policy_witness:
  "let a = \<lparr>se_id = 1, se_priority = 2, se_estimated_work_units = 1, se_submission_sequence = 0\<rparr>;
       b = \<lparr>se_id = 2, se_priority = 9, se_estimated_work_units = 1, se_submission_sequence = 1\<rparr>;
       c = \<lparr>se_id = 3, se_priority = 9, se_estimated_work_units = 1, se_submission_sequence = 2\<rparr>
   in (\<exists>s s' later. sched_run [SPush a, SPush b, SPop, SPush c] (FifoS []) = ([a], s) \<and>
         sched_pop s = (Some b, s') \<and>
         push_order [SPush a, SPush b, SPop, SPush c] = [a] @ b # later) \<and>
      (\<exists>s s'. sched_run [SPush a, SPush b] (PriorityS []) = ([], s) \<and> sched_pop s = (Some b, s') \<and>
         priority_before b a)"
proof -
  let ?a = "\<lparr>se_id = 1, se_priority = 2, se_estimated_work_units = 1, se_submission_sequence = 0\<rparr> :: scheduler_entry"
  let ?b = "\<lparr>se_id = 2, se_priority = 9, se_estimated_work_units = 1, se_submission_sequence = 1\<rparr> :: scheduler_entry"
  let ?c = "\<lparr>se_id = 3, se_priority = 9, se_estimated_work_units = 1, se_submission_sequence = 2\<rparr> :: scheduler_entry"
  have mkf: "make_scheduler \<lparr>cfg_kind = Fifo, cfg_quantum = 1\<rparr> = Inr (FifoS [])" by simp
  have runf: "sched_run [SPush ?a, SPush ?b, SPop, SPush ?c] (FifoS []) = ([?a], FifoS [?b, ?c])"
    by (simp add: fifo_push_def fifo_pop_def)
  have popf: "sched_pop (FifoS [?b, ?c]) = (Some ?b, FifoS [?c])" by (simp add: fifo_pop_def)
  have mk: "make_scheduler \<lparr>cfg_kind = Priority, cfg_quantum = 1\<rparr> = Inr (PriorityS [])" by simp
  have run: "sched_run [SPush ?a, SPush ?b] (PriorityS []) = ([], PriorityS [?b, ?a])"
    by (simp add: priority_push_def pq_push_def sift_up.simps parent_def swap_at_def PriorityCompare_def)
  have pop: "sched_pop (PriorityS [?b, ?a]) = (Some ?b, PriorityS [?a])"
    by (simp add: priority_pop_def pop_priority_queue_def pq_top_def pq_pop_def swap_at_def sift_down.simps)
  have "\<exists>later. push_order [SPush ?a, SPush ?b, SPop, SPush ?c] = [?a] @ ?b # later"
    using pop_follows_policy [OF mkf runf popf] by simp
  moreover have "priority_before ?b ?a" using pop_follows_policy [OF mk run pop] by simp
  ultimately show ?thesis using runf popf run pop unfolding Let_def by blast
qed

text \<open>FIFO order.  A fresh FifoScheduler hands entries out in exactly the order in which they
  were pushed, and draining leaves it empty.\<close>

theorem fifo_schedule_order: "fifo_drain (fold fifo_push es []) = (es, [])"
proof -
  have "fold fifo_push es acc = acc @ es" for acc
    by (induction es arbitrary: acc) (simp_all add: fifo_push_def)
  then show ?thesis by (simp add: fifo_drain_def drain_container_eq)
qed

text \<open>One turn of Round Robin: the entry at the front runs a slice and is requeued.\<close>

definition rr_turn :: "round_robin \<Rightarrow> round_robin" where
  "rr_turn s = (case rr_pop s of (None, s') \<Rightarrow> s' | (Some e, s') \<Rightarrow> rr_push e s')"

lemma rr_turn_rotate: "rr_turn s = s\<lparr>rr_entries := rotate1 (rr_entries s)\<rparr>"
  by (cases "rr_entries s") (simp_all add: rr_turn_def rr_pop_def rr_push_def)

lemma rr_turns_rotate: "(rr_turn ^^ n) s = s\<lparr>rr_entries := rotate n (rr_entries s)\<rparr>"
  by (induction n) (simp_all add: rr_turn_rotate)

text \<open>C28 (Round Robin is fair).  With a queue of n yielding jobs, the entry at position i is handed
  out after exactly i turns, and after n turns the queue is back in its initial order.\<close>

theorem round_robin_fair:
  assumes "i < length (rr_entries s)"
  shows "fst (rr_pop ((rr_turn ^^ i) s)) = Some (rr_entries s ! i) \<and>
         (rr_turn ^^ length (rr_entries s)) s = s"
proof -
  have ne: "rotate i (rr_entries s) \<noteq> []" using assms by auto
  then have "hd (rotate i (rr_entries s)) = rr_entries s ! i"
    using assms by (simp add: hd_rotate_conv_nth)
  with ne show ?thesis by (simp add: rr_turns_rotate rr_pop_def)
qed

theorem round_robin_fair_witness:
  "\<exists>s. 1 < length (rr_entries s) \<and> fst (rr_pop ((rr_turn ^^ 1) s)) = Some (rr_entries s ! 1)"
proof -
  let ?e = "\<lparr>se_id = 1, se_priority = 0, se_estimated_work_units = 1, se_submission_sequence = 0\<rparr>"
  let ?s = "\<lparr>rr_entries = [?e, ?e\<lparr>se_id := 2\<rparr>], rr_quantum = 25\<rparr>"
  have "1 < length (rr_entries ?s)" by simp
  then show ?thesis using round_robin_fair [of 1 ?s] by blast
qed

text \<open>Construction.  \<open>make_scheduler\<close> fails, with \<open>std::invalid_argument\<close>, exactly for Round Robin
  with quantum zero; otherwise it builds an empty strategy of the configured kind whose slice
  budget is never zero: the quantum for Round Robin, unlimited for the others.\<close>

theorem make_scheduler_correct:
  "case make_scheduler config of
     Inl e \<Rightarrow> cfg_kind config = RoundRobin \<and> cfg_quantum config = 0 \<and>
       e = invalid_argument ''round-robin quantum must be greater than zero''
   | Inr s \<Rightarrow> \<not> (cfg_kind config = RoundRobin \<and> cfg_quantum config = 0) \<and>
       sched_kind s = cfg_kind config \<and> sched_empty s \<and> sched_size s = 0 \<and>
       sched_slice_budget s \<noteq> 0 \<and>
       sched_slice_budget s =
         (if cfg_kind config = RoundRobin then cfg_quantum config else unlimited_work)"
  by (cases "cfg_kind config")
    (simp_all add: RoundRobinScheduler_def fifo_empty_def fifo_size_def fifo_slice_budget_def
      priority_empty_def priority_size_def priority_slice_budget_def sjf_empty_def sjf_size_def
      sjf_slice_budget_def rr_empty_def rr_size_def rr_slice_budget_def unlimited_work_def)

end
