(* ===== verification/Kronos_Queue.thy ===== *)
theory Kronos_Queue
  imports Kronos_Scheduler
begin

text \<open>
  \<open>TaskQueue\<close> of \<open>src/task_engine.cpp\<close>: the scheduler behind a mutex, with the flag \<open>closed_\<close>.  Each
  operation is one critical section, so each is one atomic function.  \<open>pop\<close> blocks in a condition
  wait; \<open>pop_ready\<close> is the condition under which the wait returns, and \<open>queue_pop\<close> is what happens
  then.  Notifications have no state.

  The locale \<open>job_queue\<close> is what the engine relies on, in terms of the multiset of queued entries and
  the flag; it is interpreted for the model of \<open>TaskQueue\<close>, resting on the contract of the schedulers.
\<close>

record dispatch =
  dis_entry :: scheduler_entry
  dis_budget :: work_units

record task_queue =
  tq_scheduler :: scheduler
  tq_config :: scheduler_config
  tq_closed :: bool

definition TaskQueue :: "scheduler_config \<Rightarrow> task_queue result" where
  "TaskQueue config =
     map_sum (\<lambda>e. e) (\<lambda>s. \<lparr>tq_scheduler = s, tq_config = config, tq_closed = False\<rparr>)
       (make_scheduler config)"

definition push_external :: "scheduler_entry \<Rightarrow> task_queue \<Rightarrow> bool \<times> task_queue" where
  "push_external entry q =
     (if tq_closed q then (False, q)
      else (True, q\<lparr>tq_scheduler := sched_push entry (tq_scheduler q)\<rparr>))"

definition requeue :: "scheduler_entry \<Rightarrow> task_queue \<Rightarrow> task_queue" where
  "requeue entry q = q\<lparr>tq_scheduler := sched_push entry (tq_scheduler q)\<rparr>"

definition pop_ready :: "bool \<Rightarrow> task_queue \<Rightarrow> bool" where
  "pop_ready stop_requested q \<longleftrightarrow>
     stop_requested \<or> tq_closed q \<or> \<not> sched_empty (tq_scheduler q)"

definition queue_pop :: "task_queue \<Rightarrow> dispatch option \<times> task_queue" where
  "queue_pop q =
     (if sched_empty (tq_scheduler q) then (None, q)
      else case sched_pop (tq_scheduler q) of
             (None, s) \<Rightarrow> (None, q\<lparr>tq_scheduler := s\<rparr>)
           | (Some entry, s) \<Rightarrow>
               (Some \<lparr>dis_entry = entry, dis_budget = sched_slice_budget s\<rparr>, q\<lparr>tq_scheduler := s\<rparr>))"

definition queue_set_scheduler :: "scheduler_config \<Rightarrow> task_queue \<Rightarrow> task_queue result" where
  "queue_set_scheduler config q =
     (case make_scheduler config of Inl e \<Rightarrow> Inl e | Inr replacement \<Rightarrow>
        if tq_closed q then Inl (logic_error ''cannot change scheduler after shutdown'')
        else let (entries, _) = sched_drain (tq_scheduler q) in
          Inr (q\<lparr>tq_scheduler := fold sched_push entries replacement, tq_config := config\<rparr>))"

definition queue_config :: "task_queue \<Rightarrow> scheduler_config" where
  "queue_config q = tq_config q"

definition close_and_drain_pending :: "bool \<Rightarrow> task_queue \<Rightarrow> scheduler_entry list \<times> task_queue" where
  "close_and_drain_pending drain_pending q =
     (if drain_pending
      then let (entries, s) = sched_drain (tq_scheduler q) in
        (entries, q\<lparr>tq_closed := True, tq_scheduler := s\<rparr>)
      else ([], q\<lparr>tq_closed := True\<rparr>))"

section \<open>The contract of the queue\<close>

locale job_queue =
  fixes push :: "scheduler_entry \<Rightarrow> 'q \<Rightarrow> bool \<times> 'q" and put_back :: "scheduler_entry \<Rightarrow> 'q \<Rightarrow> 'q"
    and take :: "'q \<Rightarrow> dispatch option \<times> 'q" and reconfigure :: "scheduler_config \<Rightarrow> 'q \<Rightarrow> 'q result"
    and close :: "bool \<Rightarrow> 'q \<Rightarrow> scheduler_entry list \<times> 'q"
    and invar :: "'q \<Rightarrow> bool" and closed :: "'q \<Rightarrow> bool" and content :: "'q \<Rightarrow> scheduler_entry multiset"
  assumes push_spec: "push e q = (ok, q') \<Longrightarrow>
      ok = (\<not> closed q) \<and> closed q' = closed q \<and> (invar q \<longrightarrow> invar q') \<and>
      content q' = (if ok then add_mset e (content q) else content q)"
    and put_back_spec: "closed (put_back e q) = closed q \<and> (invar q \<longrightarrow> invar (put_back e q)) \<and>
      content (put_back e q) = add_mset e (content q)"
    and take_None: "take q = (None, q') \<Longrightarrow> q' = q \<and> content q = {#}"
    and take_Some: "take q = (Some d, q') \<Longrightarrow> closed q' = closed q \<and> (invar q \<longrightarrow> invar q') \<and>
      content q = add_mset (dis_entry d) (content q') \<and> (invar q \<longrightarrow> dis_budget d \<noteq> 0)"
    and reconfigure_spec: "reconfigure config q = Inr q' \<Longrightarrow>
      \<not> closed q \<and> \<not> closed q' \<and> content q' = content q \<and> invar q'"
    and close_spec: "close all q = (es, q') \<Longrightarrow> closed q' \<and> (invar q \<longrightarrow> invar q') \<and>
      mset es + content q' = content q \<and> (all \<longrightarrow> content q' = {#}) \<and> (\<not> all \<longrightarrow> es = [])"
begin

text \<open>What was pushed is taken or still there, whatever happens in between.\<close>

lemma take_available: "content q \<noteq> {#} \<Longrightarrow> \<exists>d q'. take q = (Some d, q')"
  using take_None [of q] by (cases "take q"; cases "fst (take q)") auto

lemma push_then_close: "push e q = (True, q1) \<Longrightarrow> close True q1 = (es, q2) \<Longrightarrow> e \<in> set es"
  using push_spec [of e q True q1] close_spec [of True q1 es q2]
  by (metis add.right_neutral add_mset_remove_trivial_eq set_mset_mset union_single_eq_member
      insert_DiffM2 in_multiset_in_set)

end

abbreviation queue_content :: "task_queue \<Rightarrow> scheduler_entry multiset" where
  "queue_content q \<equiv> sched_content (tq_scheduler q)"

abbreviation queue_invar :: "task_queue \<Rightarrow> bool" where
  "queue_invar q \<equiv> sched_invar (tq_scheduler q)"

lemma sched_slice_budget_pop: "sched_pop s = (r, s') \<Longrightarrow> sched_slice_budget s' = sched_slice_budget s"
  by (cases s) (auto simp: map_snd_eq_Pair_iff rr_pop_def rr_slice_budget_def split: if_splits)

lemma sched_slice_budget_nonzero: "sched_invar s \<Longrightarrow> sched_slice_budget s \<noteq> 0"
  by (cases s) (simp_all add: fifo_slice_budget_def priority_slice_budget_def sjf_slice_budget_def
      rr_slice_budget_def unlimited_work_def)

interpretation tq: job_queue push_external requeue queue_pop queue_set_scheduler close_and_drain_pending
  queue_invar tq_closed queue_content
proof
  show "push_external e q = (ok, q') \<Longrightarrow>
      ok = (\<not> tq_closed q) \<and> tq_closed q' = tq_closed q \<and> (queue_invar q \<longrightarrow> queue_invar q') \<and>
      queue_content q' = (if ok then add_mset e (queue_content q) else queue_content q)" for e q ok q'
    by (auto simp: push_external_def sched.content_push sched.invar_push split: if_splits)
  show "tq_closed (requeue e q) = tq_closed q \<and> (queue_invar q \<longrightarrow> queue_invar (requeue e q)) \<and>
      queue_content (requeue e q) = add_mset e (queue_content q)" for e q
    by (simp add: requeue_def sched.content_push sched.invar_push)
  show "queue_pop q = (None, q') \<Longrightarrow> q' = q \<and> queue_content q = {#}" for q q'
    using sched.pop_nonempty [of "tq_scheduler q"] sched.empty_content [of "tq_scheduler q"]
    by (auto simp: queue_pop_def split: if_splits prod.splits option.splits)
  show "queue_pop q = (Some d, q') \<Longrightarrow> tq_closed q' = tq_closed q \<and> (queue_invar q \<longrightarrow> queue_invar q') \<and>
      queue_content q = add_mset (dis_entry d) (queue_content q') \<and> (queue_invar q \<longrightarrow> dis_budget d \<noteq> 0)" for q d q'
    using sched.invar_pop [of "tq_scheduler q"]
    by (auto simp: queue_pop_def sched_slice_budget_nonzero split: if_splits prod.splits option.splits
        dest: sched.pop_Some)
  show "queue_set_scheduler config q = Inr q' \<Longrightarrow>
      \<not> tq_closed q \<and> \<not> tq_closed q' \<and> queue_content q' = queue_content q \<and> queue_invar q'" for config q q'
    using sched.content_drain [of "tq_scheduler q"] make_scheduler_kind [of config]
    by (auto simp: queue_set_scheduler_def sched.content_fold_push sched.invar_fold_push
        split: sum.splits if_splits prod.splits)
  show "close_and_drain_pending all q = (es, q') \<Longrightarrow> tq_closed q' \<and> (queue_invar q \<longrightarrow> queue_invar q') \<and>
      mset es + queue_content q' = queue_content q \<and> (all \<longrightarrow> queue_content q' = {#}) \<and> (\<not> all \<longrightarrow> es = [])"
    for all q es q'
    using sched.content_drain [of "tq_scheduler q"] sched.drain_empties [of "tq_scheduler q"]
      sched.invar_drain [of "tq_scheduler q"]
    by (auto simp: close_and_drain_pending_def split: if_splits prod.splits)
qed

lemma pop_ready_spec: "pop_ready stop q \<longleftrightarrow> stop \<or> tq_closed q \<or> queue_content q \<noteq> {#}"
  by (simp add: pop_ready_def sched.empty_content)

section \<open>Properties\<close>

text \<open>The dispatches that \<open>n\<close> calls of \<open>pop\<close> in a row return.\<close>

fun queue_pops :: "nat \<Rightarrow> task_queue \<Rightarrow> dispatch list" where
  "queue_pops 0 q = []"
| "queue_pops (Suc n) q =
     (case queue_pop q of (None, q') \<Rightarrow> [] | (Some d, q') \<Rightarrow> d # queue_pops n q')"

text \<open>Draining a scheduler returns its entries in the order of repeated pops.\<close>

lemma sched_drain_None: "sched_pop s = (None, s') \<Longrightarrow> fst (sched_drain s) = []"
  using sched.content_drain [of s] sched.pop_None [of s s'] by simp

lemma sched_drain_Some: "sched_pop s = (Some e, s') \<Longrightarrow> fst (sched_drain s) = e # fst (sched_drain s')"
  by (cases s)
    (auto simp: map_snd_eq_Pair_iff fifo_defs rr_defs priority_defs sjf_defs drain_container_eq
      drain_priority_queue_acc split: if_splits dest!: pop_priority_queue_Some)

lemma queue_pops_drain:
  "map dis_entry (queue_pops n q) = take n (fst (sched_drain (tq_scheduler q)))"
proof (induction n arbitrary: q)
  case (Suc n)
  obtain r s where pop: "sched_pop (tq_scheduler q) = (r, s)" by fastforce
  show ?case
  proof (cases r)
    case None
    with pop show ?thesis using sched_drain_None [of "tq_scheduler q" s] by (simp add: queue_pop_def)
  next
    case (Some e)
    with pop have "\<not> sched_empty (tq_scheduler q)"
      using sched.pop_Some [of "tq_scheduler q" e s] by (simp add: sched.empty_content)
    with pop Some Suc show ?thesis
      using sched_drain_Some [of "tq_scheduler q" e s] by (simp add: queue_pop_def)
  qed
qed simp

lemma queue_pops_budget:
  "d \<in> set (queue_pops n q) \<Longrightarrow> dis_budget d = sched_slice_budget (tq_scheduler q)"
  by (induction n arbitrary: q)
    (auto simp: queue_pop_def split: if_splits prod.splits option.splits dest!: sched_slice_budget_pop)

text \<open>What re-queueing a list of entries into a fresh scheduler gives.\<close>

lemma fold_push_kind: "sched_kind (fold sched_push es s) = sched_kind s"
  by (induction es arbitrary: s) simp_all

lemma fold_push_budget: "sched_slice_budget (fold sched_push es s) = sched_slice_budget s"
proof (induction es arbitrary: s)
  case (Cons e es)
  have "sched_slice_budget (sched_push e s) = sched_slice_budget s"
    by (cases s) (simp_all add: rr_push_def rr_slice_budget_def)
  with Cons show ?case by simp
qed simp

lemma fold_push_queue:
  "sched_kind s \<in> {Fifo, RoundRobin} \<Longrightarrow> sched_entries (fold sched_push es s) = sched_entries s @ es"
  by (induction es arbitrary: s) (simp_all add: sched_push_queue)

lemma drain_queue: "sched_kind s \<in> {Fifo, RoundRobin} \<Longrightarrow> fst (sched_drain s) = sched_entries s"
  by (cases s) (simp_all add: fifo_drain_def rr_drain_def drain_container_eq)

lemma drain_sorted:
  "sched_invar s \<Longrightarrow>
     (sched_kind s = Priority \<longrightarrow> sorted_wrt priority_before (fst (sched_drain s))) \<and>
     (sched_kind s = ShortestJobFirst \<longrightarrow> sorted_wrt sjf_before (fst (sched_drain s)))"
  by (cases s) (simp_all add: priority_drain_sorted sjf_drain_sorted)

lemma queue_set_scheduler_Inr:
  assumes "queue_set_scheduler config q = Inr q'"
  shows "\<not> tq_closed q" and "\<not> (cfg_kind config = RoundRobin \<and> cfg_quantum config = 0)"
    and "queue_config q' = config" and "sched_kind (tq_scheduler q') = cfg_kind config"
    and "sched_slice_budget (tq_scheduler q') =
      (if cfg_kind config = RoundRobin then cfg_quantum config else unlimited_work)"
    and "cfg_kind config \<in> {Fifo, RoundRobin} \<Longrightarrow>
      sched_entries (tq_scheduler q') = fst (sched_drain (tq_scheduler q))"
proof -
  obtain s where mk: "make_scheduler config = Inr s" and "\<not> tq_closed q"
    and q': "q' = q\<lparr>tq_scheduler := fold sched_push (fst (sched_drain (tq_scheduler q))) s, tq_config := config\<rparr>"
    using assms by (auto simp: queue_set_scheduler_def split: sum.splits if_splits prod.splits)
  note fresh = make_scheduler_kind [OF mk]
  have "sched_slice_budget s =
      (if cfg_kind config = RoundRobin then cfg_quantum config else unlimited_work) \<and>
      \<not> (cfg_kind config = RoundRobin \<and> cfg_quantum config = 0)"
    using mk by (auto simp: RoundRobinScheduler_def fifo_slice_budget_def priority_slice_budget_def
        sjf_slice_budget_def rr_slice_budget_def split: scheduler_kind.splits if_splits)
  then show "\<not> tq_closed q" "\<not> (cfg_kind config = RoundRobin \<and> cfg_quantum config = 0)"
      "queue_config q' = config" "sched_kind (tq_scheduler q') = cfg_kind config"
      "sched_slice_budget (tq_scheduler q') =
        (if cfg_kind config = RoundRobin then cfg_quantum config else unlimited_work)"
      "cfg_kind config \<in> {Fifo, RoundRobin} \<Longrightarrow>
        sched_entries (tq_scheduler q') = fst (sched_drain (tq_scheduler q))"
    using \<open>\<not> tq_closed q\<close> fresh
    by (simp_all add: q' queue_config_def fold_push_kind fold_push_budget fold_push_queue)
qed

text \<open>
  C29 (changing the policy of a live queue).  Replacing the scheduler of an open queue keeps exactly
  the queued entries and installs the new policy.  What the next \<open>n\<close> pops return, for any \<open>n\<close>: for
  FIFO and Round Robin the entries that \<open>n\<close> pops of the old queue would have returned, in the same
  order; for Priority and SJF the entries in the documented order of the policy; all of them when \<open>n\<close>
  is the number of queued entries; each with the budget of the new configuration (the quantum for
  Round Robin, unlimited otherwise).  The change fails exactly when the new configuration is invalid
  (reported first) or the queue is closed, and then nothing changes.
\<close>

theorem set_scheduler_keeps_jobs:
  "case queue_set_scheduler config q of
     Inr q' \<Rightarrow> \<not> tq_closed q \<and> \<not> (cfg_kind config = RoundRobin \<and> cfg_quantum config = 0) \<and>
       queue_content q' = queue_content q \<and> sched_kind (tq_scheduler q') = cfg_kind config \<and>
       queue_config q' = config \<and>
       mset (map dis_entry (queue_pops (size (queue_content q)) q')) = queue_content q \<and>
       (case cfg_kind config of
          Fifo \<Rightarrow> map dis_entry (queue_pops n q') = map dis_entry (queue_pops n q)
        | RoundRobin \<Rightarrow> map dis_entry (queue_pops n q') = map dis_entry (queue_pops n q)
        | Priority \<Rightarrow> sorted_wrt priority_before (map dis_entry (queue_pops n q'))
        | ShortestJobFirst \<Rightarrow> sorted_wrt sjf_before (map dis_entry (queue_pops n q'))) \<and>
       (\<forall>d \<in> set (queue_pops n q').
          dis_budget d = (if cfg_kind config = RoundRobin then cfg_quantum config else unlimited_work))
   | Inl e \<Rightarrow>
       (if cfg_kind config = RoundRobin \<and> cfg_quantum config = 0
        then e = invalid_argument ''round-robin quantum must be greater than zero''
        else tq_closed q \<and> e = logic_error ''cannot change scheduler after shutdown'')"
proof (cases "queue_set_scheduler config q")
  case (Inl e)
  then show ?thesis
    by (auto simp: queue_set_scheduler_def RoundRobinScheduler_def Let_def split: sum.splits if_splits
        prod.splits scheduler_kind.splits)
next
  case (Inr q')
  note new = queue_set_scheduler_Inr [OF Inr] and keeps = tq.reconfigure_spec [OF Inr]
  have "length (fst (sched_drain (tq_scheduler q'))) = size (queue_content q)"
    using sched.content_drain [of "tq_scheduler q'"] keeps by (metis size_mset)
  then have "mset (map dis_entry (queue_pops (size (queue_content q)) q')) = queue_content q"
    using sched.content_drain [of "tq_scheduler q'"] keeps by (simp add: queue_pops_drain)
  moreover have "map dis_entry (queue_pops n q') = map dis_entry (queue_pops n q)"
    if "cfg_kind config \<in> {Fifo, RoundRobin}"
    using that new drain_queue [of "tq_scheduler q'"] by (simp add: queue_pops_drain)
  moreover have "cfg_kind config = Priority \<Longrightarrow> sorted_wrt priority_before (map dis_entry (queue_pops n q'))"
      "cfg_kind config = ShortestJobFirst \<Longrightarrow> sorted_wrt sjf_before (map dis_entry (queue_pops n q'))"
    using drain_sorted [of "tq_scheduler q'"] keeps new(4)
    by (simp_all add: queue_pops_drain sorted_wrt_take)
  moreover have "dis_budget d = (if cfg_kind config = RoundRobin then cfg_quantum config else unlimited_work)"
    if "d \<in> set (queue_pops n q')" for d
    using queue_pops_budget [OF that] new(5) by simp
  ultimately show ?thesis using keeps new(2-4) Inr by (cases "cfg_kind config") simp_all
qed

theorem set_scheduler_keeps_jobs_witness:
  "let a = \<lparr>se_id = 1, se_priority = 2, se_estimated_work_units = 1, se_submission_sequence = 0\<rparr>;
       b = \<lparr>se_id = 2, se_priority = 9, se_estimated_work_units = 1, se_submission_sequence = 1\<rparr>;
       q = \<lparr>tq_scheduler = FifoS [a, b], tq_config = \<lparr>cfg_kind = Fifo, cfg_quantum = 1\<rparr>, tq_closed = False\<rparr>
   in (\<exists>q'. queue_set_scheduler \<lparr>cfg_kind = Priority, cfg_quantum = 1\<rparr> q = Inr q' \<and>
         sorted_wrt priority_before (map dis_entry (queue_pops 2 q')) \<and>
         mset (map dis_entry (queue_pops 2 q')) = {#a, b#}) \<and>
      (\<exists>q'. queue_set_scheduler \<lparr>cfg_kind = RoundRobin, cfg_quantum = 3\<rparr> q = Inr q' \<and>
         map dis_entry (queue_pops 2 q') = [a, b] \<and> (\<forall>d \<in> set (queue_pops 2 q'). dis_budget d = 3))"
proof -
  let ?a = "\<lparr>se_id = 1, se_priority = 2, se_estimated_work_units = 1, se_submission_sequence = 0\<rparr> :: scheduler_entry"
  let ?b = "\<lparr>se_id = 2, se_priority = 9, se_estimated_work_units = 1, se_submission_sequence = 1\<rparr> :: scheduler_entry"
  let ?q = "\<lparr>tq_scheduler = FifoS [?a, ?b], tq_config = \<lparr>cfg_kind = Fifo, cfg_quantum = 1\<rparr>, tq_closed = False\<rparr>"
  let ?p = "\<lparr>cfg_kind = Priority, cfg_quantum = 1\<rparr>" and ?r = "\<lparr>cfg_kind = RoundRobin, cfg_quantum = 3\<rparr>"
  have old: "map dis_entry (queue_pops 2 ?q) = [?a, ?b]"
    by (simp add: queue_pops_drain fifo_drain_def drain_container_eq)
  obtain p where p: "queue_set_scheduler ?p ?q = Inr p"
    by (cases "sched_drain (FifoS [?a, ?b])") (simp add: queue_set_scheduler_def del: sched_drain.simps)
  obtain r where r: "queue_set_scheduler ?r ?q = Inr r"
    by (cases "sched_drain (FifoS [?a, ?b])")
      (simp add: queue_set_scheduler_def RoundRobinScheduler_def del: sched_drain.simps)
  show ?thesis
    using set_scheduler_keeps_jobs [of ?p ?q 2] p set_scheduler_keeps_jobs [of ?r ?q 2] r old
    by (simp add: Let_def add_mset_commute numeral_2_eq_2)
qed

text \<open>
  Shutdown of the queue.  After the queue was closed, external pushes are refused and change
  nothing, a cancelling close hands out exactly the queued entries and leaves the queue empty, and
  from then on \<open>pop\<close> never blocks and returns nothing; a draining close leaves the entries in place.
\<close>

theorem close_stops_queue:
  "case close_and_drain_pending cancel q of (entries, q') \<Rightarrow>
     mset entries + queue_content q' = queue_content q \<and>
     push_external e q' = (False, q') \<and> pop_ready stop q' \<and>
     (if cancel then queue_pop q' = (None, q') else entries = [] \<and> queue_content q' = queue_content q)"
proof -
  obtain es q' where c: "close_and_drain_pending cancel q = (es, q')" by fastforce
  note spec = tq.close_spec [OF c]
  have "queue_pop q' = (None, q')" if "queue_content q' = {#}"
    using that by (simp add: queue_pop_def sched.empty_content)
  then show ?thesis using spec c by (auto simp: push_external_def pop_ready_spec)
qed

end
