(* ===== verification/Kronos_Engine.thy ===== *)
theory Kronos_Engine
  imports Kronos_Queue
begin

text \<open>
  \<open>TaskEngine::Impl\<close> of \<open>src/task_engine.cpp\<close>, one definition per critical section or atomic access, and
  the public operations composed of them.  \<open>Kronos_Steps\<close> interleaves these pieces.

  \<^item> Job records are shared by pointer (\<open>std::shared_ptr<JobRecord>\<close>): they live in a store, a list
    indexed by references, and \<open>records_\<close> maps job IDs to references.
  \<^item> The promise of a record is the list of values given to \<open>set_value\<close>, so that a second call would be
    visible (it throws \<open>std::future_error\<close> in C++).
  \<^item> The journal is the interface \<open>IJobJournal\<close>: a record of two operations on a state \<open>'j\<close>, each of which
    may throw.  The task type \<open>'t\<close> is open, as \<open>ITask\<close> is.
  \<^item> What the constructor asks of the platform (processors, memory and threads) is an argument.
  \<^item> \<open>Clock::now()\<close> is an argument; the default time point is \<open>0\<close>.
\<close>

section \<open>State\<close>

record 'j journal_ops =
  append_submission :: "job_submission_record \<Rightarrow> 'j \<Rightarrow> exn option \<times> 'j"
  append_transition :: "job_transition_record \<Rightarrow> 'j \<Rightarrow> exn option \<times> 'j"

record 't job_record =
  jr_snapshot :: job_snapshot
  jr_entry :: scheduler_entry
  jr_task :: 't
  jr_stop_requested :: bool
  jr_promise :: "job_result list"
  jr_result_published :: bool

record ('t, 'j) engine =
  en_queue :: task_queue
  en_worker_count :: nat
  en_store :: "'t job_record list"
  en_records :: "(job_id, nat) hash_map"
  en_next_job_id :: u64
  en_next_sequence :: u64
  en_accepting :: bool
  en_journal :: "'j option"

record 'j engine_config =
  ec_worker_count :: nat
  ec_scheduler :: scheduler_config
  ec_journal :: "'j option"

record job_handle =
  jh_id :: job_id
  jh_result :: "nat option"

definition JobHandle :: "job_id \<Rightarrow> nat \<Rightarrow> job_handle" where
  "JobHandle i r = \<lparr>jh_id = i, jh_result = Some r\<rparr>"

definition handle_valid :: "job_handle \<Rightarrow> bool" where
  "handle_valid h \<longleftrightarrow> jh_result h \<noteq> None"

definition JobRecord :: "job_snapshot \<Rightarrow> scheduler_entry \<Rightarrow> 't \<Rightarrow> 't job_record" where
  "JobRecord initial_snapshot scheduler_entry submitted_task =
     \<lparr>jr_snapshot = initial_snapshot, jr_entry = scheduler_entry, jr_task = submitted_task,
      jr_stop_requested = False, jr_promise = [], jr_result_published = False\<rparr>"

definition resolved_worker_count :: "nat \<Rightarrow> nat \<Rightarrow> nat" where
  "resolved_worker_count hardware_concurrency requested =
     (if requested \<noteq> 0 then requested
      else if hardware_concurrency = 0 then 1 else hardware_concurrency)"

text \<open>
  What the constructor asks of the platform: \<open>std::thread::hardware_concurrency()\<close>, the largest size of
  a \<open>std::vector<std::jthread>\<close> (\<open>reserve\<close> throws \<open>std::length_error\<close> above it, here with the message of
  libstdc++), the answer to the allocation of \<open>reserve\<close>, and the answer to starting the
  thread with a given index (\<open>std::system_error\<close> when it cannot be started).
\<close>

record platform =
  pf_hardware_concurrency :: nat
  pf_max_workers :: nat
  pf_allocation :: "nat \<Rightarrow> exn option"
  pf_thread :: "nat \<Rightarrow> exn option"

definition workers_reserve :: "platform \<Rightarrow> nat \<Rightarrow> exn option" where
  "workers_reserve platform n =
     (if pf_max_workers platform < n then Some (length_error ''vector::reserve'') else pf_allocation platform n)"

fun start_workers :: "platform \<Rightarrow> nat list \<Rightarrow> exn option" where
  "start_workers platform [] = None"
| "start_workers platform (index # indices) =
     (case pf_thread platform index of
        Some e \<Rightarrow> Some e
      | None \<Rightarrow> start_workers platform indices)"

text \<open>
  The members are built first, then the threads are started.  When one cannot be started, the vector is
  destroyed with the threads it has (each is asked to stop and joined) and the exception leaves the
  constructor.
\<close>

definition TaskEngine :: "platform \<Rightarrow> 'j engine_config \<Rightarrow> ('t, 'j) engine result" where
  "TaskEngine platform config =
     (case TaskQueue (ec_scheduler config) of Inl e \<Rightarrow> Inl e | Inr q \<Rightarrow>
        let worker_count = resolved_worker_count (pf_hardware_concurrency platform) (ec_worker_count config) in
        case workers_reserve platform worker_count of Some e \<Rightarrow> Inl e | None \<Rightarrow>
        (case start_workers platform [0..<worker_count] of Some e \<Rightarrow> Inl e | None \<Rightarrow>
           Inr \<lparr>en_queue = q, en_worker_count = worker_count,
                en_store = [], en_records = [], en_next_job_id = 1, en_next_sequence = 0,
                en_accepting = True, en_journal = ec_journal config\<rparr>))"

lemma start_workers_None: "start_workers platform indices = None \<longleftrightarrow> (\<forall>i \<in> set indices. pf_thread platform i = None)"
  by (induction indices) (auto split: option.splits)

lemma start_workers_Some: "start_workers platform indices = Some e \<Longrightarrow> \<exists>i \<in> set indices. pf_thread platform i = Some e"
  by (induction indices) (auto split: option.splits)

lemma TaskEngine_Inr_iff:
  "TaskEngine platform config = Inr e \<longleftrightarrow>
     (\<exists>q. TaskQueue (ec_scheduler config) = Inr q \<and>
       workers_reserve platform (en_worker_count e) = None \<and>
       (\<forall>i < en_worker_count e. pf_thread platform i = None) \<and>
       e = \<lparr>en_queue = q,
            en_worker_count = resolved_worker_count (pf_hardware_concurrency platform) (ec_worker_count config),
            en_store = [], en_records = [], en_next_job_id = 1, en_next_sequence = 0,
            en_accepting = True, en_journal = ec_journal config\<rparr>)"
proof -
  let ?n = "resolved_worker_count (pf_hardware_concurrency platform) (ec_worker_count config)"
  have "start_workers platform [0..<?n] = None \<longleftrightarrow> (\<forall>i < ?n. pf_thread platform i = None)"
    by (auto simp: start_workers_None)
  then show ?thesis
    by (cases "TaskQueue (ec_scheduler config)"; cases "workers_reserve platform ?n"; cases "start_workers platform [0..<?n]")
      (auto simp: TaskEngine_def Let_def)
qed

text \<open>A platform that refuses nothing.\<close>

definition able_platform :: platform where
  "able_platform = \<lparr>pf_hardware_concurrency = 4, pf_max_workers = 2 ^ 60, pf_allocation = (\<lambda>_. None), pf_thread = (\<lambda>_. None)\<rparr>"

lemma able_platform_reserve [simp]: "workers_reserve able_platform n = None \<longleftrightarrow> n \<le> 2 ^ 60"
  by (simp add: workers_reserve_def able_platform_def)

lemma able_platform_simps [simp]: "pf_thread able_platform i = None" "pf_hardware_concurrency able_platform = 4"
  by (simp_all add: able_platform_def)

section \<open>Publishing results\<close>

definition publish :: "time_point \<Rightarrow> job_state \<Rightarrow> string \<Rightarrow> 't job_record \<Rightarrow> 't job_record" where
  "publish now state message rec =
     (let snap = (jr_snapshot rec)\<lparr>snap_state := state, snap_message := message, snap_finished_at := now\<rparr> in
      rec\<lparr>jr_snapshot := snap, jr_result_published := True,
          jr_promise := jr_promise rec @
            [\<lparr>res_id = snap_id snap, res_state = state, res_message = snap_message snap,
              res_work_units_consumed = snap_work_units_consumed snap\<rparr>]\<rparr>)"

definition fail_without_journal_locked :: "time_point \<Rightarrow> string \<Rightarrow> 't job_record \<Rightarrow> 't job_record" where
  "fail_without_journal_locked now message rec =
     (if jr_result_published rec then rec else publish now Failed message rec)"

text \<open>A locked section on one record works on the record and the journal.\<close>

type_synonym ('t, 'j) locked = "'t job_record \<times> 'j option"

definition persist_transition_locked :: "'j journal_ops \<Rightarrow> time_point \<Rightarrow> job_state \<Rightarrow> string \<Rightarrow>
    ('t, 'j) locked \<Rightarrow> bool \<times> ('t, 'j) locked" where
  "persist_transition_locked jo now state message l =
     (case l of
        (rec, None) \<Rightarrow> (True, rec, None)
      | (rec, Some journal) \<Rightarrow>
          (case append_transition jo
                  \<lparr>tr_id = snap_id (jr_snapshot rec), tr_state = state,
                   tr_work_units_consumed = snap_work_units_consumed (jr_snapshot rec),
                   tr_message = message\<rparr> journal of
             (None, journal') \<Rightarrow> (True, rec, Some journal')
           | (Some error, journal') \<Rightarrow>
               (False, fail_without_journal_locked now (''write-ahead log failure: '' @ what error) rec,
                Some journal')))"

definition finish_locked :: "'j journal_ops \<Rightarrow> time_point \<Rightarrow> job_state \<Rightarrow> string \<Rightarrow>
    ('t, 'j) locked \<Rightarrow> ('t, 'j) locked" where
  "finish_locked jo now state message l =
     (if jr_result_published (fst l) then l
      else case persist_transition_locked jo now state message l of
        (False, l') \<Rightarrow> l'
      | (True, rec, journal) \<Rightarrow> (publish now state message rec, journal))"

text \<open>Running a locked section on the record with reference \<open>r\<close>.\<close>

definition with_record :: "nat \<Rightarrow> (('t, 'j) locked \<Rightarrow> 'r \<times> ('t, 'j) locked) \<Rightarrow> ('t, 'j) engine \<Rightarrow>
    'r \<times> ('t, 'j) engine" where
  "with_record r f e =
     (case f (en_store e ! r, en_journal e) of
        (x, rec, journal) \<Rightarrow> (x, e\<lparr>en_store := (en_store e)[r := rec], en_journal := journal\<rparr>))"

definition finish_section :: "'j journal_ops \<Rightarrow> time_point \<Rightarrow> job_state \<Rightarrow> string \<Rightarrow>
    ('t, 'j) locked \<Rightarrow> unit \<times> ('t, 'j) locked" where
  "finish_section jo now state message l = ((), finish_locked jo now state message l)"

definition finish_record :: "'j journal_ops \<Rightarrow> time_point \<Rightarrow> job_state \<Rightarrow> string \<Rightarrow> nat \<Rightarrow>
    ('t, 'j) engine \<Rightarrow> ('t, 'j) engine" where
  "finish_record jo now state message r e =
     snd (with_record r (finish_section jo now state message) e)"

section \<open>Counters and registry\<close>

definition take_job_id :: "('t, 'j) engine \<Rightarrow> job_id \<times> ('t, 'j) engine" where
  "take_job_id e = (en_next_job_id e, e\<lparr>en_next_job_id := en_next_job_id e + 1\<rparr>)"

definition take_sequence :: "('t, 'j) engine \<Rightarrow> u64 \<times> ('t, 'j) engine" where
  "take_sequence e = (en_next_sequence e, e\<lparr>en_next_sequence := en_next_sequence e + 1\<rparr>)"

text \<open>
  The compare-exchange loop of \<open>advance_counter\<close>: \<open>seen\<close> are the values of the counter that the
  failed exchanges observed (another thread moved it, or the exchange failed spuriously); the last
  attempt sees the current value.  The result is the new value of the counter.
\<close>

fun advance_counter :: "u64 list \<Rightarrow> u64 \<Rightarrow> u64 \<Rightarrow> u64" where
  "advance_counter [] counter desired = (if counter < desired then desired else counter)"
| "advance_counter (current # seen) counter desired =
     (if current < desired then advance_counter seen counter desired else counter)"

definition registry_emplace :: "job_id \<Rightarrow> 't job_record \<Rightarrow> ('t, 'j) engine \<Rightarrow> bool \<times> nat \<times> ('t, 'j) engine" where
  "registry_emplace i rec e =
     (let r = length (en_store e) in
      case hm_emplace i r (en_records e) of
        (records, inserted) \<Rightarrow> (inserted, r, e\<lparr>en_store := en_store e @ [rec], en_records := records\<rparr>))"

definition find_record :: "job_id \<Rightarrow> ('t, 'j) engine \<Rightarrow> nat option" where
  "find_record i e = hm_find (en_records e) i"

definition engine_push :: "scheduler_entry \<Rightarrow> ('t, 'j) engine \<Rightarrow> bool \<times> ('t, 'j) engine" where
  "engine_push entry e =
     map_prod (\<lambda>x. x) (\<lambda>q. e\<lparr>en_queue := q\<rparr>) (push_external entry (en_queue e))"

section \<open>submit\<close>

definition submit_check :: "'t option \<Rightarrow> submission_options \<Rightarrow> ('t, 'j) engine \<Rightarrow> 't result" where
  "submit_check task options e =
     (case task of None \<Rightarrow> Inl (invalid_argument ''cannot submit a null task'') | Some t \<Rightarrow>
        if opt_estimated_work_units options = 0
        then Inl (invalid_argument ''estimated work units must be greater than zero'')
        else if \<not> en_accepting e then Inl (logic_error ''task engine is not accepting submissions'')
        else Inr t)"

definition submit_snapshot :: "time_point \<Rightarrow> job_id \<Rightarrow> u64 \<Rightarrow> submission_options \<Rightarrow> job_snapshot" where
  "submit_snapshot now i sequence options =
     \<lparr>snap_id = i, snap_name = (if opt_name options = [] then ''task'' else opt_name options),
      snap_state = Ready, snap_priority = opt_priority options,
      snap_estimated_work_units = opt_estimated_work_units options, snap_work_units_consumed = 0,
      snap_submission_sequence = sequence, snap_submitted_at = now, snap_started_at = 0,
      snap_finished_at = 0, snap_message = []\<rparr>"

definition submit_entry :: "job_id \<Rightarrow> u64 \<Rightarrow> submission_options \<Rightarrow> scheduler_entry" where
  "submit_entry i sequence options =
     \<lparr>se_id = i, se_priority = opt_priority options,
      se_estimated_work_units = opt_estimated_work_units options, se_submission_sequence = sequence\<rparr>"

definition submit_journal :: "'j journal_ops \<Rightarrow> job_snapshot \<Rightarrow> submission_options \<Rightarrow> ('t, 'j) engine \<Rightarrow>
    exn option \<times> ('t, 'j) engine" where
  "submit_journal jo initial options e =
     (case en_journal e of None \<Rightarrow> (None, e) | Some journal \<Rightarrow>
        (case opt_durable_spec options of
           None \<Rightarrow> (Some (invalid_argument ''journaled submissions require a durable task specification''), e)
         | Some spec \<Rightarrow>
             if spec_type spec = []
             then (Some (invalid_argument ''journaled submissions require a durable task specification''), e)
             else case append_submission jo
                         \<lparr>sub_id = snap_id initial, sub_submission_sequence = snap_submission_sequence initial,
                          sub_name = snap_name initial, sub_priority = opt_priority options,
                          sub_estimated_work_units = opt_estimated_work_units options, sub_task = spec\<rparr> journal of
                    (error, journal') \<Rightarrow> (error, e\<lparr>en_journal := Some journal'\<rparr>)))"

text \<open>
  The tail shared by \<open>submit\<close> and \<open>restore\<close>: offer the entry to the queue, and finish the job when the
  queue was closed in the meantime.
\<close>

definition push_or_finish :: "'j journal_ops \<Rightarrow> time_point \<Rightarrow> scheduler_entry \<Rightarrow> nat \<Rightarrow> string \<Rightarrow>
    ('t, 'j) engine \<Rightarrow> ('t, 'j) engine" where
  "push_or_finish jo now entry r message e =
     (case engine_push entry e of
        (True, e') \<Rightarrow> e'
      | (False, e') \<Rightarrow> finish_record jo now Cancelled message r e')"

definition submit :: "'j journal_ops \<Rightarrow> time_point \<Rightarrow> 't option \<Rightarrow> submission_options \<Rightarrow> ('t, 'j) engine \<Rightarrow>
    job_handle result \<times> ('t, 'j) engine" where
  "submit jo now task options e0 =
     (case submit_check task options e0 of Inl error \<Rightarrow> (Inl error, e0) | Inr t \<Rightarrow>
        let (i, e1) = take_job_id e0; (sequence, e2) = take_sequence e1;
            initial = submit_snapshot now i sequence options;
            entry = submit_entry i sequence options in
        case submit_journal jo initial options e2 of
          (Some error, e3) \<Rightarrow> (Inl error, e3)
        | (None, e3) \<Rightarrow>
            (case registry_emplace i (JobRecord initial entry t) e3 of
               (_, r, e4) \<Rightarrow>
                 (Inr (JobHandle i r),
                  push_or_finish jo now entry r ''submission raced with engine shutdown'' e4)))"

section \<open>restore\<close>

definition restore_check :: "'t option \<Rightarrow> job_submission_record \<Rightarrow> ('t, 'j) engine \<Rightarrow> 't result" where
  "restore_check task submission e =
     (case task of None \<Rightarrow> Inl (invalid_argument ''cannot restore a null task'') | Some t \<Rightarrow>
        if sub_id submission = 0 \<or> sub_estimated_work_units submission = 0 \<or> spec_type (sub_task submission) = []
        then Inl (invalid_argument ''invalid recovered submission'')
        else if \<not> en_accepting e then Inl (logic_error ''task engine is not accepting recovered jobs'')
        else Inr t)"

definition restore_snapshot :: "time_point \<Rightarrow> job_submission_record \<Rightarrow> job_snapshot" where
  "restore_snapshot now submission =
     \<lparr>snap_id = sub_id submission, snap_name = sub_name submission, snap_state = Ready,
      snap_priority = sub_priority submission,
      snap_estimated_work_units = sub_estimated_work_units submission, snap_work_units_consumed = 0,
      snap_submission_sequence = sub_submission_sequence submission, snap_submitted_at = now,
      snap_started_at = 0, snap_finished_at = 0, snap_message = ''recovered after restart''\<rparr>"

definition restore_entry :: "job_submission_record \<Rightarrow> scheduler_entry" where
  "restore_entry submission =
     \<lparr>se_id = sub_id submission, se_priority = sub_priority submission,
      se_estimated_work_units = sub_estimated_work_units submission,
      se_submission_sequence = sub_submission_sequence submission\<rparr>"

definition restore_journal :: "'j journal_ops \<Rightarrow> job_submission_record \<Rightarrow> ('t, 'j) engine \<Rightarrow>
    exn option \<times> ('t, 'j) engine" where
  "restore_journal jo submission e =
     (case en_journal e of None \<Rightarrow> (None, e) | Some journal \<Rightarrow>
        (case append_transition jo
                \<lparr>tr_id = sub_id submission, tr_state = Ready, tr_work_units_consumed = 0,
                 tr_message = ''recovered after restart''\<rparr> journal of
           (error, journal') \<Rightarrow> (error, e\<lparr>en_journal := Some journal'\<rparr>)))"

definition advance_job_id :: "u64 list \<Rightarrow> job_submission_record \<Rightarrow> ('t, 'j) engine \<Rightarrow> ('t, 'j) engine" where
  "advance_job_id seen submission e =
     e\<lparr>en_next_job_id := advance_counter seen (en_next_job_id e) (sub_id submission + 1)\<rparr>"

definition advance_sequence :: "u64 list \<Rightarrow> job_submission_record \<Rightarrow> ('t, 'j) engine \<Rightarrow> ('t, 'j) engine" where
  "advance_sequence seen submission e =
     e\<lparr>en_next_sequence :=
         advance_counter seen (en_next_sequence e) (sub_submission_sequence submission + 1)\<rparr>"

definition restore :: "'j journal_ops \<Rightarrow> time_point \<Rightarrow> 't option \<Rightarrow> job_submission_record \<Rightarrow> ('t, 'j) engine \<Rightarrow>
    job_handle result \<times> ('t, 'j) engine" where
  "restore jo now task submission e0 =
     (case restore_check task submission e0 of Inl error \<Rightarrow> (Inl error, e0) | Inr t \<Rightarrow>
        let initial = restore_snapshot now submission; entry = restore_entry submission in
        case restore_journal jo submission e0 of
          (Some error, e1) \<Rightarrow> (Inl error, e1)
        | (None, e1) \<Rightarrow>
            (case registry_emplace (sub_id submission) (JobRecord initial entry t) e1 of
               (inserted, r, e2) \<Rightarrow>
                 if \<not> inserted then (Inl (invalid_argument ''recovered job ID already exists''), e2)
                 else (Inr (JobHandle (sub_id submission) r),
                       push_or_finish jo now entry r ''recovery raced with engine shutdown''
                         (advance_sequence [] submission (advance_job_id [] submission e2)))))"

definition reserve_recovered_identity :: "job_submission_record \<Rightarrow> ('t, 'j) engine \<Rightarrow> unit result \<times> ('t, 'j) engine" where
  "reserve_recovered_identity submission e =
     (if sub_id submission = 0 then (Inl (invalid_argument ''recovered job ID cannot be zero''), e)
      else (Inr (), advance_sequence [] submission (advance_job_id [] submission e)))"

section \<open>cancel and queries\<close>

definition cancel_section :: "'j journal_ops \<Rightarrow> time_point \<Rightarrow> ('t, 'j) locked \<Rightarrow> bool \<times> ('t, 'j) locked" where
  "cancel_section jo now l =
     (case l of (rec, journal) \<Rightarrow>
        if is_terminal (snap_state (jr_snapshot rec)) then (False, rec, journal)
        else let rec' = rec\<lparr>jr_stop_requested := True\<rparr> in
          if snap_state (jr_snapshot rec) = Ready \<or> snap_state (jr_snapshot rec) = New
          then (True, finish_locked jo now Cancelled ''cancelled before execution'' (rec', journal))
          else (True, rec', journal))"

definition cancel_record :: "'j journal_ops \<Rightarrow> time_point \<Rightarrow> nat \<Rightarrow> ('t, 'j) engine \<Rightarrow> bool \<times> ('t, 'j) engine" where
  "cancel_record jo now r e = with_record r (cancel_section jo now) e"

definition cancel :: "'j journal_ops \<Rightarrow> time_point \<Rightarrow> job_id \<Rightarrow> ('t, 'j) engine \<Rightarrow> bool \<times> ('t, 'j) engine" where
  "cancel jo now i e =
     (case find_record i e of None \<Rightarrow> (False, e) | Some r \<Rightarrow> cancel_record jo now r e)"

definition get_job :: "job_id \<Rightarrow> ('t, 'j) engine \<Rightarrow> job_snapshot option" where
  "get_job i e = map_option (\<lambda>r. jr_snapshot (en_store e ! r)) (find_record i e)"

definition engine_snapshot :: "('t, 'j) engine \<Rightarrow> job_snapshot list" where
  "engine_snapshot e =
     sort_key snap_submission_sequence (map (\<lambda>(i, r). jr_snapshot (en_store e ! r)) (en_records e))"

definition engine_set_scheduler :: "scheduler_config \<Rightarrow> ('t, 'j) engine \<Rightarrow> unit result \<times> ('t, 'j) engine" where
  "engine_set_scheduler config e =
     (if \<not> en_accepting e then (Inl (logic_error ''cannot change scheduler after shutdown''), e)
      else case queue_set_scheduler config (en_queue e) of
             Inl error \<Rightarrow> (Inl error, e)
           | Inr q \<Rightarrow> (Inr (), e\<lparr>en_queue := q\<rparr>))"

section \<open>shutdown\<close>

definition shutdown_close :: "shutdown_mode \<Rightarrow> ('t, 'j) engine \<Rightarrow> scheduler_entry list \<times> ('t, 'j) engine" where
  "shutdown_close mode e =
     map_prod (\<lambda>x. x) (\<lambda>q. e\<lparr>en_queue := q\<rparr>)
       (close_and_drain_pending (mode = CancelPending) (en_queue e))"

definition shutdown_stop_accepting :: "('t, 'j) engine \<Rightarrow> ('t, 'j) engine" where
  "shutdown_stop_accepting e = e\<lparr>en_accepting := False\<rparr>"

definition pending_section :: "'j journal_ops \<Rightarrow> time_point \<Rightarrow> ('t, 'j) locked \<Rightarrow> unit \<times> ('t, 'j) locked" where
  "pending_section jo now l =
     (case l of (rec, journal) \<Rightarrow>
        if is_terminal (snap_state (jr_snapshot rec)) then ((), rec, journal)
        else ((), finish_locked jo now Cancelled ''cancelled during engine shutdown''
                    (rec\<lparr>jr_stop_requested := True\<rparr>, journal)))"

definition cancel_pending_entry :: "'j journal_ops \<Rightarrow> time_point \<Rightarrow> scheduler_entry \<Rightarrow> ('t, 'j) engine \<Rightarrow> ('t, 'j) engine" where
  "cancel_pending_entry jo now entry e =
     (case find_record (se_id entry) e of
        None \<Rightarrow> e
      | Some r \<Rightarrow> snd (with_record r (pending_section jo now) e))"

definition cancel_pending :: "'j journal_ops \<Rightarrow> time_point \<Rightarrow> scheduler_entry list \<Rightarrow> ('t, 'j) engine \<Rightarrow> ('t, 'j) engine" where
  "cancel_pending jo now pending e = fold (cancel_pending_entry jo now) pending e"

section \<open>worker_loop\<close>

text \<open>What the call of \<open>run_slice\<close> inside the \<open>try\<close> block may do.\<close>

datatype slice_outcome = Returned slice_result | Threw exn | ThrewUnknown

fun slice_of_outcome :: "slice_outcome \<Rightarrow> slice_result" where
  "slice_of_outcome (Returned r) = r"
| "slice_of_outcome (Threw error) = slice_failed (what error) 0"
| "slice_of_outcome ThrewUnknown = slice_failed ''task threw an unknown exception'' 0"

definition start_section :: "'j journal_ops \<Rightarrow> time_point \<Rightarrow> ('t, 'j) locked \<Rightarrow> bool \<times> ('t, 'j) locked" where
  "start_section jo now l =
     (if snap_state (jr_snapshot (fst l)) \<noteq> Ready then (False, l)
      else case persist_transition_locked jo now Running [] l of
        (False, l') \<Rightarrow> (False, l')
      | (True, rec, journal) \<Rightarrow>
          (True,
           rec\<lparr>jr_snapshot := (jr_snapshot rec)\<lparr>snap_state := Running,
             snap_started_at := (if snap_started_at (jr_snapshot rec) = 0 then now
                                 else snap_started_at (jr_snapshot rec))\<rparr>\<rparr>,
           journal))"

definition worker_start :: "'j journal_ops \<Rightarrow> time_point \<Rightarrow> nat \<Rightarrow> ('t, 'j) engine \<Rightarrow> bool \<times> ('t, 'j) engine" where
  "worker_start jo now r e = with_record r (start_section jo now) e"

definition add_work :: "work_units \<Rightarrow> 't job_record \<Rightarrow> 't job_record" where
  "add_work w rec =
     rec\<lparr>jr_snapshot := (jr_snapshot rec)\<lparr>snap_work_units_consumed :=
       snap_work_units_consumed (jr_snapshot rec) + w\<rparr>\<rparr>"

definition record_section :: "'j journal_ops \<Rightarrow> time_point \<Rightarrow> slice_result \<Rightarrow> ('t, 'j) locked \<Rightarrow>
    bool \<times> ('t, 'j) locked" where
  "record_section jo now result l =
     (let rec = add_work (sr_work_units_consumed result) (fst l); journal = snd l;
          message = sr_message result in
      case sr_status result of
        SliceYielded \<Rightarrow>
          if jr_stop_requested rec
          then (False, finish_locked jo now Cancelled
                         (if message = [] then ''cancellation requested'' else message) (rec, journal))
          else (case persist_transition_locked jo now Ready message (rec, journal) of
                  (False, l') \<Rightarrow> (False, l')
                | (True, rec', journal') \<Rightarrow>
                    (True, rec'\<lparr>jr_snapshot := (jr_snapshot rec')\<lparr>snap_state := Ready, snap_message := message\<rparr>\<rparr>,
                     journal'))
      | SliceCompleted \<Rightarrow> (False, finish_locked jo now Completed message (rec, journal))
      | SliceFailed \<Rightarrow> (False, finish_locked jo now Failed message (rec, journal))
      | SliceCancelled \<Rightarrow> (False, finish_locked jo now Cancelled message (rec, journal)))"

definition worker_record :: "'j journal_ops \<Rightarrow> time_point \<Rightarrow> slice_result \<Rightarrow> nat \<Rightarrow> ('t, 'j) engine \<Rightarrow>
    bool \<times> ('t, 'j) engine" where
  "worker_record jo now result r e = with_record r (record_section jo now result) e"

definition set_task :: "nat \<Rightarrow> 't \<Rightarrow> ('t, 'j) engine \<Rightarrow> ('t, 'j) engine" where
  "set_task r t e = e\<lparr>en_store := (en_store e)[r := (en_store e ! r)\<lparr>jr_task := t\<rparr>]\<rparr>"

definition worker_requeue :: "nat \<Rightarrow> ('t, 'j) engine \<Rightarrow> ('t, 'j) engine" where
  "worker_requeue r e = e\<lparr>en_queue := requeue (jr_entry (en_store e ! r)) (en_queue e)\<rparr>"

section \<open>Records and their results\<close>

definition result_of :: "'t job_record \<Rightarrow> job_result" where
  "result_of rec =
     \<lparr>res_id = snap_id (jr_snapshot rec), res_state = snap_state (jr_snapshot rec),
      res_message = snap_message (jr_snapshot rec),
      res_work_units_consumed = snap_work_units_consumed (jr_snapshot rec)\<rparr>"

text \<open>
  A record starts as \<open>Ready\<close>, and its promise is set once, when the job reaches a terminal state, to
  what the snapshot says.
\<close>

definition published_ok :: "'t job_record \<Rightarrow> bool" where
  "published_ok rec \<longleftrightarrow> snap_state (jr_snapshot rec) \<noteq> New \<and>
     jr_result_published rec = is_terminal (snap_state (jr_snapshot rec)) \<and>
     jr_promise rec = (if jr_result_published rec then [result_of rec] else [])"

fun legal_transition :: "job_state \<Rightarrow> job_state \<Rightarrow> bool" where
  "legal_transition Ready s \<longleftrightarrow> s = Running \<or> s = Cancelled \<or> s = Failed"
| "legal_transition Running s \<longleftrightarrow> s = Ready \<or> s = Completed \<or> s = Failed \<or> s = Cancelled"
| "legal_transition New s \<longleftrightarrow> s = Cancelled \<or> s = Failed"
| "legal_transition _ s \<longleftrightarrow> False"

abbreviation rec_state :: "'t job_record \<Rightarrow> job_state" where
  "rec_state rec \<equiv> snap_state (jr_snapshot rec)"

lemma publish_simps [simp]:
  "rec_state (publish now state message rec) = state"
  "snap_id (jr_snapshot (publish now state message rec)) = snap_id (jr_snapshot rec)"
  "jr_entry (publish now state message rec) = jr_entry rec"
  "jr_result_published (publish now state message rec)"
  by (simp_all add: publish_def Let_def)

lemma publish_ok:
  "published_ok rec \<Longrightarrow> \<not> jr_result_published rec \<Longrightarrow> is_terminal state \<Longrightarrow>
     published_ok (publish now state message rec)"
  by (auto simp: published_ok_def publish_def result_of_def Let_def)

text \<open>A journal write either succeeds and leaves the record alone, or fails the job.\<close>

lemma persist_cases:
  assumes "persist_transition_locked jo now state message (rec, j) = (ok, rec', j')"
  shows "(j' = None \<longleftrightarrow> j = None) \<and>
    (ok \<and> rec' = rec \<or>
     \<not> ok \<and> (\<exists>text. rec' = fail_without_journal_locked now (''write-ahead log failure: '' @ text) rec))"
  using assms by (auto simp: persist_transition_locked_def split: option.splits prod.splits)

lemma finish_cases:
  assumes "finish_locked jo now state message (rec, j) = (rec', j')"
  shows "(j' = None \<longleftrightarrow> j = None) \<and>
    (jr_result_published rec \<and> rec' = rec \<or>
     \<not> jr_result_published rec \<and> (\<exists>st text. rec' = publish now st text rec \<and> (st = state \<or> st = Failed)))"
proof (cases "jr_result_published rec")
  case False
  obtain ok rec1 j1 where p: "persist_transition_locked jo now state message (rec, j) = (ok, rec1, j1)"
    by (metis prod_cases3)
  show ?thesis
    using assms False persist_cases [OF p]
    by (auto simp: finish_locked_def p fail_without_journal_locked_def split: bool.splits)
qed (use assms in \<open>simp add: finish_locked_def\<close>)

section \<open>The contract of a locked section\<close>

text \<open>
  Every critical section on one record keeps the identity of the record, keeps its result
  well-formed, never touches a published record, and moves the state along the life cycle.
\<close>

definition section_ok :: "'t job_record \<Rightarrow> 't job_record \<Rightarrow> bool" where
  "section_ok rec rec' \<longleftrightarrow>
     snap_id (jr_snapshot rec') = snap_id (jr_snapshot rec) \<and> jr_entry rec' = jr_entry rec \<and>
     published_ok rec' \<and>
     (jr_result_published rec \<longrightarrow>
        jr_result_published rec' \<and> jr_promise rec' = jr_promise rec \<and> jr_snapshot rec' = jr_snapshot rec) \<and>
     (rec_state rec' = rec_state rec \<or> legal_transition (rec_state rec) (rec_state rec'))"

lemma section_ok_refl: "published_ok rec \<Longrightarrow> section_ok rec rec"
  by (simp add: section_ok_def)

lemma section_ok_publish:
  "published_ok rec \<Longrightarrow> \<not> jr_result_published rec \<Longrightarrow> is_terminal st \<Longrightarrow>
     legal_transition (rec_state rec) st \<Longrightarrow> section_ok rec (publish now st text rec)"
  by (simp add: section_ok_def publish_ok)

locale locked_section =
  fixes sec :: "('t, 'j) locked \<Rightarrow> 'r \<times> ('t, 'j) locked" and enabled :: "job_state \<Rightarrow> bool"
  assumes sec_ok: "published_ok rec \<Longrightarrow> enabled (rec_state rec) \<Longrightarrow> sec (rec, j) = (x, rec', j') \<Longrightarrow>
      section_ok rec rec' \<and> (j' = None \<longleftrightarrow> j = None)"
begin

lemma published_frozen:
  "published_ok rec \<Longrightarrow> enabled (rec_state rec) \<Longrightarrow> jr_result_published rec \<Longrightarrow>
     sec (rec, j) = (x, rec', j') \<Longrightarrow> jr_promise rec' = jr_promise rec \<and> jr_snapshot rec' = jr_snapshot rec"
  using sec_ok [of rec j x rec' j'] by (simp add: section_ok_def)

end

lemma not_published: "published_ok rec \<Longrightarrow> rec_state rec = Ready \<or> rec_state rec = Running \<Longrightarrow> \<not> jr_result_published rec"
  by (auto simp: published_ok_def)

lemma published_ok_update [simp]:
  "published_ok (rec\<lparr>jr_stop_requested := b\<rparr>) = published_ok rec"
  "published_ok (rec\<lparr>jr_task := t\<rparr>) = published_ok rec"
  by (simp_all add: published_ok_def result_of_def)

lemma published_terminal: "published_ok rec \<Longrightarrow> jr_result_published rec = is_terminal (rec_state rec)"
  by (simp add: published_ok_def)

lemma finish_section_ok:
  assumes "published_ok rec" "is_terminal state" "state = Completed \<longrightarrow> rec_state rec \<noteq> Ready \<and> rec_state rec \<noteq> New"
    "finish_locked jo now state message (rec, j) = (rec', j')"
  shows "section_ok rec rec' \<and> (j' = None \<longleftrightarrow> j = None) \<and> is_terminal (rec_state rec')"
proof (cases "jr_result_published rec")
  case True
  then show ?thesis using finish_cases [OF assms(4)] assms(1) by (auto simp: section_ok_refl published_terminal)
next
  case False
  then obtain st tx where "rec' = publish now st tx rec" "st = state \<or> st = Failed" "j' = None \<longleftrightarrow> j = None"
    using finish_cases [OF assms(4)] by blast
  moreover have "legal_transition (rec_state rec) st" "is_terminal st"
    using False assms(1-3) calculation(2)
    by (cases "rec_state rec"; auto simp: published_ok_def is_terminal_def)+
  ultimately show ?thesis using section_ok_publish [OF assms(1) False] by simp
qed

interpretation finish: locked_section "finish_section jo now Cancelled message" "\<lambda>_. True"
  by unfold_locales (auto simp: finish_section_def dest: finish_section_ok [where state = Cancelled, simplified])

lemma section_ok_stop: "section_ok (rec\<lparr>jr_stop_requested := b\<rparr>) rec' \<longleftrightarrow> section_ok rec rec'"
  by (simp add: section_ok_def)

interpretation cancel: locked_section "cancel_section jo now" "\<lambda>_. True"
proof
  fix rec j x rec' j'
  assume rec: "published_ok rec" and run: "cancel_section jo now (rec, j) = (x, rec', j')"
  show "section_ok rec rec' \<and> (j' = None \<longleftrightarrow> j = None)"
  proof (cases "rec_state rec = Ready \<or> rec_state rec = New")
    case True
    then have "finish_locked jo now Cancelled ''cancelled before execution'' (rec\<lparr>jr_stop_requested := True\<rparr>, j) = (rec', j')"
      using run by (auto simp: cancel_section_def Let_def)
    from finish_section_ok [OF _ _ _ this] show ?thesis using rec by (simp add: section_ok_stop)
  next
    case False
    then show ?thesis using rec run
      by (auto simp: cancel_section_def Let_def section_ok_refl section_ok_stop split: if_splits)
        (simp_all add: section_ok_def)
  qed
qed

interpretation pending: locked_section "pending_section jo now" "\<lambda>_. True"
proof
  fix rec j x rec' j'
  assume rec: "published_ok rec" and run: "pending_section jo now (rec, j) = (x, rec', j')"
  show "section_ok rec rec' \<and> (j' = None \<longleftrightarrow> j = None)"
  proof (cases "is_terminal (rec_state rec)")
    case True
    then show ?thesis using rec run by (simp add: pending_section_def section_ok_refl)
  next
    case False
    then have "finish_locked jo now Cancelled ''cancelled during engine shutdown'' (rec\<lparr>jr_stop_requested := True\<rparr>, j) = (rec', j')"
      using run by (simp add: pending_section_def)
    from finish_section_ok [OF _ _ _ this] show ?thesis using rec by (simp add: section_ok_stop)
  qed
qed

lemma persist_ok:
  assumes "published_ok rec" "rec_state rec = Ready \<or> rec_state rec = Running"
    "persist_transition_locked jo now state message (rec, j) = (ok, rec', j')"
  shows "(j' = None \<longleftrightarrow> j = None) \<and> (if ok then rec' = rec else section_ok rec rec' \<and> rec_state rec' = Failed)"
proof -
  have "\<not> jr_result_published rec" using assms(1,2) by (rule not_published)
  moreover from this have "section_ok rec (publish now Failed tx rec)" for tx
    using assms(1,2) by (intro section_ok_publish) auto
  ultimately show ?thesis using persist_cases [OF assms(3)] by (auto simp: fail_without_journal_locked_def)
qed

interpretation start: locked_section "start_section jo now" "\<lambda>_. True"
proof
  fix rec j x rec' j'
  assume rec: "published_ok rec" and run: "start_section jo now (rec, j) = (x, rec', j')"
  show "section_ok rec rec' \<and> (j' = None \<longleftrightarrow> j = None)"
  proof (cases "rec_state rec = Ready")
    case True
    obtain ok r1 j1 where p: "persist_transition_locked jo now Running [] (rec, j) = (ok, r1, j1)"
      by (metis prod_cases3)
    show ?thesis
    proof (cases ok)
      case True
      then show ?thesis using run \<open>rec_state rec = Ready\<close> rec persist_ok [OF rec _ p]
        by (auto simp: start_section_def p section_ok_def published_ok_def result_of_def)
    next
      case False
      then show ?thesis using run \<open>rec_state rec = Ready\<close> persist_ok [OF rec _ p]
        by (auto simp: start_section_def p)
    qed
  next
    case False
    then show ?thesis using rec run by (simp add: start_section_def section_ok_refl)
  qed
qed

lemma add_work_simps [simp]:
  "rec_state (add_work w rec) = rec_state rec" "snap_id (jr_snapshot (add_work w rec)) = snap_id (jr_snapshot rec)"
  "jr_entry (add_work w rec) = jr_entry rec" "jr_stop_requested (add_work w rec) = jr_stop_requested rec"
  "jr_result_published (add_work w rec) = jr_result_published rec"
  by (simp_all add: add_work_def)

lemma add_work_section:
  "published_ok rec \<Longrightarrow> rec_state rec = Running \<Longrightarrow> published_ok (add_work w rec) \<and>
     (section_ok (add_work w rec) rec' \<longrightarrow> section_ok rec rec')"
  by (auto simp: section_ok_def published_ok_def add_work_def)

lemma record_section_cases:
  assumes "published_ok rec" "rec_state rec = Running"
    "record_section jo now result (rec, j) = (x, rec', j')"
  shows "section_ok rec rec' \<and> (j' = None \<longleftrightarrow> j = None) \<and>
    (if x then rec_state rec' = Ready else is_terminal (rec_state rec'))"
proof -
  let ?rec = "add_work (sr_work_units_consumed result) rec"
  have w: "published_ok ?rec" "rec_state ?rec = Running" "\<And>r. section_ok ?rec r \<Longrightarrow> section_ok rec r"
    using add_work_section [OF assms(1,2)] assms(2) by auto
  have fin: ?thesis
    if "x = False" "finish_locked jo now st msg (?rec, j) = (rec', j')" "is_terminal st" for st msg
    using finish_section_ok [OF w(1) that(3) _ that(2)] w that(1) by auto
  show ?thesis
  proof (cases "sr_status result = SliceYielded \<and> \<not> jr_stop_requested ?rec")
    case True
    obtain ok r1 j1 where p: "persist_transition_locked jo now Ready (sr_message result) (?rec, j) = (ok, r1, j1)"
      by (metis prod_cases3)
    note pk = persist_ok [OF w(1) _ p]
    show ?thesis
    proof (cases ok)
      case ok: True
      then have "x" "rec' = ?rec\<lparr>jr_snapshot := (jr_snapshot ?rec)\<lparr>snap_state := Ready, snap_message := sr_message result\<rparr>\<rparr>"
          "j' = None \<longleftrightarrow> j = None"
        using assms(3) True pk w by (auto simp: record_section_def p)
      then show ?thesis
        using w(1,2) not_published [OF assms(1)] assms by (auto simp: section_ok_def published_ok_def result_of_def)
    next
      case False
      then have "\<not> x" "rec' = r1" "j' = j1" using assms(3) True by (auto simp: record_section_def p)
      then show ?thesis using pk False w by auto
    qed
  next
    case False
    then show ?thesis
      using assms(3) fin by (auto simp: record_section_def Let_def split: slice_status.splits if_splits)
  qed
qed

interpretation record_: locked_section "record_section jo now result" "\<lambda>s. s = Running"
  by unfold_locales (use record_section_cases in blast)

section \<open>The registry as a map from IDs to records\<close>

definition rec_of :: "('t, 'j) engine \<Rightarrow> job_id \<Rightarrow> 't job_record option" where
  "rec_of e i = map_option (\<lambda>r. en_store e ! r) (find_record i e)"

definition registry_ok :: "('t, 'j) engine \<Rightarrow> bool" where
  "registry_ok e \<longleftrightarrow> hm_wf (en_records e) \<and>
     (\<forall>i r. find_record i e = Some r \<longrightarrow> r < length (en_store e) \<and>
        snap_id (jr_snapshot (en_store e ! r)) = i \<and> se_id (jr_entry (en_store e ! r)) = i)"

lemma registry_okI:
  assumes "hm_wf (en_records e)"
    "\<And>k q. find_record k e = Some q \<Longrightarrow> q < length (en_store e) \<and>
       snap_id (jr_snapshot (en_store e ! q)) = k \<and> se_id (jr_entry (en_store e ! q)) = k"
  shows "registry_ok e"
  using assms by (simp add: registry_ok_def)

lemma registry_okD:
  assumes "registry_ok e" "find_record k e = Some q"
  shows "q < length (en_store e)" "snap_id (jr_snapshot (en_store e ! q)) = k"
    "se_id (jr_entry (en_store e ! q)) = k"
  using assms by (simp_all add: registry_ok_def)

lemma registry_ok_distinct_refs:
  "registry_ok e \<Longrightarrow> find_record i e = Some r \<Longrightarrow> find_record k e = Some r \<Longrightarrow> i = k"
  by (metis registry_ok_def)

text \<open>What a locked section on a registered record does to the engine.\<close>

lemma with_record_view:
  assumes "registry_ok e" "find_record i e = Some r" "f (en_store e ! r, en_journal e) = (x, rec', j')"
    "section_ok (en_store e ! r) rec'"
  shows "\<exists>e'. with_record r f e = (x, e') \<and> registry_ok e' \<and> rec_of e' = (rec_of e)(i \<mapsto> rec') \<and>
    (\<forall>k. find_record k e' = find_record k e) \<and> en_queue e' = en_queue e \<and>
    en_next_job_id e' = en_next_job_id e \<and> en_accepting e' = en_accepting e \<and> en_journal e' = j'"
proof -
  define e' where "e' = e\<lparr>en_store := (en_store e)[r := rec'], en_journal := j'\<rparr>"
  have find: "find_record k e' = find_record k e" for k by (simp add: e'_def find_record_def)
  have store: "en_store e' = (en_store e)[r := rec']" by (simp add: e'_def)
  have r: "r < length (en_store e)" using assms(1,2) by (simp add: registry_ok_def)
  have other: "find_record k e = Some r \<Longrightarrow> k = i" for k
    using registry_ok_distinct_refs [OF assms(1)] assms(2) by blast
  have "registry_ok e'"
  proof (rule registry_okI)
    show "hm_wf (en_records e')" using assms(1) by (simp add: registry_ok_def e'_def)
    fix k q assume "find_record k e' = Some q"
    then have k: "find_record k e = Some q" by (simp add: find)
    show "q < length (en_store e') \<and> snap_id (jr_snapshot (en_store e' ! q)) = k \<and> se_id (jr_entry (en_store e' ! q)) = k"
      using registry_okD [OF assms(1) k] registry_okD [OF assms(1,2)] other [of k] k assms(4)
      by (cases "q = r") (simp_all add: e'_def section_ok_def)
  qed
  moreover have "rec_of e' = (rec_of e)(i \<mapsto> rec')"
  proof
    show "rec_of e' k = ((rec_of e)(i \<mapsto> rec')) k" for k
      using assms(2) r other [of k] by (cases "find_record k e") (auto simp: rec_of_def find store intro!: nth_list_update_neq)
  qed
  moreover have "with_record r f e = (x, e')" by (simp add: with_record_def assms(3) e'_def)
  ultimately show ?thesis using find by (auto simp: e'_def)
qed

lemma rec_of_find: "find_record i e = Some r \<Longrightarrow> rec_of e i = Some (en_store e ! r)"
  by (simp add: rec_of_def)

lemma rec_of_None: "rec_of e i = None \<longleftrightarrow> find_record i e = None"
  by (simp add: rec_of_def)

lemma registry_emplace_new:
  assumes "registry_ok e" "find_record i e = None" "snap_id (jr_snapshot rec) = i" "se_id (jr_entry rec) = i"
    "registry_emplace i rec e = (inserted, r, e')"
  shows "inserted \<and> registry_ok e' \<and> rec_of e' = (rec_of e)(i \<mapsto> rec) \<and> find_record i e' = Some r \<and>
    (\<forall>k. k \<noteq> i \<longrightarrow> find_record k e' = find_record k e) \<and> en_queue e' = en_queue e \<and>
    en_next_job_id e' = en_next_job_id e"
proof -
  have e': "e' = e\<lparr>en_store := en_store e @ [rec], en_records := fst (hm_emplace i r (en_records e))\<rparr>"
    "inserted = snd (hm_emplace i r (en_records e))" "r = length (en_store e)"
    using assms(5) by (auto simp: registry_emplace_def Let_def split: prod.splits)
  have find: "find_record k e' = (if k = i then Some r else find_record k e)" for k
    using assms(2) by (simp add: find_record_def e' registry_simps)
  have store: "en_store e' = en_store e @ [rec]" by (simp add: e')
  have len: "find_record k e = Some q \<Longrightarrow> q < length (en_store e)" for k q
    using assms(1) by (simp add: registry_ok_def)
  have "registry_ok e'"
  proof (rule registry_okI)
    show "hm_wf (en_records e')"
      using assms(1) hm_wf_emplace [of "en_records e" i r] by (simp add: registry_ok_def e')
    fix k q assume k: "find_record k e' = Some q"
    show "q < length (en_store e') \<and> snap_id (jr_snapshot (en_store e' ! q)) = k \<and> se_id (jr_entry (en_store e' ! q)) = k"
    proof (cases "k = i")
      case True
      then show ?thesis using k assms(3,4) e'(3) by (simp add: find store nth_append)
    next
      case False
      then have "find_record k e = Some q" using k by (simp add: find)
      then show ?thesis using registry_okD [OF assms(1), of k q] by (simp add: store nth_append)
    qed
  qed
  moreover have "rec_of e' = (rec_of e)(i \<mapsto> rec)"
  proof
    show "rec_of e' k = ((rec_of e)(i \<mapsto> rec)) k" for k
      using len [of k] by (cases "find_record k e") (auto simp: rec_of_def find store nth_append e'(3))
  qed
  ultimately show ?thesis
    using assms(2) find by (auto simp: e' registry_simps find_record_def)
qed

lemma registry_emplace_old:
  assumes "registry_ok e" "find_record i e \<noteq> None" "registry_emplace i rec e = (inserted, r, e')"
  shows "\<not> inserted \<and> registry_ok e' \<and> rec_of e' = rec_of e \<and> (\<forall>k. find_record k e' = find_record k e) \<and>
    en_queue e' = en_queue e \<and> en_next_job_id e' = en_next_job_id e"
proof -
  have e': "e' = e\<lparr>en_store := en_store e @ [rec], en_records := fst (hm_emplace i r (en_records e))\<rparr>"
    "inserted = snd (hm_emplace i r (en_records e))"
    using assms(3) by (auto simp: registry_emplace_def Let_def split: prod.splits)
  then have same: "find_record k e' = find_record k e" "en_records e' = en_records e" for k
    using assms(2) by (auto simp: find_record_def registry_simps hm_emplace_def)
  have len: "find_record k e = Some q \<Longrightarrow> q < length (en_store e)" for k q
    using assms(1) by (simp add: registry_ok_def)
  have store: "en_store e' = en_store e @ [rec]" by (simp add: e')
  have "registry_ok e'"
  proof (rule registry_okI)
    show "hm_wf (en_records e')" using assms(1) by (simp add: registry_ok_def same)
    fix k q assume "find_record k e' = Some q"
    then have "find_record k e = Some q" by (simp add: same)
    then show "q < length (en_store e') \<and> snap_id (jr_snapshot (en_store e' ! q)) = k \<and> se_id (jr_entry (en_store e' ! q)) = k"
      using registry_okD [OF assms(1), of k q] by (simp add: store nth_append)
  qed
  moreover have "rec_of e' = rec_of e"
  proof
    show "rec_of e' k = rec_of e k" for k
      using len [of k] by (cases "find_record k e") (auto simp: rec_of_def same store nth_append)
  qed
  ultimately show ?thesis using assms(2) same by (auto simp: e' registry_simps find_record_def)
qed

end
