(* ===== verification/Kronos_Steps.thy ===== *)
theory Kronos_Steps
  imports Kronos_Engine
begin

text \<open>
  The engine as a concurrent system.  Worker threads run \<open>worker_loop\<close>; client threads run \<open>submit\<close>,
  \<open>restore\<close>, \<open>reserve_recovered_identity\<close>, \<open>cancel\<close>, \<open>set_scheduler\<close> and \<open>shutdown\<close>.  Every step of the system is one
  critical section or one atomic access of one thread, so all interleavings of the locks and
  atomics of the code are covered.  A slice runs outside every lock and may return anything, throw
  anything and change its task arbitrarily.

  Two conditions on the environment are part of the step relation: \<open>restore\<close> does not overlap
  with \<open>submit\<close> or another \<open>restore\<close> (the daemon restores in its constructor, before it serves
  requests), and the counter of job IDs does not wrap around.  Shutdown is not called from inside a
  task.

  The lemmas prove an invariant by induction on reachable states; the properties at the end read
  off it: results are published exactly once, no two workers run the same job, no job is lost.
\<close>

section \<open>Threads\<close>

datatype worker =
    W_Pop
  | W_Find dispatch
  | W_Start dispatch nat
  | W_Run dispatch nat
  | W_Record dispatch nat slice_result
  | W_Requeue dispatch nat
  | W_Exit

datatype 't client =
    C_SubmitId 't submission_options
  | C_SubmitSeq 't submission_options job_id
  | C_SubmitJournal 't submission_options job_id u64
  | C_SubmitEmplace 't job_snapshot scheduler_entry
  | C_RestoreJournal 't job_submission_record
  | C_RestoreEmplace 't job_submission_record
  | C_RestoreId nat job_submission_record
  | C_RestoreSeq nat job_submission_record
  | C_Push nat scheduler_entry string
  | C_Finish nat scheduler_entry string
  | C_ReserveId job_submission_record
  | C_ReserveSeq job_submission_record
  | C_Cancel nat
  | C_SetScheduler scheduler_config
  | C_Shutdown shutdown_mode
  | C_Close shutdown_mode
  | C_CancelPending "scheduler_entry list"
  | C_Join

record ('t, 'j) system =
  sys_engine :: "('t, 'j) engine"
  sys_workers :: "worker list"
  sys_clients :: "'t client list"

inductive worker_step :: "'j journal_ops \<Rightarrow> ('t, 'j) engine \<times> worker \<Rightarrow> ('t, 'j) engine \<times> worker \<Rightarrow> bool"
  for jo where
  pop_none: "pop_ready False (en_queue e) \<Longrightarrow> queue_pop (en_queue e) = (None, q) \<Longrightarrow>
    worker_step jo (e, W_Pop) (e\<lparr>en_queue := q\<rparr>, W_Exit)"
| pop_some: "pop_ready False (en_queue e) \<Longrightarrow> queue_pop (en_queue e) = (Some d, q) \<Longrightarrow>
    worker_step jo (e, W_Pop) (e\<lparr>en_queue := q\<rparr>, W_Find d)"
| find_none: "find_record (se_id (dis_entry d)) e = None \<Longrightarrow>
    worker_step jo (e, W_Find d) (e, W_Pop)"
| find_some: "find_record (se_id (dis_entry d)) e = Some r \<Longrightarrow>
    worker_step jo (e, W_Find d) (e, W_Start d r)"
| start_ok: "worker_start jo now r e = (True, e') \<Longrightarrow>
    worker_step jo (e, W_Start d r) (e', W_Run d r)"
| start_skip: "worker_start jo now r e = (False, e') \<Longrightarrow>
    worker_step jo (e, W_Start d r) (e', W_Pop)"
| run: "worker_step jo (e, W_Run d r) (set_task r t e, W_Record d r (slice_of_outcome outcome))"
| record_yield: "worker_record jo now result r e = (True, e') \<Longrightarrow>
    worker_step jo (e, W_Record d r result) (e', W_Requeue d r)"
| record_done: "worker_record jo now result r e = (False, e') \<Longrightarrow>
    worker_step jo (e, W_Record d r result) (e', W_Pop)"
| requeue: "worker_step jo (e, W_Requeue d r) (worker_requeue r e, W_Pop)"

text \<open>A client step yields the continuation of the call, if it has not returned.\<close>

inductive client_step :: "'j journal_ops \<Rightarrow> ('t, 'j) engine \<times> 't client \<Rightarrow>
    ('t, 'j) engine \<times> 't client option \<Rightarrow> bool"
  for jo where
  submit_id: "en_next_job_id e \<noteq> 0xFFFFFFFFFFFFFFFF \<Longrightarrow> take_job_id e = (i, e') \<Longrightarrow>
    client_step jo (e, C_SubmitId t options) (e', Some (C_SubmitSeq t options i))"
| submit_seq: "take_sequence e = (sequence, e') \<Longrightarrow>
    client_step jo (e, C_SubmitSeq t options i) (e', Some (C_SubmitJournal t options i sequence))"
| submit_journal_ok: "initial = submit_snapshot now i sequence options \<Longrightarrow>
    submit_journal jo initial options e = (None, e') \<Longrightarrow>
    client_step jo (e, C_SubmitJournal t options i sequence)
      (e', Some (C_SubmitEmplace t initial (submit_entry i sequence options)))"
| submit_journal_throw: "submit_journal jo (submit_snapshot now i sequence options) options e = (Some error, e') \<Longrightarrow>
    client_step jo (e, C_SubmitJournal t options i sequence) (e', None)"
| submit_emplace: "registry_emplace (snap_id initial) (JobRecord initial entry t) e = (inserted, r, e') \<Longrightarrow>
    client_step jo (e, C_SubmitEmplace t initial entry)
      (e', Some (C_Push r entry ''submission raced with engine shutdown''))"
| restore_journal_ok: "restore_journal jo submission e = (None, e') \<Longrightarrow>
    client_step jo (e, C_RestoreJournal t submission) (e', Some (C_RestoreEmplace t submission))"
| restore_journal_throw: "restore_journal jo submission e = (Some error, e') \<Longrightarrow>
    client_step jo (e, C_RestoreJournal t submission) (e', None)"
| restore_emplace_ok: "registry_emplace (sub_id submission)
      (JobRecord (restore_snapshot now submission) (restore_entry submission) t) e = (True, r, e') \<Longrightarrow>
    client_step jo (e, C_RestoreEmplace t submission) (e', Some (C_RestoreId r submission))"
| restore_emplace_throw: "registry_emplace (sub_id submission)
      (JobRecord (restore_snapshot now submission) (restore_entry submission) t) e = (False, r, e') \<Longrightarrow>
    client_step jo (e, C_RestoreEmplace t submission) (e', None)"
| restore_id: "client_step jo (e, C_RestoreId r submission)
    (advance_job_id [] submission e, Some (C_RestoreSeq r submission))"
| restore_seq: "client_step jo (e, C_RestoreSeq r submission)
    (advance_sequence [] submission e,
     Some (C_Push r (restore_entry submission) ''recovery raced with engine shutdown''))"
| push_ok: "engine_push entry e = (True, e') \<Longrightarrow>
    client_step jo (e, C_Push r entry message) (e', None)"
| push_closed: "engine_push entry e = (False, e') \<Longrightarrow>
    client_step jo (e, C_Push r entry message) (e', Some (C_Finish r entry message))"
| finish: "client_step jo (e, C_Finish r entry message) (finish_record jo now Cancelled message r e, None)"
| reserve_id: "client_step jo (e, C_ReserveId submission)
    (advance_job_id [] submission e, Some (C_ReserveSeq submission))"
| reserve_seq: "client_step jo (e, C_ReserveSeq submission) (advance_sequence [] submission e, None)"
| cancel: "cancel_record jo now r e = (b, e') \<Longrightarrow> client_step jo (e, C_Cancel r) (e', None)"
| set_scheduler_ok: "queue_set_scheduler config (en_queue e) = Inr q \<Longrightarrow>
    client_step jo (e, C_SetScheduler config) (e\<lparr>en_queue := q\<rparr>, None)"
| set_scheduler_throw: "queue_set_scheduler config (en_queue e) = Inl error \<Longrightarrow>
    client_step jo (e, C_SetScheduler config) (e, None)"
| shutdown: "client_step jo (e, C_Shutdown mode) (shutdown_stop_accepting e, Some (C_Close mode))"
| close_drain: "shutdown_close Drain e = (pending, e') \<Longrightarrow>
    client_step jo (e, C_Close Drain) (e', Some C_Join)"
| close_cancel: "shutdown_close CancelPending e = (pending, e') \<Longrightarrow>
    client_step jo (e, C_Close CancelPending) (e', Some (C_CancelPending pending))"
| cancel_pending: "client_step jo (e, C_CancelPending pending) (cancel_pending jo now pending e, Some C_Join)"

fun submitting :: "'t client \<Rightarrow> bool" where
  "submitting (C_SubmitId _ _) = True"
| "submitting (C_SubmitSeq _ _ _) = True"
| "submitting (C_SubmitJournal _ _ _ _) = True"
| "submitting (C_SubmitEmplace _ _ _) = True"
| "submitting _ = False"

fun restoring :: "'t client \<Rightarrow> bool" where
  "restoring (C_RestoreJournal _ _) = True"
| "restoring (C_RestoreEmplace _ _) = True"
| "restoring (C_RestoreId _ _) = True"
| "restoring _ = False"

fun shutting_down :: "'t client \<Rightarrow> bool" where
  "shutting_down (C_Shutdown _) = True"
| "shutting_down (C_Close _) = True"
| "shutting_down (C_CancelPending _) = True"
| "shutting_down C_Join = True"
| "shutting_down _ = False"

inductive step :: "'j journal_ops \<Rightarrow> ('t, 'j) system \<Rightarrow> ('t, 'j) system \<Rightarrow> bool" for jo where
  worker: "k < length (sys_workers s) \<Longrightarrow> worker_step jo (sys_engine s, sys_workers s ! k) (e', w') \<Longrightarrow>
    step jo s (s\<lparr>sys_engine := e', sys_workers := (sys_workers s)[k := w']\<rparr>)"
| client: "sys_clients s = before @ c # after \<Longrightarrow> client_step jo (sys_engine s, c) (e', cont) \<Longrightarrow>
    step jo s (s\<lparr>sys_engine := e', sys_clients := before @ (case cont of None \<Rightarrow> [] | Some c' \<Rightarrow> [c']) @ after\<rparr>)"
| call_submit: "submit_check task options (sys_engine s) = Inr t \<Longrightarrow>
    list_all (\<lambda>c. \<not> restoring c) (sys_clients s) \<Longrightarrow>
    step jo s (s\<lparr>sys_clients := C_SubmitId t options # sys_clients s\<rparr>)"
| call_restore: "restore_check task submission (sys_engine s) = Inr t \<Longrightarrow>
    sub_id submission \<noteq> 0xFFFFFFFFFFFFFFFF \<Longrightarrow>
    list_all (\<lambda>c. \<not> submitting c \<and> \<not> restoring c) (sys_clients s) \<Longrightarrow>
    step jo s (s\<lparr>sys_clients := C_RestoreJournal t submission # sys_clients s\<rparr>)"
| call_reserve: "sub_id submission \<noteq> 0 \<Longrightarrow>
    step jo s (s\<lparr>sys_clients := C_ReserveId submission # sys_clients s\<rparr>)"
| call_cancel: "find_record i (sys_engine s) = Some r \<Longrightarrow>
    step jo s (s\<lparr>sys_clients := C_Cancel r # sys_clients s\<rparr>)"
| call_set_scheduler: "en_accepting (sys_engine s) \<Longrightarrow>
    step jo s (s\<lparr>sys_clients := C_SetScheduler config # sys_clients s\<rparr>)"
| call_shutdown: "sys_workers s \<noteq> [] \<Longrightarrow> list_all (\<lambda>c. \<not> shutting_down c) (sys_clients s) \<Longrightarrow>
    step jo s (s\<lparr>sys_clients := C_Shutdown mode # sys_clients s\<rparr>)"
| join: "sys_clients s = before @ C_Join # after \<Longrightarrow> list_all (\<lambda>w. w = W_Exit) (sys_workers s) \<Longrightarrow>
    step jo s (s\<lparr>sys_workers := [], sys_clients := before @ after\<rparr>)"

definition initial :: "platform \<Rightarrow> 'j engine_config \<Rightarrow> ('t, 'j) system \<Rightarrow> bool" where
  "initial platform config s \<longleftrightarrow>
     TaskEngine platform config = Inr (sys_engine s) \<and>
     sys_workers s = replicate (en_worker_count (sys_engine s)) W_Pop \<and> sys_clients s = []"

definition reachable :: "'j journal_ops \<Rightarrow> ('t, 'j) system \<Rightarrow> bool" where
  "reachable jo s \<longleftrightarrow> (\<exists>platform config s0. initial platform config s0 \<and> (step jo)\<^sup>*\<^sup>* s0 s)"

end
