(* ===== verification/Kronos_Run.thy ===== *)
theory Kronos_Run
  imports Kronos_Steps
begin

text \<open>
  One concrete run of the engine, used to show that the hypotheses of the properties can hold: an
  engine with one worker, the FIFO policy and no journal; one job with task \<open>t\<close> is submitted, run to completion
  in one slice that leaves the task as \<open>t'\<close> and returns the message \<open>m\<close> and the work \<open>w\<close>, and the engine is shut down.
  The names with \<open>run\<close> are the run of a task without state.
\<close>

abbreviation (input) no_journal :: "unit journal_ops" where
  "no_journal \<equiv> \<lparr>append_submission = (\<lambda>_ j. (None, j)), append_transition = (\<lambda>_ j. (None, j))\<rparr>"

definition run_config :: "unit engine_config" where
  "run_config = \<lparr>ec_worker_count = 1, ec_scheduler = \<lparr>cfg_kind = Fifo, cfg_quantum = 100\<rparr>, ec_journal = None\<rparr>"

definition run_options :: submission_options where
  "run_options = \<lparr>opt_name = ''demo'', opt_priority = 0, opt_estimated_work_units = 5, opt_durable_spec = None\<rparr>"

definition run_entry :: scheduler_entry where
  "run_entry = submit_entry 1 0 run_options"

definition job_engine :: "scheduler_entry list \<Rightarrow> bool \<Rightarrow> 't job_record list \<Rightarrow> u64 \<Rightarrow> u64 \<Rightarrow> bool \<Rightarrow> ('t, unit) engine" where
  "job_engine es closed store i sequence accepting =
     \<lparr>en_queue = \<lparr>tq_scheduler = FifoS es, tq_config = \<lparr>cfg_kind = Fifo, cfg_quantum = 100\<rparr>, tq_closed = closed\<rparr>,
      en_worker_count = 1, en_store = store, en_records = (if store = [] then [] else [(1, 0)]),
      en_next_job_id = i, en_next_sequence = sequence, en_accepting = accepting, en_journal = None\<rparr>"

definition job_ready :: "'t \<Rightarrow> 't job_record" where
  "job_ready t = JobRecord (submit_snapshot 10 1 0 run_options) run_entry t"

definition job_running :: "'t \<Rightarrow> 't job_record" where
  "job_running t = (job_ready t)\<lparr>jr_snapshot := (jr_snapshot (job_ready t))\<lparr>snap_state := Running, snap_started_at := 20\<rparr>\<rparr>"

definition job_done :: "'t \<Rightarrow> string \<Rightarrow> work_units \<Rightarrow> 't job_record" where
  "job_done t m w = publish 30 Completed m (add_work w (job_running t))"

definition run_dispatch :: dispatch where
  "run_dispatch = \<lparr>dis_entry = run_entry, dis_budget = unlimited_work\<rparr>"

fun job_system :: "'t \<Rightarrow> 't \<Rightarrow> string \<Rightarrow> work_units \<Rightarrow> nat \<Rightarrow> ('t, unit) system" where
  "job_system t t' m w n =
    (let sys = (\<lambda>e w c. \<lparr>sys_engine = e, sys_workers = w, sys_clients = c\<rparr>) in
     if n = 0 then sys (job_engine [] False [] 1 0 True) [W_Pop] []
     else if n = 1 then sys (job_engine [] False [] 1 0 True) [W_Pop] [C_SubmitId t run_options]
     else if n = 2 then sys (job_engine [] False [] 2 0 True) [W_Pop] [C_SubmitSeq t run_options 1]
     else if n = 3 then sys (job_engine [] False [] 2 1 True) [W_Pop] [C_SubmitJournal t run_options 1 0]
     else if n = 4 then sys (job_engine [] False [] 2 1 True) [W_Pop]
       [C_SubmitEmplace t (submit_snapshot 10 1 0 run_options) run_entry]
     else if n = 5 then sys (job_engine [] False [job_ready t] 2 1 True) [W_Pop]
       [C_Push 0 run_entry ''submission raced with engine shutdown'']
     else if n = 6 then sys (job_engine [run_entry] False [job_ready t] 2 1 True) [W_Pop] []
     else if n = 7 then sys (job_engine [] False [job_ready t] 2 1 True) [W_Find run_dispatch] []
     else if n = 8 then sys (job_engine [] False [job_ready t] 2 1 True) [W_Start run_dispatch 0] []
     else if n = 9 then sys (job_engine [] False [job_running t] 2 1 True) [W_Run run_dispatch 0] []
     else if n = 10 then sys (job_engine [] False [job_running t'] 2 1 True) [W_Record run_dispatch 0 (slice_completed m w)] []
     else if n = 11 then sys (job_engine [] False [job_done t' m w] 2 1 True) [W_Pop] []
     else if n = 12 then sys (job_engine [] False [job_done t' m w] 2 1 True) [W_Pop] [C_Shutdown Drain]
     else if n = 13 then sys (job_engine [] False [job_done t' m w] 2 1 False) [W_Pop] [C_Close Drain]
     else if n = 14 then sys (job_engine [] True [job_done t' m w] 2 1 False) [W_Pop] [C_Join]
     else if n = 15 then sys (job_engine [] True [job_done t' m w] 2 1 False) [W_Exit] [C_Join]
     else sys (job_engine [] True [job_done t' m w] 2 1 False) [] [])"

declare job_system.simps [simp del]

abbreviation (input) run_engine ::
    "scheduler_entry list \<Rightarrow> bool \<Rightarrow> unit job_record list \<Rightarrow> u64 \<Rightarrow> u64 \<Rightarrow> bool \<Rightarrow> (unit, unit) engine" where
  "run_engine \<equiv> job_engine"

abbreviation (input) run_ready :: "unit job_record" where
  "run_ready \<equiv> job_ready ()"

abbreviation (input) run_done :: "unit job_record" where
  "run_done \<equiv> job_done () ''done'' 5"

abbreviation (input) run_state :: "nat \<Rightarrow> (unit, unit) system" where
  "run_state \<equiv> job_system () () ''done'' 5"

lemmas run_engine_def = job_engine_def
lemmas run_ready_def = job_ready_def
lemmas run_running_def = job_running_def
lemmas run_done_def = job_done_def
lemmas run_unfold = job_system.simps Let_def job_engine_def

lemma worker_stepI:
  assumes "worker_step jo (e, w) (e', w')" "s = \<lparr>sys_engine = e, sys_workers = [w], sys_clients = cs\<rparr>"
    "s' = \<lparr>sys_engine = e', sys_workers = [w'], sys_clients = cs\<rparr>"
  shows "step jo s s'"
  using step.worker [of 0 s jo e' w'] assms by simp

lemma client_stepI:
  assumes "client_step jo (e, c) (e', cont)" "s = \<lparr>sys_engine = e, sys_workers = ws, sys_clients = [c]\<rparr>"
    "s' = \<lparr>sys_engine = e', sys_workers = ws, sys_clients = (case cont of None \<Rightarrow> [] | Some c' \<Rightarrow> [c'])\<rparr>"
  shows "step jo s s'"
  using step.client [of s "[]" c "[]" jo e' cont] assms by simp

lemma job_submit:
  "step no_journal (job_system t t' m w 0) (job_system t t' m w 1)" "step no_journal (job_system t t' m w 1) (job_system t t' m w 2)"
  "step no_journal (job_system t t' m w 2) (job_system t t' m w 3)" "step no_journal (job_system t t' m w 3) (job_system t t' m w 4)"
proof -
  show "step no_journal (job_system t t' m w 0) (job_system t t' m w 1)"
    using step.call_submit [of "Some t" run_options "job_system t t' m w 0" t no_journal]
    by (simp add: run_unfold submit_check_def run_options_def)
  show "step no_journal (job_system t t' m w 1) (job_system t t' m w 2)"
    by (rule client_stepI [OF client_step.submit_id]) (simp_all add: run_unfold take_job_id_def)
  show "step no_journal (job_system t t' m w 2) (job_system t t' m w 3)"
    by (rule client_stepI [OF client_step.submit_seq]) (simp_all add: run_unfold take_sequence_def)
  show "step no_journal (job_system t t' m w 3) (job_system t t' m w 4)"
    by (rule client_stepI [OF client_step.submit_journal_ok])
      (simp_all add: run_unfold submit_journal_def run_entry_def)
qed

lemma job_enqueue:
  "step no_journal (job_system t t' m w 4) (job_system t t' m w 5)" "step no_journal (job_system t t' m w 5) (job_system t t' m w 6)"
  "step no_journal (job_system t t' m w 6) (job_system t t' m w 7)" "step no_journal (job_system t t' m w 7) (job_system t t' m w 8)"
proof -
  show "step no_journal (job_system t t' m w 4) (job_system t t' m w 5)"
    by (rule client_stepI [OF client_step.submit_emplace])
      (simp_all add: run_unfold registry_emplace_def hm_emplace_def submit_snapshot_def run_ready_def)
  show "step no_journal (job_system t t' m w 5) (job_system t t' m w 6)"
    by (rule client_stepI [OF client_step.push_ok])
      (simp_all add: run_unfold engine_push_def push_external_def fifo_push_def)
  show "step no_journal (job_system t t' m w 6) (job_system t t' m w 7)"
    by (rule worker_stepI [OF worker_step.pop_some])
      (simp_all add: run_unfold pop_ready_def queue_pop_def fifo_empty_def fifo_pop_def run_dispatch_def fifo_slice_budget_def, simp)
  show "step no_journal (job_system t t' m w 7) (job_system t t' m w 8)"
    by (rule worker_stepI [OF worker_step.find_some])
      (simp_all add: run_unfold find_record_def hm_find_def run_dispatch_def run_entry_def submit_entry_def)
qed

lemma job_work:
  "step no_journal (job_system t t' m w 8) (job_system t t' m w 9)" "step no_journal (job_system t t' m w 9) (job_system t t' m w 10)"
  "step no_journal (job_system t t' m w 10) (job_system t t' m w 11)"
proof -
  show "step no_journal (job_system t t' m w 8) (job_system t t' m w 9)"
    by (rule worker_stepI [OF worker_step.start_ok [where now = 20]])
      (simp_all add: run_unfold worker_start_def with_record_def start_section_def persist_transition_locked_def
        run_running_def run_ready_def JobRecord_def submit_snapshot_def)
  show "step no_journal (job_system t t' m w 9) (job_system t t' m w 10)"
    by (rule worker_stepI [OF worker_step.run [where outcome = "Returned (slice_completed m w)" and t = t']])
      (simp_all add: run_unfold set_task_def, simp add: set_task_def job_running_def job_ready_def JobRecord_def)
  show "step no_journal (job_system t t' m w 10) (job_system t t' m w 11)"
    by (rule worker_stepI [OF worker_step.record_done [where now = 30]])
      (simp_all add: run_unfold worker_record_def with_record_def record_section_def persist_transition_locked_def
        slice_completed_def finish_locked_def run_done_def run_running_def run_ready_def JobRecord_def)
qed

lemma job_shutdown:
  "step no_journal (job_system t t' m w 11) (job_system t t' m w 12)" "step no_journal (job_system t t' m w 12) (job_system t t' m w 13)"
  "step no_journal (job_system t t' m w 13) (job_system t t' m w 14)" "step no_journal (job_system t t' m w 14) (job_system t t' m w 15)"
  "step no_journal (job_system t t' m w 15) (job_system t t' m w 16)"
proof -
  show "step no_journal (job_system t t' m w 11) (job_system t t' m w 12)"
    using step.call_shutdown [of "job_system t t' m w 11" no_journal Drain] by (simp add: run_unfold)
  show "step no_journal (job_system t t' m w 12) (job_system t t' m w 13)"
    by (rule client_stepI [OF client_step.shutdown]) (simp_all add: run_unfold shutdown_stop_accepting_def, simp)
  show "step no_journal (job_system t t' m w 13) (job_system t t' m w 14)"
    by (rule client_stepI [OF client_step.close_drain])
      (simp_all add: run_unfold shutdown_close_def close_and_drain_pending_def)
  show "step no_journal (job_system t t' m w 14) (job_system t t' m w 15)"
    by (rule worker_stepI [OF worker_step.pop_none])
      (simp_all add: run_unfold pop_ready_def queue_pop_def fifo_empty_def, simp)
  show "step no_journal (job_system t t' m w 15) (job_system t t' m w 16)"
    using step.join [of "job_system t t' m w 15" "[]" "[]" no_journal] by (simp add: run_unfold)
qed

lemma reachable_step: "reachable jo s \<Longrightarrow> step jo s s' \<Longrightarrow> reachable jo s'"
  unfolding reachable_def by (meson rtranclp.rtrancl_into_rtrancl)

lemma job_initial: "reachable no_journal (job_system t t' m w 0)"
proof -
  have "initial able_platform run_config (job_system t t' m w 0)"
    by (simp add: initial_def run_unfold TaskEngine_Inr_iff TaskQueue_def run_config_def resolved_worker_count_def)
  then show ?thesis unfolding reachable_def by blast
qed

lemmas job_steps = job_submit job_enqueue job_work job_shutdown

lemma job_reachable:
  "reachable no_journal (job_system t t' m w 9)" "reachable no_journal (job_system t t' m w 11)"
  "reachable no_journal (job_system t t' m w 16)"
  by (intro job_initial job_steps [THEN reachable_step [rotated]])+

lemmas run_steps = job_steps [where t = "()" and t' = "()" and m = "''done''" and w = 5]
lemmas run_shutdown = job_shutdown [where t = "()" and t' = "()" and m = "''done''" and w = 5]
lemmas run_reachable = job_reachable [where t = "()" and t' = "()" and m = "''done''" and w = 5]

end
