(* ===== verification/Kronos_Invariant.thy ===== *)
theory Kronos_Invariant
  imports Kronos_Run
begin

text \<open>
  The invariant of the concurrent engine.  Its core relates three things: the records, the
  multiset of tokens (one per job that is queued or in the hands of a thread) and the multiset of
  jobs being run.  A token is what entitles a worker to look at a job; tokens move between the
  queue and the threads and are dropped only when the job is finished.
\<close>

section \<open>Tokens\<close>

fun worker_tokens :: "worker \<Rightarrow> job_id multiset" where
  "worker_tokens (W_Find d) = {#se_id (dis_entry d)#}"
| "worker_tokens (W_Start d r) = {#se_id (dis_entry d)#}"
| "worker_tokens (W_Run d r) = {#se_id (dis_entry d)#}"
| "worker_tokens (W_Record d r result) = {#se_id (dis_entry d)#}"
| "worker_tokens (W_Requeue d r) = {#se_id (dis_entry d)#}"
| "worker_tokens _ = {#}"

fun worker_runs :: "worker \<Rightarrow> job_id multiset" where
  "worker_runs (W_Run d r) = {#se_id (dis_entry d)#}"
| "worker_runs (W_Record d r result) = {#se_id (dis_entry d)#}"
| "worker_runs _ = {#}"

fun client_tokens :: "'t client \<Rightarrow> job_id multiset" where
  "client_tokens (C_RestoreId r submission) = {#sub_id submission#}"
| "client_tokens (C_RestoreSeq r submission) = {#sub_id submission#}"
| "client_tokens (C_Push r entry message) = {#se_id entry#}"
| "client_tokens (C_Finish r entry message) = {#se_id entry#}"
| "client_tokens (C_CancelPending pending) = image_mset se_id (mset pending)"
| "client_tokens _ = {#}"

text \<open>The IDs that a submission in flight has taken and not yet registered.\<close>

fun client_reserved :: "'t client \<Rightarrow> job_id multiset" where
  "client_reserved (C_SubmitSeq t options i) = {#i#}"
| "client_reserved (C_SubmitJournal t options i sequence) = {#i#}"
| "client_reserved (C_SubmitEmplace t snapshot entry) = {#snap_id snapshot#}"
| "client_reserved _ = {#}"

definition tally :: "('a \<Rightarrow> 'b multiset) \<Rightarrow> 'a list \<Rightarrow> 'b multiset" where
  "tally f xs = sum_list (map f xs)"

lemma tally_simps [simp]:
  "tally f [] = {#}" "tally f (x # xs) = f x + tally f xs" "tally f (xs @ ys) = tally f xs + tally f ys"
  by (simp_all add: tally_def)

lemma tally_nth: "k < length xs \<Longrightarrow> \<exists>R. tally f xs = f (xs ! k) + R \<and> tally f (xs[k := y]) = f y + R"
proof -
  assume k: "k < length xs"
  then obtain u v where xs: "xs = u @ xs ! k # v" "length u = k"
    by (metis id_take_nth_drop length_take min.absorb4)
  then have "xs[k := y] = u @ y # v" by (metis list_update_length)
  then have "tally f xs = f (xs ! k) + tally f (u @ v)" "tally f (xs[k := y]) = f y + tally f (u @ v)"
    using arg_cong [OF xs(1), of "tally f"] by (simp_all add: ac_simps)
  then show ?thesis by blast
qed

lemma tally_mid: "tally f (xs @ x # ys) = f x + tally f (xs @ ys)"
  by (simp add: ac_simps)

lemma tally_mono: "(\<And>x. f x \<subseteq># g x) \<Longrightarrow> tally f xs \<subseteq># tally g xs"
  by (induction xs) (simp_all add: subset_mset.add_mono)

lemma worker_runs_tokens: "worker_runs w \<subseteq># worker_tokens w"
  by (cases w) simp_all

section \<open>The core\<close>

definition state_of :: "('t, 'j) engine \<Rightarrow> job_id \<Rightarrow> job_state option" where
  "state_of e i = map_option (\<lambda>rec. snap_state (jr_snapshot rec)) (rec_of e i)"

definition core :: "('t, 'j) engine \<Rightarrow> job_id multiset \<Rightarrow> job_id multiset \<Rightarrow> bool" where
  "core e T R \<longleftrightarrow> registry_ok e \<and> (\<forall>i rec. rec_of e i = Some rec \<longrightarrow> published_ok rec) \<and>
     (\<forall>i. count T i \<le> 1) \<and> (\<forall>i. i \<in># T \<longrightarrow> rec_of e i \<noteq> None) \<and>
     (\<forall>i s. state_of e i = Some s \<and> \<not> is_terminal s \<longrightarrow> i \<in># T) \<and>
     (\<forall>i. count R i = (if state_of e i = Some Running then 1 else 0))"

lemma coreD:
  assumes "core e T R"
  shows "registry_ok e" "rec_of e i = Some rec \<Longrightarrow> published_ok rec" "count T i \<le> 1"
    "i \<in># T \<Longrightarrow> rec_of e i \<noteq> None" "state_of e i = Some s \<Longrightarrow> \<not> is_terminal s \<Longrightarrow> i \<in># T"
    "count R i = (if state_of e i = Some Running then 1 else 0)"
  using assms by (auto simp: core_def)

text \<open>The core depends on the registry only.\<close>

lemma core_cong:
  "core e T R \<Longrightarrow> registry_ok e' \<Longrightarrow> rec_of e' = rec_of e \<Longrightarrow> core e' T R"
  by (simp add: core_def state_of_def)

text \<open>
  One job changes: its record, whether it is being run, and possibly its token is dropped.
\<close>

lemma core_update:
  assumes "core e T R" "registry_ok e'" "rec_of e' = (rec_of e)(i \<mapsto> rec')" "published_ok rec'"
    and "rec_of e i \<noteq> None" "T = T' \<or> T = add_mset i T'"
    and "\<not> is_terminal (rec_state rec') \<Longrightarrow> i \<in># T'"
    and "\<And>k. k \<noteq> i \<Longrightarrow> count R' k = count R k"
    and "count R' i = (if rec_state rec' = Running then 1 else 0)"
  shows "core e' T' R'"
proof -
  have st: "state_of e' k = (if k = i then Some (rec_state rec') else state_of e k)" for k
    by (simp add: state_of_def assms(3))
  have le: "count T' k \<le> count T k" for k using assms(6) by auto
  have other: "k \<noteq> i \<Longrightarrow> k \<in># T' \<longleftrightarrow> k \<in># T" for k using assms(6) by auto
  show ?thesis
    unfolding core_def
  proof (intro conjI allI impI)
    show "registry_ok e'" by fact
    show "published_ok rec" if "rec_of e' k = Some rec" for k rec
      using that assms(3,4) coreD(2) [OF assms(1)] by (auto split: if_splits)
    show "count T' k \<le> 1" for k using le [of k] coreD(3) [OF assms(1), of k] by simp
    show "rec_of e' k \<noteq> None" if "k \<in># T'" for k
      using that other [of k] coreD(4) [OF assms(1), of k] assms(3) by (cases "k = i") auto
    show "k \<in># T'" if "state_of e' k = Some s \<and> \<not> is_terminal s" for k s
      using that st [of k] other [of k] coreD(5) [OF assms(1), of k] assms(7) by (cases "k = i") auto
    show "count R' k = (if state_of e' k = Some Running then 1 else 0)" for k
      using assms(8) [of k] assms(9) st [of k] coreD(6) [OF assms(1), of k] by (cases "k = i") auto
  qed
qed

text \<open>A token that is not being run belongs to a job that is not running.\<close>

lemma core_idle_token:
  assumes "core e T R" "add_mset i R \<subseteq># T"
  shows "state_of e i \<noteq> Some Running"
proof
  assume "state_of e i = Some Running"
  then have "count R i = 1" using coreD(6) [OF assms(1), of i] by simp
  moreover have "count (add_mset i R) i \<le> count T i" using assms(2) by (rule mset_subset_eq_count)
  ultimately show False using coreD(3) [OF assms(1), of i] by simp
qed

section \<open>Sections and the core\<close>

definition frame :: "('t, 'j) engine \<Rightarrow> ('t, 'j) engine \<Rightarrow> bool" where
  "frame e e' \<longleftrightarrow> (\<forall>k. find_record k e' = find_record k e) \<and> en_queue e' = en_queue e \<and>
     en_next_job_id e' = en_next_job_id e"

lemma frame_refl [simp]: "frame e e" by (simp add: frame_def)

lemma frame_trans: "frame e e' \<Longrightarrow> frame e' e'' \<Longrightarrow> frame e e''" by (simp add: frame_def)

lemma frame_rec_of: "frame e e' \<Longrightarrow> rec_of e' k = None \<longleftrightarrow> rec_of e k = None"
  by (simp add: frame_def rec_of_None)

lemma section_core:
  assumes "core e T R" "find_record i e = Some r" "with_record r f e = (x, e')"
    and "f (en_store e ! r, en_journal e) = (x, rec', j')" "section_ok (en_store e ! r) rec'"
    and "T = T' \<or> T = add_mset i T'" "\<not> is_terminal (rec_state rec') \<Longrightarrow> i \<in># T'"
    and "\<And>k. k \<noteq> i \<Longrightarrow> count R' k = count R k" "count R' i = (if rec_state rec' = Running then 1 else 0)"
  shows "core e' T' R' \<and> frame e e' \<and> state_of e' i = Some (rec_state rec') \<and> (\<forall>k. k \<noteq> i \<longrightarrow> rec_of e' k = rec_of e k)"
proof -
  obtain e1 where e1: "with_record r f e = (x, e1)" "registry_ok e1" "rec_of e1 = (rec_of e)(i \<mapsto> rec')" "frame e e1"
    using with_record_view [of e i r f x rec' j'] coreD(1) [OF assms(1)] assms(2,4,5) by (auto simp: frame_def)
  then have "e1 = e'" using assms(3) by simp
  moreover have "core e1 T' R'"
    using e1 assms(5) by (intro core_update [OF assms(1) e1(2,3) _ _ assms(6-9)])
      (simp_all add: section_ok_def rec_of_find [OF assms(2)])
  ultimately show ?thesis using e1 by (auto simp: state_of_def)
qed

lemma section_premises:
  assumes "core e T R" "find_record i e = Some r"
  shows "published_ok (en_store e ! r)" "state_of e i = Some (rec_state (en_store e ! r))"
    "count R i = (if rec_state (en_store e ! r) = Running then 1 else 0)"
  using coreD(2) [OF assms(1) rec_of_find [OF assms(2)]] coreD(6) [OF assms(1), of i] rec_of_find [OF assms(2)]
  by (simp_all add: state_of_def)

lemma start_section_cases:
  assumes "published_ok rec" "start_section jo now (rec, j) = (x, rec', j')"
  shows "if x then rec_state rec = Ready \<and> rec_state rec' = Running
    else rec' = rec \<and> rec_state rec \<noteq> Ready \<or> rec_state rec = Ready \<and> rec_state rec' = Failed"
proof (cases "rec_state rec = Ready")
  case True
  obtain ok r1 j1 where p: "persist_transition_locked jo now Running [] (rec, j) = (ok, r1, j1)"
    by (metis prod_cases3)
  then show ?thesis using persist_ok [OF assms(1) _ p] True assms(2)
    by (cases ok) (auto simp: start_section_def)
qed (use assms in \<open>simp add: start_section_def\<close>)

lemma worker_start_core:
  assumes "core e T R" "find_record i e = Some r" "add_mset i R \<subseteq># T" "worker_start jo now r e = (x, e')"
  shows "frame e e' \<and> (if x then core e' T (add_mset i R) else core e' (T - {#i#}) R)"
proof -
  let ?rec = "en_store e ! r"
  obtain rec' j' where run: "start_section jo now (?rec, en_journal e) = (x, rec', j')"
    using assms(4) by (auto simp: worker_start_def with_record_def split: prod.splits)
  note pre = section_premises [OF assms(1,2)]
  have ok: "section_ok ?rec rec'" using start.sec_ok [OF pre(1) TrueI run] by simp
  have iT: "i \<in># T" using assms(3) by (metis mset_subset_eqD union_single_eq_member add_mset_add_single)
  have idle: "rec_state ?rec \<noteq> Running" using core_idle_token [OF assms(1,3)] pre(2) by simp
  note cs = start_section_cases [OF pre(1) run]
  note sc = section_core [OF assms(1,2) assms(4) [unfolded worker_start_def] run ok]
  show ?thesis
  proof (cases x)
    case True
    then show ?thesis using sc [of T "add_mset i R"] cs iT pre(3) by simp
  next
    case False
    then have "is_terminal (rec_state rec')"
      using cs idle pre(1) by (cases "rec_state ?rec") (auto simp: published_ok_def)
    then show ?thesis using sc [of "T - {#i#}" R] False cs iT pre(3) idle
      by (auto simp: is_terminal_def)
  qed
qed

lemma worker_record_core:
  assumes "core e T R" "find_record i e = Some r" "i \<in># R" "i \<in># T"
    "worker_record jo now result r e = (x, e')"
  shows "frame e e' \<and> (if x then core e' T (R - {#i#}) else core e' (T - {#i#}) (R - {#i#}))"
proof -
  let ?rec = "en_store e ! r"
  obtain rec' j' where run: "record_section jo now result (?rec, en_journal e) = (x, rec', j')"
    using assms(5) by (auto simp: worker_record_def with_record_def split: prod.splits)
  note pre = section_premises [OF assms(1,2)]
  have running: "rec_state ?rec = Running" "count R i = 1"
    using pre(3) assms(3) by (auto simp: count_eq_zero_iff split: if_splits)
  note cs = record_section_cases [OF pre(1) running(1) run]
  note sc = section_core [OF assms(1,2) assms(5) [unfolded worker_record_def] run conjunct1 [OF cs]]
  show ?thesis
  proof (cases x)
    case True
    then show ?thesis using sc [of T "R - {#i#}"] cs running assms(4) by simp
  next
    case False
    then show ?thesis using sc [of "T - {#i#}" "R - {#i#}"] cs running assms(4) by (auto simp: is_terminal_def)
  qed
qed

lemma cancel_section_cases:
  assumes "published_ok rec" "cancel_section jo now (rec, j) = (x, rec', j')"
  shows "(rec_state rec' = Running \<longleftrightarrow> rec_state rec = Running) \<and>
    (\<not> is_terminal (rec_state rec') \<longrightarrow> \<not> is_terminal (rec_state rec)) \<and>
    (x \<longleftrightarrow> \<not> is_terminal (rec_state rec)) \<and> (x \<longrightarrow> is_terminal (rec_state rec') \<or> jr_stop_requested rec')"
proof (cases "rec_state rec = Ready \<or> rec_state rec = New")
  case True
  then have f: "finish_locked jo now Cancelled ''cancelled before execution'' (rec\<lparr>jr_stop_requested := True\<rparr>, j) = (rec', j')"
    and x: "x" using assms(2) by (auto simp: cancel_section_def Let_def)
  have "is_terminal (rec_state rec')" using finish_section_ok [OF _ _ _ f] assms(1) by simp
  then show ?thesis using True x by (auto simp: is_terminal_def)
next
  case False
  then show ?thesis using assms(2) by (auto simp: cancel_section_def Let_def split: if_splits)
qed

lemma cancel_record_core:
  assumes "core e T R" "find_record i e = Some r" "cancel_record jo now r e = (x, e')"
  shows "frame e e' \<and> core e' T R"
proof -
  let ?rec = "en_store e ! r"
  obtain rec' j' where run: "cancel_section jo now (?rec, en_journal e) = (x, rec', j')"
    using assms(3) by (auto simp: cancel_record_def with_record_def split: prod.splits)
  note pre = section_premises [OF assms(1,2)]
  have ok: "section_ok ?rec rec'" using cancel.sec_ok [OF pre(1) TrueI run] by simp
  note cs = cancel_section_cases [OF pre(1) run]
  have "\<not> is_terminal (rec_state rec') \<Longrightarrow> i \<in># T"
    using cs coreD(5) [OF assms(1) pre(2)] by blast
  then show ?thesis
    using section_core [OF assms(1,2) assms(3) [unfolded cancel_record_def] run ok, of T R] cs pre(3) by simp
qed

text \<open>Finishing a job whose token the caller holds, and dropping the token.\<close>

lemma finish_record_core:
  assumes "core e T R" "find_record i e = Some r" "add_mset i R \<subseteq># T"
  shows "frame e (finish_record jo now Cancelled message r e) \<and>
    core (finish_record jo now Cancelled message r e) (T - {#i#}) R"
proof -
  let ?rec = "en_store e ! r"
  obtain rec' j' where fin: "finish_locked jo now Cancelled message (?rec, en_journal e) = (rec', j')"
    by fastforce
  then have run: "finish_section jo now Cancelled message (?rec, en_journal e) = ((), rec', j')"
    by (simp add: finish_section_def)
  obtain e' where w: "with_record r (finish_section jo now Cancelled message) e = ((), e')"
    by (metis surj_pair unit.exhaust)
  note pre = section_premises [OF assms(1,2)]
  have ok: "section_ok ?rec rec'" "is_terminal (rec_state rec')"
    using finish_section_ok [OF pre(1) _ _ fin] by simp_all
  have "i \<in># T" using assms(3) by (metis mset_subset_eqD union_single_eq_member add_mset_add_single)
  moreover have "rec_state ?rec \<noteq> Running" using core_idle_token [OF assms(1,3)] pre(2) by simp
  ultimately show ?thesis
    using section_core [OF assms(1,2) w run ok(1), of "T - {#i#}" R] ok(2) pre(3)
    by (auto simp: finish_record_def w is_terminal_def)
qed

lemma cancel_pending_entry_core:
  assumes "core e T R" "add_mset (se_id entry) R \<subseteq># T"
  shows "frame e (cancel_pending_entry jo now entry e) \<and>
    core (cancel_pending_entry jo now entry e) (T - {#se_id entry#}) R"
proof -
  let ?i = "se_id entry"
  have iT: "?i \<in># T" using assms(2) by (metis mset_subset_eqD union_single_eq_member add_mset_add_single)
  then obtain r where r: "find_record ?i e = Some r"
    using coreD(4) [OF assms(1), of ?i] by (auto simp: rec_of_None)
  let ?rec = "en_store e ! r"
  note pre = section_premises [OF assms(1) r]
  obtain rec' j' where run: "pending_section jo now (?rec, en_journal e) = ((), rec', j')"
    by (metis surj_pair unit.exhaust)
  obtain e' where w: "with_record r (pending_section jo now) e = ((), e')"
    by (metis surj_pair unit.exhaust)
  have ok: "section_ok ?rec rec'" using pending.sec_ok [OF pre(1) TrueI run] by simp
  have "is_terminal (rec_state rec')"
  proof (cases "is_terminal (rec_state ?rec)")
    case True
    then show ?thesis using run by (simp add: pending_section_def)
  next
    case False
    then have "finish_locked jo now Cancelled ''cancelled during engine shutdown''
        (?rec\<lparr>jr_stop_requested := True\<rparr>, en_journal e) = (rec', j')"
      using run by (simp add: pending_section_def)
    from finish_section_ok [OF _ _ _ this] show ?thesis using pre(1) by simp
  qed
  moreover have "rec_state ?rec \<noteq> Running" using core_idle_token [OF assms] pre(2) by simp
  ultimately show ?thesis
    using section_core [OF assms(1) r w run ok, of "T - {#?i#}" R] iT pre(3)
    by (auto simp: cancel_pending_entry_def r w is_terminal_def)
qed

lemma cancel_pending_core:
  "core e (image_mset se_id (mset pending) + T) R \<Longrightarrow> R \<subseteq># T \<Longrightarrow>
     frame e (cancel_pending jo now pending e) \<and> core (cancel_pending jo now pending e) T R"
proof (induction pending arbitrary: e)
  case (Cons entry pending)
  let ?T = "image_mset se_id (mset (entry # pending)) + T"
  have "add_mset (se_id entry) R \<subseteq># ?T"
    using Cons.prems(2) by (simp add: subset_mset.add_increasing)
  from cancel_pending_entry_core [OF Cons.prems(1) this, of jo now] show ?case
    using Cons.IH [of "cancel_pending_entry jo now entry e"] Cons.prems(2) frame_trans
    by (auto simp: cancel_pending_def)
qed (simp add: cancel_pending_def)

text \<open>A new job enters with its token.\<close>

lemma core_new:
  assumes "core e T R" "rec_of e i = None" "registry_ok e'" "rec_of e' = (rec_of e)(i \<mapsto> rec)"
    "published_ok rec" "rec_state rec = Ready"
  shows "core e' (add_mset i T) R"
proof -
  have st: "state_of e' k = (if k = i then Some Ready else state_of e k)" for k
    by (simp add: state_of_def assms(4,6))
  have iT: "i \<notin># T" and iR: "count R i = 0"
    using assms(2) coreD(4) [OF assms(1), of i] coreD(6) [OF assms(1), of i] by (auto simp: state_of_def)
  show ?thesis
    unfolding core_def
  proof (intro conjI allI impI)
    show "registry_ok e'" by fact
    show "published_ok rc" if "rec_of e' k = Some rc" for k rc
      using that assms(4,5) coreD(2) [OF assms(1)] by (auto split: if_splits)
    show "count (add_mset i T) k \<le> 1" for k
      using iT coreD(3) [OF assms(1), of k] by (auto simp: count_eq_zero_iff)
    show "rec_of e' k \<noteq> None" if "k \<in># add_mset i T" for k
      using that coreD(4) [OF assms(1), of k] assms(4) by auto
    show "k \<in># add_mset i T" if "state_of e' k = Some s \<and> \<not> is_terminal s" for k s
      using that st [of k] coreD(5) [OF assms(1), of k] by (auto split: if_splits)
    show "count R k = (if state_of e' k = Some Running then 1 else 0)" for k
      using st [of k] iR coreD(6) [OF assms(1), of k] by auto
  qed
qed

section \<open>The invariant\<close>

fun worker_ok :: "('t, 'j) engine \<Rightarrow> worker \<Rightarrow> bool" where
  "worker_ok e (W_Start d r) \<longleftrightarrow> find_record (se_id (dis_entry d)) e = Some r"
| "worker_ok e (W_Run d r) \<longleftrightarrow> find_record (se_id (dis_entry d)) e = Some r"
| "worker_ok e (W_Record d r result) \<longleftrightarrow> find_record (se_id (dis_entry d)) e = Some r"
| "worker_ok e (W_Requeue d r) \<longleftrightarrow> find_record (se_id (dis_entry d)) e = Some r"
| "worker_ok e _ \<longleftrightarrow> True"

fun client_ok :: "('t, 'j) engine \<Rightarrow> 't client \<Rightarrow> bool" where
  "client_ok e (C_SubmitEmplace t snapshot entry) \<longleftrightarrow>
     se_id entry = snap_id snapshot \<and> snap_state snapshot = Ready"
| "client_ok e (C_RestoreJournal t submission) \<longleftrightarrow> sub_id submission \<noteq> 0xFFFFFFFFFFFFFFFF"
| "client_ok e (C_RestoreEmplace t submission) \<longleftrightarrow> sub_id submission \<noteq> 0xFFFFFFFFFFFFFFFF"
| "client_ok e (C_RestoreId r submission) \<longleftrightarrow>
     find_record (sub_id submission) e = Some r \<and> sub_id submission \<noteq> 0xFFFFFFFFFFFFFFFF"
| "client_ok e (C_RestoreSeq r submission) \<longleftrightarrow> find_record (sub_id submission) e = Some r"
| "client_ok e (C_Push r entry message) \<longleftrightarrow> find_record (se_id entry) e = Some r"
| "client_ok e (C_Finish r entry message) \<longleftrightarrow> find_record (se_id entry) e = Some r"
| "client_ok e (C_Cancel r) \<longleftrightarrow> (\<exists>i. find_record i e = Some r)"
| "client_ok e _ \<longleftrightarrow> True"

definition ids_ok :: "('t, 'j) engine \<Rightarrow> 't client list \<Rightarrow> bool" where
  "ids_ok e cs \<longleftrightarrow>
     (\<forall>i. find_record i e \<noteq> None \<longrightarrow>
        i < en_next_job_id e \<or> (\<exists>r submission. C_RestoreId r submission \<in> set cs \<and> sub_id submission = i)) \<and>
     (\<forall>i. count (tally client_reserved cs) i \<le> 1) \<and>
     (\<forall>i. i \<in># tally client_reserved cs \<longrightarrow> find_record i e = None \<and> i < en_next_job_id e) \<and>
     (list_ex submitting cs \<longrightarrow> \<not> list_ex restoring cs) \<and> length (filter restoring cs) \<le> 1"

definition exit_ok :: "('t, 'j) engine \<Rightarrow> worker list \<Rightarrow> bool" where
  "exit_ok e ws \<longleftrightarrow> (W_Exit \<in> set ws \<longrightarrow> tq_closed (en_queue e)) \<and>
     ((\<forall>w \<in> set ws. w = W_Exit) \<longrightarrow> tq_closed (en_queue e) \<and> queue_content (en_queue e) = {#})"

abbreviation queued :: "('t, 'j) engine \<Rightarrow> job_id multiset" where
  "queued e \<equiv> image_mset se_id (queue_content (en_queue e))"

definition engine_inv :: "('t, 'j) engine \<Rightarrow> worker list \<Rightarrow> 't client list \<Rightarrow> bool" where
  "engine_inv e ws cs \<longleftrightarrow>
     core e (queued e + tally worker_tokens ws + tally client_tokens cs) (tally worker_runs ws) \<and>
     queue_invar (en_queue e) \<and> (\<forall>w \<in> set ws. worker_ok e w) \<and> (\<forall>c \<in> set cs. client_ok e c) \<and>
     ids_ok e cs \<and> exit_ok e ws"

lemma ok_frame:
  assumes "\<And>k. find_record k e' = find_record k e"
  shows "worker_ok e' w = worker_ok e w" "client_ok e' c = client_ok e c"
  by (cases w; simp add: assms) (cases c; simp add: assms)

lemma ids_ok_frame:
  assumes "\<And>k. find_record k e' = find_record k e" "en_next_job_id e' = en_next_job_id e"
  shows "ids_ok e' cs = ids_ok e cs"
  by (simp add: ids_ok_def assms)

lemma tally_runs_tokens: "tally worker_runs ws \<subseteq># tally worker_tokens ws"
  by (rule tally_mono) (rule worker_runs_tokens)

text \<open>A step of a worker that leaves registry and counters alone.\<close>

lemma inv_worker_frame:
  assumes "engine_inv e (u @ w # v) cs" "\<And>k. find_record k e' = find_record k e" "en_next_job_id e' = en_next_job_id e"
    and "core e' (queued e' + (worker_tokens w' + tally worker_tokens (u @ v)) + tally client_tokens cs)
      (worker_runs w' + tally worker_runs (u @ v))"
    and "queue_invar (en_queue e')" "worker_ok e w'" "exit_ok e' (u @ w' # v)"
  shows "engine_inv e' (u @ w' # v) cs"
  using assms unfolding engine_inv_def ids_ok_frame [OF assms(2,3)] tally_mid
  by (simp add: ok_frame [OF assms(2)])

lemma exit_ok_frame:
  assumes "exit_ok e (u @ w # v)" "en_queue e' = en_queue e" "w \<noteq> W_Exit" "w' \<noteq> W_Exit"
  shows "exit_ok e' (u @ w' # v)"
  using assms by (auto simp: exit_ok_def)

lemma queue_update_simps [simp]:
  "rec_of (e\<lparr>en_queue := q\<rparr>) = rec_of e" "find_record k (e\<lparr>en_queue := q\<rparr>) = find_record k e"
  "registry_ok (e\<lparr>en_queue := q\<rparr>) = registry_ok e"
  by (simp_all add: rec_of_def find_record_def registry_ok_def fun_eq_iff)

lemma set_task_core:
  fixes e :: "('t, 'j) engine"
  assumes "core e T R" "find_record i e = Some r"
  shows "core (set_task r t e) T R \<and> frame e (set_task r t e)"
proof -
  let ?rec = "en_store e ! r"
  have pre: "published_ok ?rec" using section_premises(1) [OF assms] .
  define f where "f = (\<lambda>l :: ('t, 'j) locked. ((), (fst l)\<lparr>jr_task := t\<rparr>, snd l))"
  have w: "with_record r f e = ((), set_task r t e)"
    by (simp add: with_record_def set_task_def f_def)
  have run: "f (?rec, en_journal e) = ((), ?rec\<lparr>jr_task := t\<rparr>, en_journal e)"
    by (simp add: f_def)
  have ok: "section_ok ?rec (?rec\<lparr>jr_task := t\<rparr>)" using pre by (simp add: section_ok_def)
  have tok: "\<not> is_terminal (rec_state (?rec\<lparr>jr_task := t\<rparr>)) \<Longrightarrow> i \<in># T"
    using coreD(5) [OF assms(1) section_premises(2) [OF assms]] by simp
  have "count R i = (if rec_state (?rec\<lparr>jr_task := t\<rparr>) = Running then 1 else 0)"
    using section_premises(3) [OF assms] by simp
  from section_core [OF assms w run ok _ tok _ this] show ?thesis by blast
qed

section \<open>Workers keep the invariant\<close>

lemma inv_parts:
  assumes "engine_inv e (u @ w # v) cs"
  shows "core e (queued e + (worker_tokens w + tally worker_tokens (u @ v)) + tally client_tokens cs)
      (worker_runs w + tally worker_runs (u @ v))"
    "queue_invar (en_queue e)" "worker_ok e w" "exit_ok e (u @ w # v)"
  using assms unfolding engine_inv_def tally_mid by simp_all

lemma rest_runs: "tally worker_runs (u @ v) \<subseteq># queued e + tally worker_tokens (u @ v) + tally client_tokens cs"
  using tally_runs_tokens [of "u @ v"] by (simp add: subset_mset.add_increasing subset_mset.add_increasing2)

lemma inv_worker_section:
  assumes "engine_inv e (u @ w # v) cs" "frame e e'" "worker_ok e w'" "w \<noteq> W_Exit" "w' \<noteq> W_Exit"
    and "core e' (queued e + (worker_tokens w' + tally worker_tokens (u @ v)) + tally client_tokens cs)
      (worker_runs w' + tally worker_runs (u @ v))"
  shows "engine_inv e' (u @ w' # v) cs"
  using assms inv_parts [OF assms(1)]
  by (intro inv_worker_frame [OF assms(1)]) (auto simp: frame_def intro: exit_ok_frame)

lemma worker_step_inv:
  assumes "worker_step jo (e, w) (e', w')" "engine_inv e (u @ w # v) cs"
  shows "engine_inv e' (u @ w' # v) cs"
  using assms(1)
proof (cases rule: worker_step.cases)
  case (pop_none q)
  note p = inv_parts [OF assms(2)]
  have q: "q = en_queue e" "queue_content (en_queue e) = {#}" "tq_closed (en_queue e)"
    using tq.take_None [OF pop_none(5)] pop_none(4) by (auto simp: pop_ready_spec)
  then show ?thesis using p pop_none
    by (intro inv_worker_frame [OF assms(2)]) (simp_all add: exit_ok_def)
next
  case (pop_some d q)
  note p = inv_parts [OF assms(2)]
  have q: "tq_closed q = tq_closed (en_queue e)" "queue_invar q"
      "queue_content (en_queue e) = add_mset (dis_entry d) (queue_content q)"
    using tq.take_Some [OF pop_some(5)] p(2) by blast+
  then have "queued e = add_mset (se_id (dis_entry d)) (image_mset se_id (queue_content q))" by simp
  then have "core e' (queued e' + (worker_tokens w' + tally worker_tokens (u @ v)) + tally client_tokens cs)
      (worker_runs w' + tally worker_runs (u @ v))"
    using p(1) pop_some core_cong [of e _ _ e'] coreD(1) [OF p(1)] by (simp add: ac_simps)
  then show ?thesis using p q pop_some
    by (intro inv_worker_frame [OF assms(2)]) (auto simp: exit_ok_def)
next
  case (find_none d)
  then show ?thesis using coreD(4) [OF inv_parts(1) [OF assms(2)], of "se_id (dis_entry d)"]
    by (simp add: rec_of_None)
next
  case (find_some d r)
  then show ?thesis using inv_parts(1) [OF assms(2)] by (intro inv_worker_section [OF assms(2)]) simp_all
next
  case (start_ok now r d)
  let ?i = "se_id (dis_entry d)"
  note p = inv_parts [OF assms(2)]
  have "add_mset ?i (tally worker_runs (u @ v)) \<subseteq># add_mset ?i (queued e + tally worker_tokens (u @ v) + tally client_tokens cs)"
    using rest_runs by (rule mset_subset_eq_add_mset_cancel [THEN iffD2])
  then show ?thesis
    using worker_start_core [OF p(1), of ?i r jo now True e'] p(3) start_ok
    by (intro inv_worker_section [OF assms(2)]) (simp_all add: ac_simps)
next
  case (start_skip now r d)
  let ?i = "se_id (dis_entry d)"
  note p = inv_parts [OF assms(2)]
  have "add_mset ?i (tally worker_runs (u @ v)) \<subseteq># add_mset ?i (queued e + tally worker_tokens (u @ v) + tally client_tokens cs)"
    using rest_runs by (rule mset_subset_eq_add_mset_cancel [THEN iffD2])
  then show ?thesis
    using worker_start_core [OF p(1), of ?i r jo now False e'] p(3) start_skip
    by (intro inv_worker_section [OF assms(2)]) (simp_all add: ac_simps)
next
  case (run d r t outcome)
  note p = inv_parts [OF assms(2)]
  show ?thesis
    using set_task_core [OF p(1), of "se_id (dis_entry d)" r t] p(3) run
    by (intro inv_worker_section [OF assms(2)]) simp_all
next
  case (record_yield now result r d)
  note p = inv_parts [OF assms(2)]
  show ?thesis
    using worker_record_core [OF p(1), of "se_id (dis_entry d)" r jo now result True e'] p(3) record_yield
    by (intro inv_worker_section [OF assms(2)]) simp_all
next
  case (record_done now result r d)
  note p = inv_parts [OF assms(2)]
  show ?thesis
    using worker_record_core [OF p(1), of "se_id (dis_entry d)" r jo now result False e'] p(3) record_done
    by (intro inv_worker_section [OF assms(2)]) simp_all
next
  case (requeue d r)
  note p = inv_parts [OF assms(2)]
  have e: "se_id (jr_entry (en_store e ! r)) = se_id (dis_entry d)"
    using registry_okD(3) [OF coreD(1) [OF p(1)]] p(3) requeue by simp
  note q = tq.put_back_spec [of "jr_entry (en_store e ! r)" "en_queue e"]
  have "core e' (queued e' + (worker_tokens w' + tally worker_tokens (u @ v)) + tally client_tokens cs)
      (worker_runs w' + tally worker_runs (u @ v))"
    using p(1) requeue core_cong [of e _ _ e'] coreD(1) [OF p(1)] q e by (simp add: worker_requeue_def ac_simps)
  then show ?thesis using p q requeue
    by (intro inv_worker_frame [OF assms(2)]) (auto simp: exit_ok_def worker_requeue_def)
qed

section \<open>Clients keep the invariant\<close>

abbreviation continuation :: "'a option \<Rightarrow> 'a list" where
  "continuation c \<equiv> (case c of None \<Rightarrow> [] | Some c' \<Rightarrow> [c'])"

lemma ids_ok_swap:
  assumes "ids_ok e (b @ c # a)" "\<And>k. find_record k e' = find_record k e" "en_next_job_id e \<le> en_next_job_id e'"
    and "tally client_reserved (continuation n) \<subseteq># client_reserved c"
    and "list_ex submitting (continuation n) \<Longrightarrow> submitting c" "list_ex restoring (continuation n) \<Longrightarrow> restoring c"
    and "\<And>r submission. c = C_RestoreId r submission \<Longrightarrow> sub_id submission < en_next_job_id e'"
  shows "ids_ok e' (b @ continuation n @ a)"
  unfolding ids_ok_def
proof (intro conjI allI impI)
  fix i assume "find_record i e' \<noteq> None"
  then have "find_record i e \<noteq> None" by (simp add: assms(2))
  then have "i < en_next_job_id e \<or> (\<exists>r sb. C_RestoreId r sb \<in> set (b @ c # a) \<and> sub_id sb = i)"
    using assms(1) by (simp add: ids_ok_def)
  then show "i < en_next_job_id e' \<or> (\<exists>r sb. C_RestoreId r sb \<in> set (b @ continuation n @ a) \<and> sub_id sb = i)"
    using assms(3,7) by (auto intro: less_le_trans)
next
  have sub: "tally client_reserved (b @ continuation n @ a) \<subseteq># tally client_reserved (b @ c # a)"
    using assms(4) by (simp add: subset_mset.add_mono)
  show "count (tally client_reserved (b @ continuation n @ a)) i \<le> 1" for i
    using mset_subset_eq_count [OF sub, of i] assms(1) by (simp only: ids_ok_def) (meson le_trans)
  show "find_record i e' = None" "i < en_next_job_id e'"
    if "i \<in># tally client_reserved (b @ continuation n @ a)" for i
  proof -
    have "i \<in># tally client_reserved (b @ c # a)" using that mset_subset_eqD [OF sub] by blast
    then have "find_record i e = None \<and> i < en_next_job_id e" using assms(1) by (simp only: ids_ok_def)
    then show "find_record i e' = None" "i < en_next_job_id e'" using assms(2,3) by auto
  qed
next
  show "\<not> list_ex restoring (b @ continuation n @ a)" if "list_ex submitting (b @ continuation n @ a)"
    using that assms(1,5,6) by (cases n) (auto simp: ids_ok_def)
  show "length (filter restoring (b @ continuation n @ a)) \<le> 1"
    using assms(1,6) by (cases n) (auto simp: ids_ok_def split: if_splits)
qed

lemma inv_client_parts:
  assumes "engine_inv e ws (b @ c # a)"
  shows "core e (queued e + tally worker_tokens ws + (client_tokens c + tally client_tokens (b @ a))) (tally worker_runs ws)"
    "queue_invar (en_queue e)" "client_ok e c" "ids_ok e (b @ c # a)" "exit_ok e ws"
    "\<And>w. w \<in> set ws \<Longrightarrow> worker_ok e w" "\<And>c'. c' \<in> set (b @ a) \<Longrightarrow> client_ok e c'"
  using assms unfolding engine_inv_def tally_mid by auto

lemma ok_mono:
  assumes "\<And>k r. find_record k e = Some r \<Longrightarrow> find_record k e' = Some r"
  shows "worker_ok e w \<Longrightarrow> worker_ok e' w" "client_ok e c \<Longrightarrow> client_ok e' c"
  by (cases w; simp add: assms) (cases c; auto dest: assms)

lemma inv_client_intro:
  assumes "engine_inv e ws (b @ c # a)" "\<And>k r. find_record k e = Some r \<Longrightarrow> find_record k e' = Some r"
    and "core e' (queued e' + tally worker_tokens ws + (tally client_tokens (continuation n) + tally client_tokens (b @ a)))
      (tally worker_runs ws)"
    and "queue_invar (en_queue e')" "list_all (client_ok e') (continuation n)"
    and "ids_ok e' (b @ continuation n @ a)" "exit_ok e' ws"
  shows "engine_inv e' ws (b @ continuation n @ a)"
proof -
  have eq: "tally client_tokens (b @ continuation n @ a) = tally client_tokens (continuation n) + tally client_tokens (b @ a)"
    by (simp add: ac_simps)
  have "worker_ok e' w" if "w \<in> set ws" for w
    using ok_mono(1) [OF assms(2) inv_client_parts(6) [OF assms(1) that]] .
  moreover have "client_ok e' c'" if "c' \<in> set (b @ continuation n @ a)" for c'
    using that assms(5) ok_mono(2) [OF assms(2) inv_client_parts(7) [OF assms(1), of c']]
    by (auto simp: list_all_iff)
  ultimately show ?thesis
    using assms(3,4,6,7) unfolding engine_inv_def eq by blast
qed

text \<open>A client step that leaves registry and queue alone, apart from one locked section.\<close>

lemma inv_client_section:
  assumes "engine_inv e ws (b @ c # a)" "frame e e'"
    and "core e' (queued e + tally worker_tokens ws + (tally client_tokens (continuation n) + tally client_tokens (b @ a)))
      (tally worker_runs ws)"
    and "list_all (client_ok e) (continuation n)"
    and "tally client_reserved (continuation n) \<subseteq># client_reserved c"
    and "list_ex submitting (continuation n) \<Longrightarrow> submitting c" "list_ex restoring (continuation n) \<Longrightarrow> restoring c"
    and "\<And>r submission. c \<noteq> C_RestoreId r submission"
  shows "engine_inv e' ws (b @ continuation n @ a)"
proof (rule inv_client_intro [OF assms(1)])
  note p = inv_client_parts [OF assms(1)]
  have f: "\<And>k. find_record k e' = find_record k e" and q: "en_queue e' = en_queue e"
    and i: "en_next_job_id e' = en_next_job_id e" using assms(2) by (auto simp: frame_def)
  show "find_record k e = Some r \<Longrightarrow> find_record k e' = Some r" for k r by (simp add: f)
  show "core e' (queued e' + tally worker_tokens ws + (tally client_tokens (continuation n) + tally client_tokens (b @ a)))
      (tally worker_runs ws)" using assms(3) by (simp add: q)
  show "queue_invar (en_queue e')" using p(2) by (simp add: q)
  show "list_all (client_ok e') (continuation n)" using assms(4) by (simp add: list_all_iff ok_frame(2) [OF f])
  show "ids_ok e' (b @ continuation n @ a)"
    using assms(5-8) i by (intro ids_ok_swap [OF p(4) f]) auto
  show "exit_ok e' ws" using p(5) by (simp add: exit_ok_def q)
qed

lemma frame_core: "core e T R \<Longrightarrow> en_store e' = en_store e \<Longrightarrow> en_records e' = en_records e \<Longrightarrow> core e' T R"
  by (rule core_cong) (auto simp: registry_ok_def rec_of_def find_record_def fun_eq_iff dest: coreD(1))

text \<open>The journal and the sequence counter are invisible to the invariant.\<close>

lemma inv_client_local:
  fixes e e' :: "('t, 'j) engine"
  assumes "engine_inv e ws (b @ c # a)" "en_store e' = en_store e" "en_records e' = en_records e"
    "en_queue e' = en_queue e" "en_next_job_id e' = en_next_job_id e"
    and "tally client_tokens (continuation n) = client_tokens c" "list_all (client_ok e) (continuation n)"
    and "tally client_reserved (continuation n) \<subseteq># client_reserved c"
    and "list_ex submitting (continuation n) \<Longrightarrow> submitting c" "list_ex restoring (continuation n) \<Longrightarrow> restoring c"
    and "\<And>r submission. c \<noteq> C_RestoreId r submission"
  shows "engine_inv e' ws (b @ continuation n @ a)"
proof (rule inv_client_section [OF assms(1)])
  show "frame e e'" using assms(2-5) by (simp add: frame_def find_record_def)
  show "core e' (queued e + tally worker_tokens ws + (tally client_tokens (continuation n) + tally client_tokens (b @ a)))
      (tally worker_runs ws)"
    using frame_core [OF inv_client_parts(1) [OF assms(1)] assms(2,3)] assms(6) by simp
qed (use assms in auto)

text \<open>Taking an ID, advancing the counter of IDs, and registering a new job.\<close>

lemma u64_less_Suc: "(w :: u64) \<noteq> 0xFFFFFFFFFFFFFFFF \<Longrightarrow> w < w + 1"
proof -
  assume w: "w \<noteq> 0xFFFFFFFFFFFFFFFF"
  have "unat w \<noteq> unat (0xFFFFFFFFFFFFFFFF :: u64)" using w by (simp only: word_unat_eq_iff [symmetric] not_False_eq_True)
  then have "unat w + 1 < 2 ^ 64" using unat_less_2p64 [of w] by simp
  then show ?thesis by (simp add: word_less_nat_alt unat_Suc_no_wrap)
qed

lemma reserved_submitting: "i \<in># tally client_reserved cs \<Longrightarrow> list_ex submitting cs"
proof (induction cs)
  case (Cons c cs)
  then show ?case by (cases c) auto
qed simp

lemma ids_ok_submit_id:
  assumes "ids_ok e (b @ C_SubmitId t options # a)" "en_next_job_id e \<noteq> 0xFFFFFFFFFFFFFFFF"
    "e' = e\<lparr>en_next_job_id := en_next_job_id e + 1\<rparr>"
  shows "ids_ok e' (b @ C_SubmitSeq t options (en_next_job_id e) # a)"
proof -
  let ?n = "en_next_job_id e"
  have lt: "?n < ?n + 1" by (rule u64_less_Suc [OF assms(2)])
  have find: "find_record k e' = find_record k e" for k by (simp add: assms(3) find_record_def)
  have none: "\<not> list_ex restoring (b @ C_SubmitId t options # a)" using assms(1) by (simp add: ids_ok_def)
  then have no_id: "C_RestoreId r submission \<notin> set (b @ C_SubmitId t options # a)" for r submission
    by (metis list_ex_iff restoring.simps(3))
  have old: "find_record k e \<noteq> None \<Longrightarrow> k < ?n" for k
    using assms(1) no_id unfolding ids_ok_def by blast
  have res: "count (tally client_reserved (b @ a)) k \<le> 1"
      "k \<in># tally client_reserved (b @ a) \<Longrightarrow> find_record k e = None \<and> k < ?n" for k
    using assms(1) by (auto simp: ids_ok_def)
  have fresh: "?n \<notin># tally client_reserved (b @ a)" using res(2) by blast
  show ?thesis
    unfolding ids_ok_def tally_mid find
  proof (intro conjI allI impI)
    fix i
    show "i < en_next_job_id e' \<or> (\<exists>r sb. C_RestoreId r sb \<in> set (b @ C_SubmitSeq t options ?n # a) \<and> sub_id sb = i)"
      if "find_record i e \<noteq> None" using less_trans [OF old [OF that] lt] by (simp add: assms(3))
    show "count (client_reserved (C_SubmitSeq t options ?n) + tally client_reserved (b @ a)) i \<le> 1"
      using res(1) [of i] fresh by (auto simp: count_eq_zero_iff)
    have next_free: "find_record ?n e = None" using old [of ?n] by blast
    show "find_record i e = None" "i < en_next_job_id e'"
      if "i \<in># client_reserved (C_SubmitSeq t options ?n) + tally client_reserved (b @ a)"
      using that res(2) [of i] next_free lt less_trans [of i ?n "?n + 1"] by (auto simp: assms(3))
  qed (use none assms(1) in \<open>auto simp: ids_ok_def\<close>)
qed

lemma advance_counter_le: "c \<le> advance_counter [] c d" "d \<le> advance_counter [] c d"
  by (auto simp: not_less less_imp_le)

lemma inv_advance_id:
  assumes "engine_inv e ws (b @ c # a)" "e' = advance_job_id [] submission e"
    and "tally client_tokens (continuation n) = client_tokens c" "list_all (client_ok e) (continuation n)"
    and "tally client_reserved (continuation n) \<subseteq># client_reserved c"
    and "list_ex submitting (continuation n) \<Longrightarrow> submitting c" "list_ex restoring (continuation n) \<Longrightarrow> restoring c"
    and "\<And>r sb. c = C_RestoreId r sb \<Longrightarrow> sb = submission"
  shows "engine_inv e' ws (b @ continuation n @ a)"
proof (rule inv_client_intro [OF assms(1)])
  note p = inv_client_parts [OF assms(1)]
  have e': "en_store e' = en_store e" "en_records e' = en_records e" "en_queue e' = en_queue e"
    "en_next_job_id e' = advance_counter [] (en_next_job_id e) (sub_id submission + 1)"
    by (simp_all add: assms(2) advance_job_id_def)
  have find: "find_record k e' = find_record k e" for k by (simp add: find_record_def e')
  show "find_record k e = Some r \<Longrightarrow> find_record k e' = Some r" for k r by (simp add: find)
  show "core e' (queued e' + tally worker_tokens ws + (tally client_tokens (continuation n) + tally client_tokens (b @ a)))
      (tally worker_runs ws)"
    using frame_core [OF p(1) e'(1,2)] assms(3) by (simp add: e')
  show "queue_invar (en_queue e')" using p(2) by (simp add: e')
  show "list_all (client_ok e') (continuation n)" using assms(4) by (simp add: list_all_iff ok_frame(2) [OF find])
  show "exit_ok e' ws" using p(5) by (simp add: exit_ok_def e')
  show "ids_ok e' (b @ continuation n @ a)"
  proof (rule ids_ok_swap [OF p(4) find])
    show "en_next_job_id e \<le> en_next_job_id e'" unfolding e'(4) by (rule advance_counter_le)
    fix r sb assume c: "c = C_RestoreId r sb"
    then have "sub_id submission \<noteq> 0xFFFFFFFFFFFFFFFF" using p(3) assms(8) by auto
    then have "sub_id submission < en_next_job_id e'"
      unfolding e'(4) using u64_less_Suc advance_counter_le(2) by (meson less_le_trans)
    then show "sub_id sb < en_next_job_id e'" using assms(8) c by auto
  qed (use assms in auto)
qed

lemma inv_emplace:
  assumes "engine_inv e ws (b @ c # a)" "client_tokens c = {#}" "find_record i e = None"
    and "registry_emplace i rec e = (inserted, r, e')"
    and "snap_id (jr_snapshot rec) = i" "se_id (jr_entry rec) = i" "published_ok rec" "rec_state rec = Ready"
    and "client_tokens c' = {#i#}" "find_record i e' = Some r \<Longrightarrow> client_ok e' c'"
    and "(\<And>k. find_record k e' = (if k = i then Some r else find_record k e)) \<Longrightarrow>
      en_next_job_id e' = en_next_job_id e \<Longrightarrow> ids_ok e' (b @ c' # a)"
  shows "engine_inv e' ws (b @ continuation (Some c') @ a)"
proof (rule inv_client_intro [OF assms(1)])
  note p = inv_client_parts [OF assms(1)]
  note new = registry_emplace_new [OF coreD(1) [OF p(1)] assms(3,5,6,4)]
  then have find: "find_record k e' = (if k = i then Some r else find_record k e)" for k by simp
  show "find_record k e = Some q \<Longrightarrow> find_record k e' = Some q" for k q using assms(3) by (auto simp: find)
  have "core e' (add_mset i (queued e + tally worker_tokens ws + (client_tokens c + tally client_tokens (b @ a))))
      (tally worker_runs ws)"
    using new assms(3,7,8) by (intro core_new [OF p(1)]) (simp_all add: rec_of_None)
  then show "core e' (queued e' + tally worker_tokens ws + (tally client_tokens (continuation (Some c')) + tally client_tokens (b @ a)))
      (tally worker_runs ws)" using new assms(2,9) by simp
  show "queue_invar (en_queue e')" using p(2) new by simp
  show "list_all (client_ok e') (continuation (Some c'))" using assms(10) new by simp
  show "ids_ok e' (b @ continuation (Some c') @ a)" using assms(11) [OF find] new by simp
  show "exit_ok e' ws" using p(5) new by (simp add: exit_ok_def)
qed

lemma inv_submit_emplace:
  assumes "engine_inv e ws (b @ C_SubmitEmplace t snapshot entry # a)"
    "registry_emplace (snap_id snapshot) (JobRecord snapshot entry t) e = (inserted, r, e')"
  shows "engine_inv e' ws (b @ continuation (Some (C_Push r entry message)) @ a)"
proof -
  let ?c = "C_SubmitEmplace t snapshot entry" and ?i = "snap_id snapshot"
  note p = inv_client_parts [OF assms(1)]
  have ids: "ids_ok e (b @ ?c # a)" by (rule p(4))
  have res: "count (add_mset ?i (tally client_reserved (b @ a))) k \<le> 1"
      "k \<in># add_mset ?i (tally client_reserved (b @ a)) \<Longrightarrow> find_record k e = None \<and> k < en_next_job_id e" for k
    using ids unfolding ids_ok_def tally_mid by (simp, auto)
  have i: "find_record ?i e = None" "?i < en_next_job_id e" "?i \<notin># tally client_reserved (b @ a)"
    using res(2) [of ?i] res(1) [of ?i] by (simp_all add: count_eq_zero_iff)
  show ?thesis
  proof (rule inv_emplace [OF assms(1) _ i(1) assms(2)])
    assume find: "\<And>k. find_record k e' = (if k = ?i then Some r else find_record k e)"
      and nxt: "en_next_job_id e' = en_next_job_id e"
    have old: "k < en_next_job_id e \<or> (\<exists>q sb. C_RestoreId q sb \<in> set (b @ C_Push r entry message # a) \<and> sub_id sb = k)"
      if "find_record k e \<noteq> None" for k
      using ids that unfolding ids_ok_def by fastforce
    show "ids_ok e' (b @ C_Push r entry message # a)"
      unfolding ids_ok_def tally_mid find nxt
    proof (intro conjI allI impI)
      show "k < en_next_job_id e \<or> (\<exists>q sb. C_RestoreId q sb \<in> set (b @ C_Push r entry message # a) \<and> sub_id sb = k)"
        if "(if k = ?i then Some r else find_record k e) \<noteq> None" for k
        using that old [of k] i(2) by (cases "k = ?i") auto
      show "count (client_reserved (C_Push r entry message) + tally client_reserved (b @ a)) k \<le> 1" for k
        using res(1) [of k] by (simp split: if_splits)
      show "(if k = ?i then Some r else find_record k e) = None" "k < en_next_job_id e"
        if "k \<in># client_reserved (C_Push r entry message) + tally client_reserved (b @ a)" for k
        using that res(2) [of k] i(3) by auto
    qed (use ids in \<open>auto simp: ids_ok_def\<close>)
  qed (use p(3) in \<open>simp_all add: JobRecord_def published_ok_def\<close>)
qed

lemma inv_restore_emplace:
  assumes "engine_inv e ws (b @ C_RestoreEmplace t submission # a)"
    "registry_emplace (sub_id submission)
       (JobRecord (restore_snapshot now submission) (restore_entry submission) t) e = (True, r, e')"
  shows "engine_inv e' ws (b @ continuation (Some (C_RestoreId r submission)) @ a)"
proof -
  let ?c = "C_RestoreEmplace t submission" and ?i = "sub_id submission"
  note p = inv_client_parts [OF assms(1)]
  have ids: "ids_ok e (b @ ?c # a)" by (rule p(4))
  have i: "find_record ?i e = None" using registry_emplace_old [OF coreD(1) [OF p(1)] _ assms(2)] by blast
  have none: "k \<notin># tally client_reserved (b @ a)" for k
    using ids reserved_submitting [of k "b @ a"] by (auto simp: ids_ok_def)
  show ?thesis
  proof (rule inv_emplace [OF assms(1) _ i assms(2)])
    assume find: "\<And>k. find_record k e' = (if k = ?i then Some r else find_record k e)"
      and nxt: "en_next_job_id e' = en_next_job_id e"
    show "ids_ok e' (b @ C_RestoreId r submission # a)"
      unfolding ids_ok_def tally_mid find nxt
    proof (intro conjI allI impI)
      show "k < en_next_job_id e \<or> (\<exists>q sb. C_RestoreId q sb \<in> set (b @ C_RestoreId r submission # a) \<and> sub_id sb = k)"
        if "(if k = ?i then Some r else find_record k e) \<noteq> None" for k
        using that ids unfolding ids_ok_def by (cases "k = ?i") fastforce+
      show "count (client_reserved (C_RestoreId r submission) + tally client_reserved (b @ a)) k \<le> 1" for k
        using none [of k] by (simp add: count_eq_zero_iff [symmetric])
    qed (use none ids in \<open>auto simp: ids_ok_def\<close>)
  qed (use p(3) in \<open>simp_all add: JobRecord_def published_ok_def restore_snapshot_def restore_entry_def\<close>)
qed

lemma engine_push_parts:
  assumes "engine_push entry e = (ok, e')"
  shows "\<exists>q. push_external entry (en_queue e) = (ok, q) \<and> e' = e\<lparr>en_queue := q\<rparr>"
  using assms by (auto simp: engine_push_def map_snd_eq_Pair_iff)

lemma shutdown_close_parts:
  assumes "shutdown_close mode e = (pending, e')"
  shows "\<exists>q. close_and_drain_pending (mode = CancelPending) (en_queue e) = (pending, q) \<and> e' = e\<lparr>en_queue := q\<rparr>"
  using assms by (auto simp: shutdown_close_def map_snd_eq_Pair_iff)

text \<open>A client step on the queue.\<close>

lemma inv_client_queue:
  assumes "engine_inv e ws (b @ c # a)" "e' = e\<lparr>en_queue := q\<rparr>" "queue_invar q"
    and "image_mset se_id (queue_content q) + tally client_tokens (continuation n) = queued e + client_tokens c"
    and "list_all (client_ok e) (continuation n)" "exit_ok e' ws"
    and "tally client_reserved (continuation n) \<subseteq># client_reserved c"
    and "list_ex submitting (continuation n) \<Longrightarrow> submitting c" "list_ex restoring (continuation n) \<Longrightarrow> restoring c"
    and "\<And>r submission. c \<noteq> C_RestoreId r submission"
  shows "engine_inv e' ws (b @ continuation n @ a)"
proof (rule inv_client_intro [OF assms(1)])
  note p = inv_client_parts [OF assms(1)]
  have find: "find_record k e' = find_record k e" for k by (simp add: assms(2))
  show "find_record k e = Some r \<Longrightarrow> find_record k e' = Some r" for k r by (simp add: find)
  have "queued e' + tally worker_tokens ws + (tally client_tokens (continuation n) + tally client_tokens (b @ a)) =
      (image_mset se_id (queue_content q) + tally client_tokens (continuation n)) + tally worker_tokens ws + tally client_tokens (b @ a)"
    by (simp add: assms(2) ac_simps)
  also have "\<dots> = queued e + tally worker_tokens ws + (client_tokens c + tally client_tokens (b @ a))"
    unfolding assms(4) by (simp add: ac_simps)
  finally have eq: "queued e' + tally worker_tokens ws + (tally client_tokens (continuation n) + tally client_tokens (b @ a)) =
      queued e + tally worker_tokens ws + (client_tokens c + tally client_tokens (b @ a))" .
  show "core e' (queued e' + tally worker_tokens ws + (tally client_tokens (continuation n) + tally client_tokens (b @ a)))
      (tally worker_runs ws)"
    unfolding eq using coreD(1) [OF p(1)] by (intro core_cong [OF p(1)]) (simp_all add: assms(2))
  show "queue_invar (en_queue e')" using assms(3) by (simp add: assms(2))
  show "list_all (client_ok e') (continuation n)" using assms(5) by (simp add: list_all_iff ok_frame(2) [OF find])
  show "ids_ok e' (b @ continuation n @ a)"
    using assms(7-10) by (intro ids_ok_swap [OF p(4) find]) (auto simp: assms(2))
qed fact

text \<open>Finishing the tokens that a client holds.\<close>

lemma inv_client_drop:
  assumes "engine_inv e ws (b @ c # a)" "frame e e'"
    and "core e' (queued e + tally worker_tokens ws + tally client_tokens (b @ a)) (tally worker_runs ws)"
    and "n = None \<or> n = Some C_Join" "\<And>r submission. c \<noteq> C_RestoreId r submission"
  shows "engine_inv e' ws (b @ continuation n @ a)"
  using assms by (intro inv_client_section [OF assms(1,2)]) auto

lemma client_rest_runs: "tally worker_runs ws \<subseteq># queued e + tally worker_tokens ws + tally client_tokens cs"
  using tally_runs_tokens [of ws] by (simp add: subset_mset.add_increasing subset_mset.add_increasing2)

lemma client_finish_inv:
  assumes "engine_inv e ws (b @ C_Finish r entry message # a)"
  shows "engine_inv (finish_record jo now Cancelled message r e) ws (b @ continuation None @ a)"
proof -
  let ?i = "se_id entry" and ?T = "queued e + tally worker_tokens ws + tally client_tokens (b @ a)"
  note p = inv_client_parts [OF assms]
  have c: "core e (add_mset ?i ?T) (tally worker_runs ws)" using p(1) by (simp add: ac_simps)
  have "add_mset ?i (tally worker_runs ws) \<subseteq># add_mset ?i ?T"
    using client_rest_runs by (rule mset_subset_eq_add_mset_cancel [THEN iffD2])
  from finish_record_core [OF c _ this, of r jo now message] show ?thesis
    using p(3) by (intro inv_client_drop [OF assms]) simp_all
qed

lemma client_pending_inv:
  assumes "engine_inv e ws (b @ C_CancelPending pending # a)"
  shows "engine_inv (cancel_pending jo now pending e) ws (b @ continuation (Some C_Join) @ a)"
proof -
  let ?T = "queued e + tally worker_tokens ws + tally client_tokens (b @ a)"
  note p = inv_client_parts [OF assms]
  have c: "core e (image_mset se_id (mset pending) + ?T) (tally worker_runs ws)" using p(1) by (simp add: ac_simps)
  from cancel_pending_core [OF c client_rest_runs, of jo now] show ?thesis
    by (intro inv_client_drop [OF assms]) simp_all
qed

lemma journal_frame:
  assumes "submit_journal jo snapshot options e = (x, e') \<or> restore_journal jo submission e = (x, e')"
  shows "en_store e' = en_store e" "en_records e' = en_records e" "en_queue e' = en_queue e"
    "en_next_job_id e' = en_next_job_id e"
  using assms by (auto simp: submit_journal_def restore_journal_def split: option.splits if_splits prod.splits)

lemma client_push_inv:
  assumes "engine_inv e ws (b @ C_Push r entry message # a)" "engine_push entry e = (ok, e')"
  shows "engine_inv e' ws (b @ continuation (if ok then None else Some (C_Finish r entry message)) @ a)"
proof -
  note p = inv_client_parts [OF assms(1)]
  obtain q where q: "push_external entry (en_queue e) = (ok, q)" "e' = e\<lparr>en_queue := q\<rparr>"
    using engine_push_parts [OF assms(2)] by blast
  note spec = tq.push_spec [OF q(1)]
  have "exit_ok e' ws" using p(5) spec q(2) by (cases ok) (auto simp: exit_ok_def)
  then show ?thesis
    using p(2,3) spec q(2) by (intro inv_client_queue [OF assms(1) q(2)]) (auto simp: ac_simps)
qed

lemma client_close_inv:
  assumes "engine_inv e ws (b @ C_Close mode # a)" "shutdown_close mode e = (pending, e')"
  shows "engine_inv e' ws (b @ continuation (Some (if mode = Drain then C_Join else C_CancelPending pending)) @ a)"
proof -
  note p = inv_client_parts [OF assms(1)]
  obtain q where q: "close_and_drain_pending (mode = CancelPending) (en_queue e) = (pending, q)" "e' = e\<lparr>en_queue := q\<rparr>"
    using shutdown_close_parts [OF assms(2)] by blast
  note spec = tq.close_spec [OF q(1)]
  have "mset pending + queue_content q = queue_content (en_queue e)" using spec by blast
  then have toks: "image_mset se_id (mset pending) + image_mset se_id (queue_content q) = queued e"
    by (metis image_mset_union)
  have "queue_content q \<subseteq># queue_content (en_queue e)"
    using spec by (metis mset_subset_eq_add_right)
  then have "exit_ok e' ws" using p(5) spec q(2) by (auto simp: exit_ok_def)
  then show ?thesis
    using p(2) spec toks by (cases mode; intro inv_client_queue [OF assms(1) q(2)]) (auto simp: ac_simps)
qed

lemma client_step_inv:
  assumes "client_step jo (e, c) (e', n)" "engine_inv e ws (b @ c # a)"
  shows "engine_inv e' ws (b @ continuation n @ a)"
  using assms(1)
proof (cases rule: client_step.cases)
  case (submit_id i t options)
  note p = inv_client_parts [OF assms(2)]
  have e': "e' = e\<lparr>en_next_job_id := en_next_job_id e + 1\<rparr>" "i = en_next_job_id e"
    using submit_id by (auto simp: take_job_id_def)
  have find: "find_record k e' = find_record k e" for k by (simp add: e' find_record_def)
  have "ids_ok e' (b @ C_SubmitSeq t options (en_next_job_id e) # a)"
    using p(4) submit_id e' by (intro ids_ok_submit_id) simp_all
  moreover have "core e' (queued e + tally worker_tokens ws + (client_tokens c + tally client_tokens (b @ a))) (tally worker_runs ws)"
    using p(1) by (rule frame_core) (simp_all add: e')
  ultimately show ?thesis
    using p submit_id find e'
    by (intro inv_client_intro [OF assms(2)]) (simp_all add: exit_ok_def)
next
  case (submit_seq sequence t options i)
  then show ?thesis
    by (intro inv_client_local [OF assms(2)]) (auto simp: take_sequence_def)
next
  case (submit_journal_ok snapshot now i sequence options t)
  then show ?thesis
    by (intro inv_client_local [OF assms(2)] journal_frame [OF disjI1])
      (auto simp: submit_snapshot_def submit_entry_def)
next
  case (submit_journal_throw now i sequence options error t)
  then show ?thesis
    by (intro inv_client_local [OF assms(2)] journal_frame [OF disjI1]) auto
next
  case (submit_emplace snapshot entry t inserted r)
  then show ?thesis using inv_submit_emplace [of e ws b t snapshot entry a] assms(2) by simp
next
  case (restore_journal_ok submission t)
  then show ?thesis using inv_client_parts(3) [OF assms(2)]
    by (intro inv_client_local [OF assms(2)] journal_frame [OF disjI2]) auto
next
  case (restore_journal_throw submission error t)
  then show ?thesis
    by (intro inv_client_local [OF assms(2)] journal_frame [OF disjI2]) auto
next
  case (restore_emplace_ok submission now t r)
  then show ?thesis using inv_restore_emplace [of e ws b t submission a] assms(2) by simp
next
  case (restore_emplace_throw submission now t r)
  note p = inv_client_parts [OF assms(2)]
  have "find_record (sub_id submission) e \<noteq> None"
    using registry_emplace_new [OF coreD(1) [OF p(1)] _ _ _ restore_emplace_throw(3)]
    by (auto simp: JobRecord_def restore_snapshot_def restore_entry_def)
  note old = registry_emplace_old [OF coreD(1) [OF p(1)] this restore_emplace_throw(3)]
  then have "frame e e'" "core e' (queued e + tally worker_tokens ws + tally client_tokens (b @ a)) (tally worker_runs ws)"
    using core_cong [OF p(1), of e'] restore_emplace_throw by (simp_all add: frame_def)
  then show ?thesis using restore_emplace_throw by (intro inv_client_drop [OF assms(2)]) simp_all
next
  case (restore_id r submission)
  then show ?thesis using inv_client_parts(3) [OF assms(2)]
    by (intro inv_advance_id [OF assms(2)]) auto
next
  case (restore_seq r submission)
  then show ?thesis using inv_client_parts(3) [OF assms(2)]
    by (intro inv_client_local [OF assms(2)]) (auto simp: advance_sequence_def restore_entry_def)
next
  case (push_ok entry r message)
  then show ?thesis using client_push_inv [of e ws b r entry message a True e'] assms(2) by simp
next
  case (push_closed entry r message)
  then show ?thesis using client_push_inv [of e ws b r entry message a False e'] assms(2) by simp
next
  case (finish r entry message now)
  then show ?thesis using client_finish_inv assms(2) by blast
next
  case (reserve_id submission)
  then show ?thesis by (intro inv_advance_id [OF assms(2)]) auto
next
  case (reserve_seq submission)
  then show ?thesis by (intro inv_client_local [OF assms(2)]) (auto simp: advance_sequence_def)
next
  case (cancel now r x)
  note p = inv_client_parts [OF assms(2)]
  obtain i where "find_record i e = Some r" using p(3) cancel by auto
  from cancel_record_core [OF p(1) this cancel(3)] show ?thesis
    using cancel by (intro inv_client_drop [OF assms(2)]) simp_all
next
  case (set_scheduler_ok config q)
  note p = inv_client_parts [OF assms(2)]
  note spec = tq.reconfigure_spec [OF set_scheduler_ok(4)]
  have "exit_ok e' ws" using p(5) spec set_scheduler_ok by (auto simp: exit_ok_def)
  then show ?thesis using spec set_scheduler_ok by (intro inv_client_queue [OF assms(2), where q = q]) auto
next
  case (set_scheduler_throw config error)
  then show ?thesis by (intro inv_client_local [OF assms(2)]) auto
next
  case (shutdown mode)
  then show ?thesis by (intro inv_client_local [OF assms(2)]) (auto simp: shutdown_stop_accepting_def)
next
  case (close_drain pending)
  then show ?thesis using client_close_inv [of e ws b Drain a pending e'] assms(2) by simp
next
  case (close_cancel pending)
  then show ?thesis using client_close_inv [of e ws b CancelPending a pending e'] assms(2) by simp
next
  case (cancel_pending pending now)
  then show ?thesis using client_pending_inv assms(2) by blast
qed

section \<open>Reachable states\<close>

abbreviation sys_inv :: "('t, 'j) system \<Rightarrow> bool" where
  "sys_inv s \<equiv> engine_inv (sys_engine s) (sys_workers s) (sys_clients s)"

lemma inv_call:
  assumes "engine_inv e ws cs" "client_tokens c = {#}" "client_reserved c = {#}" "client_ok e c"
    and "submitting c \<Longrightarrow> \<not> list_ex restoring cs" "restoring c \<Longrightarrow> \<not> list_ex submitting cs \<and> \<not> list_ex restoring cs"
  shows "engine_inv e ws (c # cs)"
proof -
  have ids: "ids_ok e cs" using assms(1) by (simp add: engine_inv_def)
  have "filter restoring cs = []" if "\<not> list_ex restoring cs"
    using that by (auto simp: list_ex_iff filter_empty_conv)
  moreover have "length (filter restoring cs) \<le> 1" using ids by (simp add: ids_ok_def)
  ultimately have one: "length (filter restoring (c # cs)) \<le> 1" using assms(6) by auto
  have "list_ex submitting cs \<longrightarrow> \<not> list_ex restoring cs" using ids by (simp add: ids_ok_def)
  then have excl: "list_ex submitting (c # cs) \<longrightarrow> \<not> list_ex restoring (c # cs)"
    using assms(5,6) by (cases c) simp_all
  have "k < en_next_job_id e \<or> (\<exists>r sb. C_RestoreId r sb \<in> set (c # cs) \<and> sub_id sb = k)"
    if "find_record k e \<noteq> None" for k
  proof -
    have "k < en_next_job_id e \<or> (\<exists>r sb. C_RestoreId r sb \<in> set cs \<and> sub_id sb = k)"
      using ids that unfolding ids_ok_def by blast
    then show ?thesis by auto
  qed
  then have "ids_ok e (c # cs)"
    using ids excl one assms(3) by (simp add: ids_ok_def)
  then show ?thesis using assms by (simp add: engine_inv_def)
qed

lemma step_inv: "step jo s s' \<Longrightarrow> sys_inv s \<Longrightarrow> sys_inv s'"
proof (induction rule: step.induct)
  case (worker k s e' w')
  let ?ws = "sys_workers s"
  obtain u v where ws: "?ws = u @ ?ws ! k # v" "?ws[k := w'] = u @ w' # v"
    using worker(1) by (metis id_take_nth_drop upd_conv_take_nth_drop)
  then have "engine_inv (sys_engine s) (u @ ?ws ! k # v) (sys_clients s)" using worker(3) by simp
  then show ?case using worker_step_inv [OF worker(2)] ws by simp
next
  case (client s before c after e' cont)
  then show ?case using client_step_inv [of jo "sys_engine s" c e' cont] by simp
next
  case (call_submit task options s t)
  then show ?case by (auto simp: list_all_iff list_ex_iff intro!: inv_call)
next
  case (call_restore task submission s t)
  then show ?case by (auto simp: list_all_iff list_ex_iff intro!: inv_call)
next
  case (join s before after)
  have "tally worker_tokens ws = {#} \<and> tally worker_runs ws = {#}" if "\<forall>w \<in> set ws. w = W_Exit" for ws
    using that by (induction ws) auto
  moreover have "\<forall>w \<in> set (sys_workers s). w = W_Exit" using join(2) by (simp add: list_all_iff)
  moreover have "ids_ok (sys_engine s) (before @ after)"
    using join(1,3) ids_ok_swap [of "sys_engine s" before C_Join after "sys_engine s" None]
    by (simp add: engine_inv_def)
  ultimately show ?case using join(1,3) by (auto simp: engine_inv_def exit_ok_def)
qed (auto intro!: inv_call)

lemma initial_inv: "initial hc config s \<Longrightarrow> sys_inv s"
proof -
  assume i: "initial hc config s"
  have no: "tally worker_tokens (replicate k W_Pop) = {#} \<and> tally worker_runs (replicate k W_Pop) = {#}" for k
    by (induction k) simp_all
  obtain q where q: "make_scheduler (ec_scheduler config) = Inr q"
      "en_queue (sys_engine s) = \<lparr>tq_scheduler = q, tq_config = ec_scheduler config, tq_closed = False\<rparr>"
      "en_records (sys_engine s) = []" "0 < en_worker_count (sys_engine s)"
    using i by (cases "make_scheduler (ec_scheduler config)")
      (auto simp: initial_def TaskEngine_Inr_iff TaskQueue_def resolved_worker_count_def
        simp del: make_scheduler.simps dest!: sym [of _ "sys_engine s"])
  note k = make_scheduler_kind [OF q(1)]
  have "rec_of (sys_engine s) j = None" "find_record j (sys_engine s) = None" for j
    by (simp_all add: rec_of_def find_record_def q(3))
  then show ?thesis
    using i k q no
    by (auto simp: engine_inv_def core_def registry_ok_def state_of_def initial_def ids_ok_def exit_ok_def)
qed

lemma reachable_inv: "reachable jo s \<Longrightarrow> sys_inv s"
proof -
  assume "reachable jo s"
  then obtain hc config s0 where s0: "initial hc config s0" "(step jo)\<^sup>*\<^sup>* s0 s" by (auto simp: reachable_def)
  from s0(2) show ?thesis by (induction rule: rtranclp_induct) (auto intro: initial_inv [OF s0(1)] step_inv)
qed

section \<open>Properties of the running engine\<close>

text \<open>
  C5 (results are published exactly once).  In every reachable state, whatever the interleaving of
  submissions, cancellations, workers and shutdown, the promise of a registered job has been set
  exactly once if the job is in a terminal state, to the job's ID, final state, message and work,
  and not at all otherwise.
\<close>

theorem result_published_once:
  assumes "reachable jo s" "rec_of (sys_engine s) i = Some rec"
  shows "jr_promise rec = (if is_terminal (snap_state (jr_snapshot rec))
    then [\<lparr>res_id = i, res_state = snap_state (jr_snapshot rec), res_message = snap_message (jr_snapshot rec),
           res_work_units_consumed = snap_work_units_consumed (jr_snapshot rec)\<rparr>] else [])"
proof -
  have c: "core (sys_engine s) (queued (sys_engine s) + tally worker_tokens (sys_workers s) + tally client_tokens (sys_clients s))
      (tally worker_runs (sys_workers s))"
    using reachable_inv [OF assms(1)] by (simp add: engine_inv_def)
  obtain r where r: "find_record i (sys_engine s) = Some r" "rec = en_store (sys_engine s) ! r"
    using assms(2) by (auto simp: rec_of_def)
  then have "snap_id (jr_snapshot rec) = i" using registry_okD(2) [OF coreD(1) [OF c]] by simp
  then show ?thesis using coreD(2) [OF c assms(2)] by (simp add: published_ok_def result_of_def)
qed

text \<open>Whether a worker is inside \<open>run_slice\<close> of the record \<open>r\<close>, or about to record its outcome.\<close>

fun runs_record :: "worker \<Rightarrow> nat \<Rightarrow> bool" where
  "runs_record (W_Run d q) r \<longleftrightarrow> q = r"
| "runs_record (W_Record d q result) r \<longleftrightarrow> q = r"
| "runs_record _ r \<longleftrightarrow> False"

lemma tally_two:
  assumes "k < length xs" "l < length xs" "k \<noteq> l" "i \<in># f (xs ! k)" "i \<in># f (xs ! l)"
  shows "2 \<le> count (tally f xs) i"
  using assms
proof (induction xs arbitrary: k l)
  case (Cons x xs)
  have one: "1 \<le> count (tally f xs) i" if "m < length xs" "i \<in># f (xs ! m)" for m
    using that by (metis One_nat_def Suc_leI count_greater_zero_iff id_take_nth_drop tally_mid union_iff)
  show ?case
  proof (cases "k = 0 \<or> l = 0")
    case True
    then obtain m where "m < length xs" "i \<in># f (xs ! m)" "i \<in># f x"
      using Cons.prems by (auto simp: nth_Cons split: nat.splits)
    then have "1 \<le> count (tally f xs) i" "1 \<le> count (f x) i" using one [of m] by (simp_all add: Suc_le_eq)
    from add_mono [OF this] show ?thesis by (simp add: add.commute)
  next
    case False
    then have "2 \<le> count (tally f xs) i"
      using Cons.prems by (intro Cons.IH [of "k - 1" "l - 1"]) (auto simp: nth_Cons')
    then show ?thesis by simp
  qed
qed simp

lemma one_runner:
  assumes "sys_inv s" "k < length (sys_workers s)" "l < length (sys_workers s)"
    "runs_record (sys_workers s ! k) r" "runs_record (sys_workers s ! l) r"
  shows "k = l \<and> snap_state (jr_snapshot (en_store (sys_engine s) ! r)) = Running"
proof -
  let ?e = "sys_engine s" and ?ws = "sys_workers s"
  have inv: "engine_inv ?e ?ws (sys_clients s)" by (rule assms(1))
  then have c: "core ?e (queued ?e + tally worker_tokens ?ws + tally client_tokens (sys_clients s)) (tally worker_runs ?ws)"
    by (simp add: engine_inv_def)
  have ref: "\<exists>i. i \<in># worker_runs (?ws ! m) \<and> find_record i ?e = Some r"
    if "m < length ?ws" "runs_record (?ws ! m) r" for m
  proof -
    have "worker_ok ?e (?ws ! m)" using inv that(1) by (simp add: engine_inv_def)
    then show ?thesis using that(2) by (cases "?ws ! m") auto
  qed
  obtain i where i: "i \<in># worker_runs (?ws ! k)" "find_record i ?e = Some r" using ref assms(2,4) by blast
  obtain i' where i': "i' \<in># worker_runs (?ws ! l)" "find_record i' ?e = Some r" using ref assms(3,5) by blast
  have "i' = i" using registry_ok_distinct_refs [OF coreD(1) [OF c]] i i' by blast
  have "i \<in># tally worker_runs ?ws"
    using i(1) assms(2) by (metis id_take_nth_drop tally_mid union_iff)
  then have cnt: "count (tally worker_runs ?ws) i = 1" "state_of ?e i = Some Running"
    using coreD(6) [OF c, of i] by (auto simp: count_eq_zero_iff split: if_splits)
  have "k = l" using tally_two [of k ?ws l i worker_runs] assms(2,3) i(1) i'(1) \<open>i' = i\<close> cnt(1) by fastforce
  then show ?thesis using cnt(2) section_premises(2) [OF c i(2)] by simp
qed

text \<open>
  C6 (mutual exclusion).  Two different workers are never inside \<open>run_slice\<close> of the same job, and
  the job they run is in the state \<open>Running\<close>.
\<close>

theorem one_worker_per_job:
  assumes "reachable jo s" "k < length (sys_workers s)" "l < length (sys_workers s)"
    "runs_record (sys_workers s ! k) r" "runs_record (sys_workers s ! l) r"
  shows "k = l \<and> snap_state (jr_snapshot (en_store (sys_engine s) ! r)) = Running"
  by (rule one_runner [OF reachable_inv [OF assms(1)] assms(2-5)])

text \<open>
  C7 (no job is lost).  In every reachable state, a registered job that is not in a terminal state
  is in exactly one place: in the queue, in the hands of one worker, or in the hands of one client
  call that is about to queue or finish it.
\<close>

theorem no_job_lost:
  assumes "reachable jo s" "state_of (sys_engine s) i = Some st" "\<not> is_terminal st"
  shows "count (image_mset se_id (queue_content (en_queue (sys_engine s))) +
    tally worker_tokens (sys_workers s) + tally client_tokens (sys_clients s)) i = 1"
proof -
  have c: "core (sys_engine s) (queued (sys_engine s) + tally worker_tokens (sys_workers s) + tally client_tokens (sys_clients s))
      (tally worker_runs (sys_workers s))"
    using reachable_inv [OF assms(1)] by (simp add: engine_inv_def)
  show ?thesis using coreD(5) [OF c assms(2,3)] coreD(3) [OF c, of i]
    by (metis One_nat_def Suc_leI count_greater_zero_iff le_antisym)
qed

text \<open>
  C8 (shutdown leaves no job behind).  Once shutdown has joined the workers and no call is in
  flight, every job that was ever registered is in a terminal state and its result has been
  published, in both shutdown modes.
\<close>

theorem shutdown_finishes_every_job:
  assumes "reachable jo s" "sys_workers s = []" "sys_clients s = []" "rec_of (sys_engine s) i = Some rec"
  shows "is_terminal (snap_state (jr_snapshot rec)) \<and> jr_promise rec = [result_of rec]"
proof -
  have inv: "sys_inv s" by (rule reachable_inv [OF assms(1)])
  then have "queue_content (en_queue (sys_engine s)) = {#}" using assms(2) by (simp add: engine_inv_def exit_ok_def)
  then have c: "core (sys_engine s) {#} {#}" using inv assms(2,3) by (simp add: engine_inv_def)
  have "is_terminal (snap_state (jr_snapshot rec))"
    using coreD(5) [OF c, of i "snap_state (jr_snapshot rec)"] assms(4) by (auto simp: state_of_def)
  then show ?thesis using coreD(2) [OF c assms(4)] by (simp add: published_ok_def)
qed

theorem result_published_once_witness:
  "\<exists>(s :: (unit, unit) system) rec. reachable no_journal s \<and> rec_of (sys_engine s) 1 = Some rec \<and>
     jr_promise rec = [\<lparr>res_id = 1, res_state = Completed, res_message = ''done'', res_work_units_consumed = 5\<rparr>]"
proof -
  have rec: "rec_of (sys_engine (run_state 11)) 1 = Some run_done"
    by (simp add: run_unfold rec_of_def find_record_def hm_find_def)
  have "snap_state (jr_snapshot run_done) = Completed" "snap_message (jr_snapshot run_done) = ''done''"
      "snap_work_units_consumed (jr_snapshot run_done) = 5"
    by (simp_all add: run_done_def publish_def Let_def add_work_def run_running_def run_ready_def JobRecord_def submit_snapshot_def)
  then show ?thesis
    using result_published_once [OF run_reachable(2) rec] rec run_reachable(2) by fastforce
qed

theorem one_worker_per_job_witness:
  "\<exists>s :: (unit, unit) system. reachable no_journal s \<and> runs_record (sys_workers s ! 0) 0 \<and>
     snap_state (jr_snapshot (en_store (sys_engine s) ! 0)) = Running"
proof -
  have "0 < length (sys_workers (run_state 9))" "runs_record (sys_workers (run_state 9) ! 0) 0"
    by (simp_all add: run_unfold)
  then show ?thesis
    using one_worker_per_job [OF run_reachable(1), of 0 0 0] run_reachable(1) by blast
qed

theorem no_job_lost_witness:
  "\<exists>s :: (unit, unit) system. reachable no_journal s \<and> state_of (sys_engine s) 1 = Some Running \<and>
     count (image_mset se_id (queue_content (en_queue (sys_engine s))) +
       tally worker_tokens (sys_workers s) + tally client_tokens (sys_clients s)) 1 = 1"
proof -
  have "state_of (sys_engine (run_state 9)) 1 = Some Running"
    by (simp add: run_unfold state_of_def rec_of_def find_record_def hm_find_def run_running_def)
  then show ?thesis using no_job_lost [OF run_reachable(1), of 1 Running] run_reachable(1) by fastforce
qed

theorem shutdown_finishes_every_job_witness:
  "\<exists>(s :: (unit, unit) system) rec. reachable no_journal s \<and> sys_workers s = [] \<and> rec_of (sys_engine s) 1 = Some rec \<and>
     is_terminal (snap_state (jr_snapshot rec)) \<and> jr_promise rec = [result_of rec]"
proof -
  have rec: "rec_of (sys_engine (run_state 16)) 1 = Some run_done" "sys_workers (run_state 16) = []"
      "sys_clients (run_state 16) = []"
    by (simp_all add: run_unfold rec_of_def find_record_def hm_find_def)
  then show ?thesis
    using shutdown_finishes_every_job [OF run_reachable(3) rec(2,3,1)] run_reachable(3) by blast
qed

section \<open>Progress\<close>

lemma worker_enabled:
  assumes "w \<noteq> W_Exit" "w = W_Pop \<Longrightarrow> queue_content (en_queue e) \<noteq> {#} \<or> tq_closed (en_queue e)"
  shows "\<exists>e' w'. worker_step jo (e, w) (e', w')"
proof (cases w)
  case W_Pop
  obtain d q where "queue_pop (en_queue e) = (d, q)" by fastforce
  moreover have "pop_ready False (en_queue e)" using assms(2) W_Pop by (auto simp: pop_ready_spec)
  ultimately show ?thesis
    using W_Pop by (cases d) (blast intro: worker_step.pop_none worker_step.pop_some)+
next
  case (W_Find d)
  then show ?thesis
    by (cases "find_record (se_id (dis_entry d)) e") (blast intro: worker_step.find_none worker_step.find_some)+
next
  case (W_Start d r)
  obtain x e' where "worker_start jo 0 r e = (x, e')" by fastforce
  then show ?thesis using W_Start by (cases x) (auto intro: worker_step.start_ok worker_step.start_skip)
next
  case (W_Record d r result)
  obtain x e' where "worker_record jo 0 result r e = (x, e')" by fastforce
  then show ?thesis using W_Record by (cases x) (auto intro: worker_step.record_yield worker_step.record_done)
qed (use assms in \<open>blast intro: worker_step.run worker_step.requeue\<close>)+

lemma client_enabled:
  assumes "i \<in># client_tokens c"
  shows "\<exists>e' n. client_step jo (e, c) (e', n)"
proof (cases c)
  case (C_Push r entry message)
  obtain x e' where "engine_push entry e = (x, e')" by fastforce
  then show ?thesis using C_Push by (cases x) (auto intro: client_step.push_ok client_step.push_closed)
qed (use assms in \<open>auto intro: client_step.restore_id client_step.restore_seq client_step.finish client_step.cancel_pending\<close>)

lemma tally_member: "i \<in># tally f xs \<Longrightarrow> \<exists>x \<in> set xs. i \<in># f x"
  by (induction xs) auto

text \<open>
  Progress.  In every reachable state with an unfinished job, some thread can take a step: the
  worker or client that holds the job, or, if the job is queued, a worker that has not exited.
  The engine never deadlocks while work is pending.
\<close>

theorem pending_work_can_move:
  assumes "reachable jo s" "state_of (sys_engine s) i = Some st" "\<not> is_terminal st"
  shows "(\<exists>w \<in> set (sys_workers s). \<exists>e' w'. worker_step jo (sys_engine s, w) (e', w')) \<or>
    (\<exists>c \<in> set (sys_clients s). \<exists>e' n. client_step jo (sys_engine s, c) (e', n))"
proof -
  let ?e = "sys_engine s"
  have inv: "sys_inv s" by (rule reachable_inv [OF assms(1)])
  then have "i \<in># queued ?e + tally worker_tokens (sys_workers s) + tally client_tokens (sys_clients s)"
    using coreD(5) [OF _ assms(2,3)] unfolding engine_inv_def by blast
  then consider "i \<in># queued ?e" | "i \<in># tally worker_tokens (sys_workers s)" | "i \<in># tally client_tokens (sys_clients s)"
    by auto
  then show ?thesis
  proof cases
    case 1
    then have q: "queue_content (en_queue ?e) \<noteq> {#}" by auto
    then obtain w where "w \<in> set (sys_workers s)" "w \<noteq> W_Exit"
      using inv unfolding engine_inv_def exit_ok_def by blast
    then show ?thesis using worker_enabled q by blast
  next
    case 2
    then obtain w where w: "w \<in> set (sys_workers s)" "i \<in># worker_tokens w" using tally_member by fast
    then have "w \<noteq> W_Exit" "w \<noteq> W_Pop" by auto
    then show ?thesis using w(1) worker_enabled by blast
  next
    case 3
    then obtain c where "c \<in> set (sys_clients s)" "i \<in># client_tokens c" using tally_member by fast
    then show ?thesis using client_enabled by blast
  qed
qed

theorem pending_work_can_move_witness:
  "\<exists>s :: (unit, unit) system. reachable no_journal s \<and> state_of (sys_engine s) 1 = Some Running \<and>
    ((\<exists>w \<in> set (sys_workers s). \<exists>e' w'. worker_step no_journal (sys_engine s, w) (e', w')) \<or>
     (\<exists>c \<in> set (sys_clients s). \<exists>e' n. client_step no_journal (sys_engine s, c) (e', n)))"
proof -
  have "state_of (sys_engine (run_state 9)) 1 = Some Running"
    by (simp add: run_unfold state_of_def rec_of_def find_record_def hm_find_def run_running_def)
  then show ?thesis using pending_work_can_move [OF run_reachable(1), of 1 Running] run_reachable(1) by fastforce
qed
end
