(* ===== verification/Kronos_Lifecycle.thy ===== *)
theory Kronos_Lifecycle
  imports Kronos_Invariant
begin

text \<open>
  How a single job evolves from one state of the system to the next: it appears as \<open>Ready\<close>, moves
  along the life cycle, and is frozen once its result is published.
\<close>

text \<open>A job that the engine failed because the journal threw; the log may not know it.\<close>

definition wal_failed :: "'t job_record \<Rightarrow> bool" where
  "wal_failed rec \<longleftrightarrow> rec_state rec = Failed \<and> (\<exists>m. snap_message (jr_snapshot rec) = ''write-ahead log failure: '' @ m)"

lemma wal_failed_publish: "wal_failed (publish now Failed (''write-ahead log failure: '' @ m) rec)"
  by (simp add: wal_failed_def publish_def Let_def)

text \<open>How the record of one job may change.\<close>

definition evolves_at :: "('t, 'j) engine \<Rightarrow> ('t, 'j) engine \<Rightarrow> job_id \<Rightarrow> bool" where
  "evolves_at e e' i \<longleftrightarrow>
     (case rec_of e i of
        None \<Rightarrow> (case rec_of e' i of None \<Rightarrow> True | Some rec' \<Rightarrow> rec_state rec' = Ready)
      | Some rec \<Rightarrow> \<exists>rec'. rec_of e' i = Some rec' \<and> section_ok rec rec')"

lemma evolves_same: "core e T R \<Longrightarrow> rec_of e' i = rec_of e i \<Longrightarrow> evolves_at e e' i"
  using coreD(2) [of e T R i] by (auto simp: evolves_at_def section_ok_refl split: option.split)

lemma evolves_at_cong:
  assumes "rec_of a k = rec_of a' k" "rec_of b k = rec_of b' k"
  shows "evolves_at a b k = evolves_at a' b' k"
  unfolding evolves_at_def assms by (rule refl)

lemma section_view:
  assumes "core e T R" "find_record i e = Some r" "with_record r f e = (x, e')"
    and "f (en_store e ! r, en_journal e) = (x, rec', j')" "section_ok (en_store e ! r) rec'"
  shows "rec_of e' = (rec_of e)(i \<mapsto> rec')"
  using with_record_view [of e i r f x rec' j'] coreD(1) [OF assms(1)] assms(2-5) by auto

lemma section_evolves:
  assumes "core e T R" "find_record i e = Some r" "with_record r f e = (x, e')"
    and "\<And>rec' j'. f (en_store e ! r, en_journal e) = (x, rec', j') \<Longrightarrow> section_ok (en_store e ! r) rec'"
  shows "evolves_at e e' k"
proof -
  obtain rec' j' where f: "f (en_store e ! r, en_journal e) = (x, rec', j')"
    using assms(3) by (auto simp: with_record_def split: prod.splits)
  have "rec_of e' = (rec_of e)(i \<mapsto> rec')" by (rule section_view [OF assms(1-3) f assms(4) [OF f]])
  then show ?thesis
    using evolves_same [OF assms(1), of e' k] assms(4) [OF f] rec_of_find [OF assms(2)]
    by (cases "k = i") (simp_all add: evolves_at_def)
qed

lemma worker_step_evolves:
  assumes "worker_step jo (e, w) (e', w')" "engine_inv e (u @ w # v) cs"
  shows "evolves_at e e' k"
  using assms(1)
proof (cases rule: worker_step.cases)
  case (start_ok now r d)
  note p = inv_parts [OF assms(2)]
  have r: "find_record (se_id (dis_entry d)) e = Some r" using p(3) start_ok by simp
  show ?thesis
  proof (rule section_evolves [OF p(1) r])
    show "with_record r (start_section jo now) e = (True, e')" using start_ok by (simp add: worker_start_def)
    show "start_section jo now (en_store e ! r, en_journal e) = (True, rec', j') \<Longrightarrow> section_ok (en_store e ! r) rec'" for rec' j'
      using start.sec_ok [OF section_premises(1) [OF p(1) r] TrueI] by blast
  qed
next
  case (start_skip now r d)
  note p = inv_parts [OF assms(2)]
  have r: "find_record (se_id (dis_entry d)) e = Some r" using p(3) start_skip by simp
  show ?thesis
  proof (rule section_evolves [OF p(1) r])
    show "with_record r (start_section jo now) e = (False, e')" using start_skip by (simp add: worker_start_def)
    show "start_section jo now (en_store e ! r, en_journal e) = (False, rec', j') \<Longrightarrow> section_ok (en_store e ! r) rec'" for rec' j'
      using start.sec_ok [OF section_premises(1) [OF p(1) r] TrueI] by blast
  qed
next
  case (run d r t outcome)
  note p = inv_parts [OF assms(2)]
  have r: "find_record (se_id (dis_entry d)) e = Some r" using p(3) run by simp
  have ok: "section_ok (en_store e ! r) ((en_store e ! r)\<lparr>jr_task := t\<rparr>)"
    using section_premises(1) [OF p(1) r] by (simp add: section_ok_def)
  show ?thesis using run ok
    by (intro section_evolves [OF p(1) r, of "\<lambda>l. ((), (fst l)\<lparr>jr_task := t\<rparr>, snd l)" "()"])
      (auto simp: with_record_def set_task_def)
next
  case (record_yield now result r d)
  note p = inv_parts [OF assms(2)]
  have r: "find_record (se_id (dis_entry d)) e = Some r" using p(3) record_yield by simp
  have "rec_state (en_store e ! r) = Running"
    using section_premises(3) [OF p(1) r] record_yield by (auto split: if_splits)
  then have ok: "record_section jo now result (en_store e ! r, en_journal e) = (x, rec', j') \<Longrightarrow>
      section_ok (en_store e ! r) rec'" for x rec' j'
    using record_.sec_ok [OF section_premises(1) [OF p(1) r]] by blast
  show ?thesis
    using record_yield ok [of True] by (intro section_evolves [OF p(1) r, of "record_section jo now result" True]) (simp_all add: worker_record_def)
next
  case (record_done now result r d)
  note p = inv_parts [OF assms(2)]
  have r: "find_record (se_id (dis_entry d)) e = Some r" using p(3) record_done by simp
  have "rec_state (en_store e ! r) = Running"
    using section_premises(3) [OF p(1) r] record_done by (auto split: if_splits)
  then have ok: "record_section jo now result (en_store e ! r, en_journal e) = (x, rec', j') \<Longrightarrow>
      section_ok (en_store e ! r) rec'" for x rec' j'
    using record_.sec_ok [OF section_premises(1) [OF p(1) r]] by blast
  show ?thesis
    using record_done ok [of False] by (intro section_evolves [OF p(1) r, of "record_section jo now result" False]) (simp_all add: worker_record_def)
qed (auto simp: worker_requeue_def intro: evolves_same [OF inv_parts(1) [OF assms(2)]])

lemma pending_entry_evolves:
  assumes "core e T R"
  shows "evolves_at e (cancel_pending_entry jo now entry e) k" "k \<noteq> se_id entry \<Longrightarrow>
    rec_of (cancel_pending_entry jo now entry e) k = rec_of e k"
proof -
  have "evolves_at e (cancel_pending_entry jo now entry e) k \<and>
    (k \<noteq> se_id entry \<longrightarrow> rec_of (cancel_pending_entry jo now entry e) k = rec_of e k)"
  proof (cases "find_record (se_id entry) e")
    case None
    then show ?thesis using evolves_same [OF assms] by (simp add: cancel_pending_entry_def)
  next
    case (Some r)
    obtain e' where w: "with_record r (pending_section jo now) e = ((), e')" by (metis surj_pair unit.exhaust)
    obtain rec' j' where run: "pending_section jo now (en_store e ! r, en_journal e) = ((), rec', j')"
      by (metis surj_pair unit.exhaust)
    note ok = pending.sec_ok [OF section_premises(1) [OF assms Some] TrueI]
    have "evolves_at e e' k" using ok by (intro section_evolves [OF assms Some w]) blast
    moreover have "rec_of e' = (rec_of e)(se_id entry \<mapsto> rec')"
      using section_view [OF assms Some w run] ok [OF run] by blast
    ultimately show ?thesis by (simp add: cancel_pending_entry_def Some w)
  qed
  then show "evolves_at e (cancel_pending_entry jo now entry e) k" "k \<noteq> se_id entry \<Longrightarrow>
    rec_of (cancel_pending_entry jo now entry e) k = rec_of e k" by blast+
qed

lemma cancel_pending_evolves:
  "core e (image_mset se_id (mset pending) + T) R \<Longrightarrow> R \<subseteq># T \<Longrightarrow>
     evolves_at e (cancel_pending jo now pending e) k \<and>
     (k \<notin># image_mset se_id (mset pending) \<longrightarrow> rec_of (cancel_pending jo now pending e) k = rec_of e k)"
proof (induction pending arbitrary: e)
  case Nil
  then show ?case by (simp add: cancel_pending_def evolves_same)
next
  case (Cons entry pending)
  let ?T = "image_mset se_id (mset (entry # pending)) + T" and ?e = "cancel_pending_entry jo now entry e"
  have "add_mset (se_id entry) R \<subseteq># ?T" using Cons.prems(2) by (simp add: subset_mset.add_increasing)
  from cancel_pending_entry_core [OF Cons.prems(1) this, of jo now]
  have c: "core ?e (image_mset se_id (mset pending) + T) R" by simp
  note ih = Cons.IH [OF c Cons.prems(2)]
  have step: "cancel_pending jo now (entry # pending) e = cancel_pending jo now pending ?e"
    by (simp add: cancel_pending_def)
  note one = pending_entry_evolves [OF Cons.prems(1), where jo = jo and now = now and entry = entry and k = k]
  have "se_id entry \<notin># image_mset se_id (mset pending)"
    using coreD(3) [OF Cons.prems(1), of "se_id entry"] by (simp add: count_eq_zero_iff)
  then have "evolves_at e (cancel_pending jo now (entry # pending) e) k"
    using ih one evolves_at_cong [of e k e "cancel_pending jo now pending ?e" ?e]
      evolves_at_cong [of e k ?e "cancel_pending jo now pending ?e" "cancel_pending jo now pending ?e"]
    unfolding step by (cases "k = se_id entry") auto
  then show ?case using ih one by (auto simp: step)
qed

lemma finish_record_evolves:
  assumes "core e T R" "find_record i e = Some r"
  shows "evolves_at e (finish_record jo now Cancelled message r e) k"
proof -
  obtain e' where w: "with_record r (finish_section jo now Cancelled message) e = ((), e')"
    by (metis surj_pair unit.exhaust)
  have "evolves_at e e' k"
    using finish.sec_ok [OF section_premises(1) [OF assms] TrueI] by (intro section_evolves [OF assms w]) blast
  then show ?thesis by (simp add: finish_record_def w)
qed

lemma registry_emplace_evolves:
  assumes "core e T R" "registry_emplace i rec e = (x, r, e')"
    "snap_id (jr_snapshot rec) = i" "se_id (jr_entry rec) = i" "rec_state rec = Ready"
  shows "evolves_at e e' k"
proof (cases "find_record i e")
  case None
  then have "rec_of e' = (rec_of e)(i \<mapsto> rec)"
    using registry_emplace_new [OF coreD(1) [OF assms(1)] None assms(3,4,2)] by simp
  then show ?thesis using evolves_same [OF assms(1), of e' k] None assms(5)
    by (cases "k = i") (simp_all add: evolves_at_def rec_of_None [symmetric])
next
  case (Some q)
  then have "rec_of e' = rec_of e" using registry_emplace_old [OF coreD(1) [OF assms(1)] _ assms(2)] by simp
  then show ?thesis using evolves_same [OF assms(1)] by simp
qed

lemma rec_of_cong: "en_store e' = en_store e \<Longrightarrow> en_records e' = en_records e \<Longrightarrow> rec_of e' = rec_of e"
  by (auto simp: rec_of_def find_record_def)

lemma client_step_evolves:
  assumes "client_step jo (e, c) (e', n)" "engine_inv e ws (b @ c # a)"
  shows "evolves_at e e' k"
proof -
  note p = inv_client_parts [OF assms(2)]
  have same: "evolves_at e e1 k" if "en_store e1 = en_store e" "en_records e1 = en_records e" for e1
    using evolves_same [OF p(1), of e1 k] rec_of_cong [OF that] by simp
  show ?thesis
    using assms(1)
  proof (cases rule: client_step.cases)
    case (submit_emplace snapshot entry t inserted r)
    then have emp: "registry_emplace (snap_id snapshot) (JobRecord snapshot entry t) e = (inserted, r, e')" by simp
    show ?thesis using p(3) submit_emplace
      by (intro registry_emplace_evolves [OF p(1) emp]) (auto simp: JobRecord_def)
  next
    case (restore_emplace_ok submission now t r)
    then have emp: "registry_emplace (sub_id submission)
        (JobRecord (restore_snapshot now submission) (restore_entry submission) t) e = (True, r, e')" by simp
    show ?thesis
      by (rule registry_emplace_evolves [OF p(1) emp])
        (simp_all add: JobRecord_def restore_snapshot_def restore_entry_def)
  next
    case (restore_emplace_throw submission now t r)
    then have emp: "registry_emplace (sub_id submission)
        (JobRecord (restore_snapshot now submission) (restore_entry submission) t) e = (False, r, e')" by simp
    show ?thesis
      by (rule registry_emplace_evolves [OF p(1) emp])
        (simp_all add: JobRecord_def restore_snapshot_def restore_entry_def)
  next
    case (finish r entry message now)
    then show ?thesis using p(3) finish_record_evolves [OF p(1)] by auto
  next
    case (cancel now r x)
    then obtain i where i: "find_record i e = Some r" using p(3) by auto
    have ok: "cancel_section jo now (en_store e ! r, en_journal e) = (x, rec', j') \<Longrightarrow>
        section_ok (en_store e ! r) rec'" for rec' j'
      using cancel.sec_ok [OF section_premises(1) [OF p(1) i] TrueI] by blast
    show ?thesis using cancel ok
      by (intro section_evolves [OF p(1) i, of "cancel_section jo now" x]) (simp_all add: cancel_record_def)
  next
    case (cancel_pending pending now)
    let ?T = "queued e + tally worker_tokens ws + tally client_tokens (b @ a)"
    have "core e (image_mset se_id (mset pending) + ?T) (tally worker_runs ws)"
      using p(1) cancel_pending by (simp add: ac_simps)
    from cancel_pending_evolves [OF this client_rest_runs] show ?thesis using cancel_pending by blast
  next
    case (submit_journal_ok snapshot now i sequence options t)
    then show ?thesis by (intro same journal_frame [OF disjI1]) simp_all
  next
    case (submit_journal_throw now i sequence options error t)
    then show ?thesis by (intro same journal_frame [OF disjI1]) simp_all
  next
    case (restore_journal_ok submission t)
    then show ?thesis by (intro same journal_frame [OF disjI2]) simp_all
  next
    case (restore_journal_throw submission error t)
    then show ?thesis by (intro same journal_frame [OF disjI2]) simp_all
  qed (auto intro!: same dest!: engine_push_parts shutdown_close_parts simp: take_job_id_def take_sequence_def
      advance_job_id_def advance_sequence_def shutdown_stop_accepting_def)
qed

lemma step_evolves:
  assumes "step jo s s'" "sys_inv s"
  shows "evolves_at (sys_engine s) (sys_engine s') k"
proof -
  have c: "core (sys_engine s) (queued (sys_engine s) + tally worker_tokens (sys_workers s) +
      tally client_tokens (sys_clients s)) (tally worker_runs (sys_workers s))"
    using assms(2) by (simp add: engine_inv_def)
  show ?thesis using assms(1)
  proof cases
    case (worker m e' w')
    obtain u v where "sys_workers s = u @ sys_workers s ! m # v"
      using worker(2) by (metis id_take_nth_drop)
    then have "engine_inv (sys_engine s) (u @ sys_workers s ! m # v) (sys_clients s)" using assms(2) by simp
    then show ?thesis using worker_step_evolves [OF worker(3)] worker(1) by simp
  next
    case (client before c after e' cont)
    then show ?thesis using client_step_evolves [OF client(3)] assms(2) by simp
  qed (simp_all add: evolves_same [OF c])
qed

section \<open>Properties\<close>

text \<open>
  C9 (life cycle).  Whatever step the system takes from a reachable state, every job keeps its
  state or makes a transition of the life cycle: it appears as \<open>Ready\<close>; \<open>Ready\<close> goes to \<open>Running\<close>,
  \<open>Cancelled\<close> or \<open>Failed\<close>; \<open>Running\<close> goes to \<open>Ready\<close> or to a terminal state; terminal states are final;
  no job disappears.
\<close>

theorem job_life_cycle:
  assumes "reachable jo s" "step jo s s'"
  shows "state_of (sys_engine s') i = state_of (sys_engine s) i \<or>
    (case state_of (sys_engine s) i of
       None \<Rightarrow> state_of (sys_engine s') i = Some Ready
     | Some st \<Rightarrow> \<exists>st'. state_of (sys_engine s') i = Some st' \<and> legal_transition st st')"
  using step_evolves [OF assms(2) reachable_inv [OF assms(1)], of i]
  by (auto simp: evolves_at_def state_of_def section_ok_def split: option.splits)

theorem job_life_cycle_witness:
  "\<exists>s s' :: (unit, unit) system. reachable no_journal s \<and> step no_journal s s' \<and>
     state_of (sys_engine s) 1 = Some Running \<and> state_of (sys_engine s') 1 = Some Completed \<and>
     (state_of (sys_engine s') 1 = state_of (sys_engine s) 1 \<or>
      (case state_of (sys_engine s) 1 of
         None \<Rightarrow> state_of (sys_engine s') 1 = Some Ready
       | Some st \<Rightarrow> \<exists>st'. state_of (sys_engine s') 1 = Some st' \<and> legal_transition st st'))"
proof -
  have r: "reachable no_journal (run_state 10)" using reachable_step [OF run_reachable(1) run_steps(10)] .
  have "state_of (sys_engine (run_state 10)) 1 = Some Running" "state_of (sys_engine (run_state 11)) 1 = Some Completed"
    by (simp_all add: run_unfold state_of_def rec_of_def find_record_def hm_find_def run_running_def run_done_def)
  then show ?thesis using job_life_cycle [OF r run_steps(11), of 1] r run_steps(11) by blast
qed

text \<open>
  C17 (published results are final).  Once the result of a job has been published, no later step of
  any thread changes it: the promise keeps its value and the job its snapshot.
\<close>

theorem published_result_final:
  assumes "reachable jo s" "(step jo)\<^sup>*\<^sup>* s s'" "rec_of (sys_engine s) i = Some rec" "jr_result_published rec"
  shows "\<exists>rec'. rec_of (sys_engine s') i = Some rec' \<and> jr_promise rec' = jr_promise rec \<and>
    jr_snapshot rec' = jr_snapshot rec"
proof -
  have "\<exists>rec'. rec_of (sys_engine s') i = Some rec' \<and> jr_result_published rec' \<and>
    jr_promise rec' = jr_promise rec \<and> jr_snapshot rec' = jr_snapshot rec \<and> reachable jo s'"
    using assms(2)
  proof (induction rule: rtranclp_induct)
    case (step t t')
    then obtain rec' where rec': "rec_of (sys_engine t) i = Some rec'" "jr_result_published rec'"
        "jr_promise rec' = jr_promise rec" "jr_snapshot rec' = jr_snapshot rec" "reachable jo t" by blast
    then show ?case
      using step_evolves [OF step(2) reachable_inv [OF rec'(5)], of i] reachable_step [OF rec'(5) step(2)]
      by (auto simp: evolves_at_def section_ok_def)
  qed (use assms in blast)
  then show ?thesis by blast
qed

theorem published_result_final_witness:
  "\<exists>(s :: (unit, unit) system) s' rec rec'. reachable no_journal s \<and> (step no_journal)\<^sup>*\<^sup>* s s' \<and>
     rec_of (sys_engine s) 1 = Some rec \<and> jr_result_published rec \<and> sys_workers s' = [] \<and>
     rec_of (sys_engine s') 1 = Some rec' \<and> jr_promise rec' = jr_promise rec"
proof -
  have rec: "rec_of (sys_engine (run_state 11)) 1 = Some run_done" "jr_result_published run_done"
      "sys_workers (run_state 16) = []"
    by (simp_all add: run_unfold rec_of_def find_record_def hm_find_def run_done_def)
  have steps: "(step no_journal)\<^sup>*\<^sup>* (run_state 11) (run_state 16)"
    using run_shutdown by (meson converse_rtranclp_into_rtranclp rtranclp.rtrancl_refl)
  then show ?thesis
    using published_result_final [OF run_reachable(2) steps rec(1,2)] run_reachable(2) rec by blast
qed

end
