(* ===== verification/Kronos_Text.thy ===== *)
theory Kronos_Text
  imports Kronos_Types "HOL-Library.Char_ord"
begin

unbundle bit_operations_syntax

text \<open>
  What the sources use of the C++ library for text: \<open>std::to_string\<close> and stream output of integers
  in decimal, \<open>std::from_chars\<close>, and the find-and-substr loop that splits a line at a separator;
  together with the hexadecimal field encoding that \<open>src/wal.cpp\<close> and \<open>src/protocol.cpp\<close> both
  contain (the decoder takes the exceptions it throws as arguments, since the two files differ
  only in them).

  The locale \<open>field_codec\<close> is the contract of an encoding used inside a separator-delimited line:
  decoding inverts encoding, and no encoded text contains a separator.  It is interpreted for
  decimal numbers, hexadecimal text and job states.
\<close>

section \<open>Decimal output\<close>

definition digit_char :: "nat \<Rightarrow> char" where
  "digit_char d = char_of (48 + d)"

fun nat_to_string :: "nat \<Rightarrow> string" where
  "nat_to_string n =
     (if n < 10 then [digit_char n] else nat_to_string (n div 10) @ [digit_char (n mod 10)])"

declare nat_to_string.simps [simp del]

definition u64_to_string :: "u64 \<Rightarrow> string" where
  "u64_to_string w = nat_to_string (unat w)"

definition int_to_string :: "int \<Rightarrow> string" where
  "int_to_string i =
     (if i < 0 then CHR ''-'' # nat_to_string (nat (- i)) else nat_to_string (nat i))"

section \<open>std::from_chars\<close>

datatype errc = errc_ok | errc_invalid_argument | errc_result_out_of_range

definition is_digit :: "char \<Rightarrow> bool" where
  "is_digit c \<longleftrightarrow> 48 \<le> (of_char c :: nat) \<and> (of_char c :: nat) \<le> 57"

definition digits_value :: "string \<Rightarrow> nat" where
  "digits_value s = foldl (\<lambda>acc c. 10 * acc + (of_char c - 48)) 0 s"

text \<open>The parsed value (0, its initial value, on error), the unread rest and the error code.\<close>

definition from_chars_u64 :: "string \<Rightarrow> u64 \<times> string \<times> errc" where
  "from_chars_u64 s =
     (let ds = takeWhile is_digit s; rest = dropWhile is_digit s in
      if ds = [] then (0, s, errc_invalid_argument)
      else if digits_value ds < 2 ^ 64 then (of_nat (digits_value ds), rest, errc_ok)
      else (0, rest, errc_result_out_of_range))"

definition from_chars_int :: "(int \<Rightarrow> bool) \<Rightarrow> string \<Rightarrow> int \<times> string \<times> errc" where
  "from_chars_int fits s =
     (let neg = (s \<noteq> [] \<and> hd s = CHR ''-''); t = (if neg then tl s else s);
          ds = takeWhile is_digit t; rest = dropWhile is_digit t;
          v = (if neg then - int (digits_value ds) else int (digits_value ds)) in
      if ds = [] then (0, s, errc_invalid_argument)
      else if fits v then (v, rest, errc_ok)
      else (0, rest, errc_result_out_of_range))"

text \<open>
  Every caller accepts the result only when there was no error and the whole text was read.
\<close>

definition parse_u64 :: "string \<Rightarrow> u64 option" where
  "parse_u64 s =
     (case from_chars_u64 s of
        (v, rest, ec) \<Rightarrow> if ec \<noteq> errc_ok \<or> rest \<noteq> [] then None else Some v)"

definition parse_int :: "(int \<Rightarrow> bool) \<Rightarrow> string \<Rightarrow> int option" where
  "parse_int fits s =
     (case from_chars_int fits s of
        (v, rest, ec) \<Rightarrow> if ec \<noteq> errc_ok \<or> rest \<noteq> [] then None else Some v)"

text \<open>\<open>std::left << std::setw(n)\<close>: padding on the right, no truncation.\<close>

definition setw_left :: "nat \<Rightarrow> string \<Rightarrow> string" where
  "setw_left n s = s @ replicate (n - length s) CHR '' ''"

section \<open>Splitting at a separator\<close>

function split_on :: "char \<Rightarrow> string \<Rightarrow> string list" where
  "split_on sep s =
     (if sep \<in> set s
      then takeWhile (\<lambda>c. c \<noteq> sep) s # split_on sep (tl (dropWhile (\<lambda>c. c \<noteq> sep) s))
      else [s])"
  by pat_completeness auto
termination
proof (relation "measure (\<lambda>(sep, s). length s)", goal_cases)
  case (2 sep s)
  then have "dropWhile (\<lambda>c. c \<noteq> sep) s \<noteq> []" by (auto simp: dropWhile_eq_Nil_conv)
  moreover have "length (dropWhile (\<lambda>c. c \<noteq> sep) s) \<le> length s" by (rule length_dropWhile_le)
  ultimately show ?case by (cases "dropWhile (\<lambda>c. c \<noteq> sep) s") auto
qed simp

declare split_on.simps [simp del]

fun join_with :: "char \<Rightarrow> string list \<Rightarrow> string" where
  "join_with sep [] = []"
| "join_with sep [f] = f"
| "join_with sep (f # g # fs) = f @ [sep] @ join_with sep (g # fs)"

section \<open>Hexadecimal fields\<close>

definition hex_digits :: string where
  "hex_digits = ''0123456789ABCDEF''"

fun hex_encode :: "string \<Rightarrow> string" where
  "hex_encode [] = []"
| "hex_encode (byte # bytes) =
     [hex_digits ! drop_bit 4 (of_char byte), hex_digits ! (of_char byte AND 0x0F)] @ hex_encode bytes"

definition hex_value :: "char \<Rightarrow> int" where
  "hex_value c =
     (if CHR ''0'' \<le> c \<and> c \<le> CHR ''9'' then of_char c - of_char CHR ''0''
      else if CHR ''A'' \<le> c \<and> c \<le> CHR ''F'' then of_char c - of_char CHR ''A'' + 10
      else if CHR ''a'' \<le> c \<and> c \<le> CHR ''f'' then of_char c - of_char CHR ''a'' + 10
      else - 1)"

fun hex_decode_loop :: "exn \<Rightarrow> string \<Rightarrow> string result" where
  "hex_decode_loop bad [] = Inr []"
| "hex_decode_loop bad [c] = Inl bad"
| "hex_decode_loop bad (h # l # cs) =
     (if hex_value h < 0 \<or> hex_value l < 0 then Inl bad
      else map_sum (\<lambda>e. e) (Cons (char_of (push_bit 4 (hex_value h) OR hex_value l)))
             (hex_decode_loop bad cs))"

definition hex_decode :: "exn \<Rightarrow> exn \<Rightarrow> string \<Rightarrow> string result" where
  "hex_decode odd_size bad s = (if length s mod 2 \<noteq> 0 then Inl odd_size else hex_decode_loop bad s)"


section \<open>Decimal round trips\<close>

lemma of_char_digit_char: "d < 10 \<Longrightarrow> of_char (digit_char d) = 48 + d"
  by (simp add: digit_char_def)

lemma is_digit_digit_char: "d < 10 \<Longrightarrow> is_digit (digit_char d)"
  by (simp add: is_digit_def of_char_digit_char)

lemma nat_to_string_nonempty [simp]: "nat_to_string n \<noteq> []"
  by (subst nat_to_string.simps) simp

lemma nat_to_string_digits: "c \<in> set (nat_to_string n) \<Longrightarrow> is_digit c"
proof (induction n rule: nat_to_string.induct)
  case (1 n)
  then show ?case
    by (cases "n < 10") (auto simp: nat_to_string.simps [of n] is_digit_digit_char)
qed

lemma digits_value_append1: "digits_value (s @ [c]) = 10 * digits_value s + (of_char c - 48)"
  by (simp add: digits_value_def)

lemma digits_value_nat_to_string [simp]: "digits_value (nat_to_string n) = n"
proof (induction n rule: nat_to_string.induct)
  case (1 n)
  show ?case
  proof (cases "n < 10")
    case True
    then show ?thesis
      by (simp add: nat_to_string.simps [of n] digits_value_def of_char_digit_char)
  next
    case False
    then have "digits_value (nat_to_string n) = 10 * (n div 10) + n mod 10"
      using 1 by (simp add: nat_to_string.simps [of n] digits_value_append1 of_char_digit_char)
    then show ?thesis by simp
  qed
qed

lemma takeWhile_all_digits: "(\<And>c. c \<in> set s \<Longrightarrow> is_digit c) \<Longrightarrow> takeWhile is_digit s = s \<and> dropWhile is_digit s = []"
  by (simp add: takeWhile_eq_all_conv)

lemmas digits_scan [simp] = takeWhile_all_digits [OF nat_to_string_digits, THEN conjunct1]
  takeWhile_all_digits [OF nat_to_string_digits, THEN conjunct2]

lemma length_nat_to_string: "n < 10 ^ k \<Longrightarrow> 0 < k \<Longrightarrow> length (nat_to_string n) \<le> k"
proof (induction n arbitrary: k rule: nat_to_string.induct)
  case (1 n)
  show ?case
  proof (cases "n < 10")
    case True
    then show ?thesis using 1 by (simp add: nat_to_string.simps [of n])
  next
    case False
    then obtain j where k: "k = Suc j" "0 < j" using 1 by (cases k; cases "k - 1") auto
    then have "n div 10 < 10 ^ j" using 1 by (simp add: less_mult_imp_div_less mult.commute)
    from "1.IH" [OF False this k(2)] show ?thesis using False k by (simp add: nat_to_string.simps [of n])
  qed
qed

lemma length_u64_to_string: "length (u64_to_string w) \<le> 20"
  unfolding u64_to_string_def using unat_less_2p64 [of w] by (intro length_nat_to_string) simp_all

lemma hd_nat_to_string: "is_digit (hd (nat_to_string n))"
  by (rule nat_to_string_digits [OF hd_in_set]) simp

lemma parse_u64_to_string [text_simps]: "parse_u64 (u64_to_string w) = Some w"
  using unat_less_2p64 [of w]
  by (simp add: parse_u64_def from_chars_u64_def u64_to_string_def Let_def)

lemma parse_int_to_string [text_simps]: "fits i \<Longrightarrow> parse_int fits (int_to_string i) = Some i"
proof -
  have "hd (nat_to_string n) \<noteq> CHR ''-''" for n
    using hd_nat_to_string [of n] by (auto simp: is_digit_def)
  then show "fits i \<Longrightarrow> parse_int fits (int_to_string i) = Some i"
    by (auto simp: parse_int_def from_chars_int_def int_to_string_def Let_def
        dest: nat_to_string_digits)
qed

lemma parse_u64_Some_iff:
  "parse_u64 s = Some w \<longleftrightarrow>
     s \<noteq> [] \<and> (\<forall>c \<in> set s. is_digit c) \<and> digits_value s < 2 ^ 64 \<and> w = of_nat (digits_value s)"
proof (cases "\<forall>c \<in> set s. is_digit c")
  case True
  then have scan: "takeWhile is_digit s = s" "dropWhile is_digit s = []"
    by (simp_all add: takeWhile_eq_all_conv)
  show ?thesis using True unfolding parse_u64_def from_chars_u64_def Let_def scan by auto
next
  case False
  then have "dropWhile is_digit s \<noteq> []" by (auto simp: dropWhile_eq_Nil_conv)
  with False show ?thesis by (auto simp: parse_u64_def from_chars_u64_def Let_def)
qed

text \<open>What \<open>from_chars\<close> accepts as a whole number: leading zeros and then the decimal text of the value.\<close>

lemma digit_char_of: "is_digit c \<Longrightarrow> digit_char (of_char c - 48) = c"
  by (simp add: digit_char_def is_digit_def)

lemma zero_digit_char: "digit_char 0 = CHR ''0''"
  using digit_char_of [of "CHR ''0''"] by (simp add: is_digit_def)

lemma decimal_text:
  "s \<noteq> [] \<Longrightarrow> \<forall>c \<in> set s. is_digit c \<Longrightarrow>
     \<exists>zeros. s = replicate zeros CHR ''0'' @ nat_to_string (digits_value s)"
proof (induction s rule: rev_induct)
  case (snoc c s)
  define d where "d = (of_char c :: nat) - 48"
  have d: "d < 10" "digit_char d = c" using snoc.prems digit_char_of [of c] by (auto simp: d_def is_digit_def)
  show ?case
  proof (cases "s = []")
    case True
    then show ?thesis using d by (intro exI [of _ 0]) (simp add: digits_value_def nat_to_string.simps flip: d_def)
  next
    case False
    then obtain zeros where z: "s = replicate zeros CHR ''0'' @ nat_to_string (digits_value s)"
      using snoc by auto
    have v: "digits_value (s @ [c]) = 10 * digits_value s + d" by (simp add: digits_value_append1 d_def)
    show ?thesis
    proof (cases "digits_value s = 0")
      case True
      then have "s = replicate (Suc zeros) CHR ''0''"
        using z by (simp add: nat_to_string.simps [of 0] zero_digit_char replicate_append_same)
      then have "s @ [c] = replicate (Suc zeros) CHR ''0'' @ nat_to_string (digits_value (s @ [c]))"
        using v True d by (simp add: nat_to_string.simps [of d])
      then show ?thesis by blast
    next
      case False
      then have "nat_to_string (digits_value (s @ [c])) = nat_to_string (digits_value s) @ [c]"
        using v d by (simp add: nat_to_string.simps [of "10 * digits_value s + d"])
      then show ?thesis using z by (metis append.assoc)
    qed
  qed
qed simp

lemma digits_value_zeros: "digits_value (replicate k CHR ''0'' @ s) = digits_value s"
  by (induction k) (simp_all add: digits_value_def)

lemma parse_u64_iff:
  "parse_u64 s = Some w \<longleftrightarrow> (\<exists>zeros. s = replicate zeros CHR ''0'' @ u64_to_string w)"
proof
  assume "parse_u64 s = Some w"
  then have s: "s \<noteq> []" "\<forall>c \<in> set s. is_digit c" "digits_value s < 2 ^ 64" "w = of_nat (digits_value s)"
    by (simp_all add: parse_u64_Some_iff)
  then have "unat w = digits_value s" by (simp add: unat_of_nat)
  with decimal_text [OF s(1,2)] show "\<exists>zeros. s = replicate zeros CHR ''0'' @ u64_to_string w"
    by (simp add: u64_to_string_def)
next
  assume "\<exists>zeros. s = replicate zeros CHR ''0'' @ u64_to_string w"
  then show "parse_u64 s = Some w"
    using unat_less_2p64 [of w]
    by (auto simp: parse_u64_Some_iff u64_to_string_def digits_value_zeros nat_to_string_digits is_digit_def [of "CHR ''0''"])
qed

section \<open>Split and join\<close>

lemma split_on_no_sep: "sep \<notin> set s \<Longrightarrow> split_on sep s = [s]"
  by (simp add: split_on.simps)

lemma split_on_append: "sep \<notin> set f \<Longrightarrow> split_on sep (f @ sep # s) = f # split_on sep s"
proof -
  assume f: "sep \<notin> set f"
  then have "takeWhile (\<lambda>c. c \<noteq> sep) (f @ sep # s) = f"
    "dropWhile (\<lambda>c. c \<noteq> sep) (f @ sep # s) = sep # s"
    by (induction f) auto
  then show ?thesis by (simp add: split_on.simps [of sep "f @ sep # s"])
qed

lemma split_join [text_simps]:
  "fs \<noteq> [] \<Longrightarrow> (\<And>f. f \<in> set fs \<Longrightarrow> sep \<notin> set f) \<Longrightarrow> split_on sep (join_with sep fs) = fs"
  by (induction sep fs rule: join_with.induct) (simp_all add: split_on_no_sep split_on_append)

lemma split_on_nonempty [simp]: "split_on sep s \<noteq> []"
  by (subst split_on.simps) simp

lemma join_split: "join_with sep (split_on sep s) = s"
proof (induction sep s rule: split_on.induct)
  case (1 sep s)
  show ?case
  proof (cases "sep \<in> set s")
    case True
    then have ne: "dropWhile (\<lambda>c. c \<noteq> sep) s \<noteq> []" by (auto simp: dropWhile_eq_Nil_conv)
    then have "hd (dropWhile (\<lambda>c. c \<noteq> sep) s) = sep" by (metis (mono_tags, lifting) hd_dropWhile)
    with ne have "s = takeWhile (\<lambda>c. c \<noteq> sep) s @ sep # tl (dropWhile (\<lambda>c. c \<noteq> sep) s)"
      by (metis hd_Cons_tl takeWhile_dropWhile_id)
    moreover obtain f fs where "split_on sep (tl (dropWhile (\<lambda>c. c \<noteq> sep) s)) = f # fs"
      by (metis split_on_nonempty neq_Nil_conv)
    ultimately show ?thesis using 1 True by (simp add: split_on.simps [of sep s])
  qed (simp add: split_on_no_sep)
qed

lemma split_on_plain: "f \<in> set (split_on sep s) \<Longrightarrow> sep \<notin> set f"
proof (induction sep s rule: split_on.induct)
  case (1 sep s)
  then show ?case by (auto simp: split_on.simps [of sep s] split: if_splits dest: set_takeWhileD)
qed

lemma split_on_eq_iff:
  "fs \<noteq> [] \<Longrightarrow> split_on sep s = fs \<longleftrightarrow> s = join_with sep fs \<and> (\<forall>f \<in> set fs. sep \<notin> set f)"
  by (metis join_split split_join split_on_plain)

lemma join_with_append:
  "fs \<noteq> [] \<Longrightarrow> join_with sep (fs @ [g]) = join_with sep fs @ sep # g"
  by (induction sep fs rule: join_with.induct) simp_all

lemma join_with_Cons: "fs \<noteq> [] \<Longrightarrow> join_with sep (f # fs) = f @ sep # join_with sep fs"
  by (cases fs) simp_all

lemma set_join_with: "set (join_with sep fs) \<subseteq> insert sep (\<Union> (set ` set fs))"
  by (induction sep fs rule: join_with.induct) auto

section \<open>Hexadecimal round trip\<close>

lemma hex_value_all: "map hex_value hex_digits = [0, 1, 2, 3, 4, 5, 6, 7, 8, 9, 10, 11, 12, 13, 14, 15]"
  by (simp add: hex_digits_def hex_value_def less_eq_char_def)

lemma hex_value_digit: "n < 16 \<Longrightarrow> hex_value (hex_digits ! n) = int n"
proof -
  assume n: "n < 16"
  have upto: "map hex_value hex_digits = map int [0 ..< 16]"
    by (simp add: hex_value_all upt_conv_Cons)
  have "hex_value (hex_digits ! n) = map hex_value hex_digits ! n"
    using n by (intro nth_map [symmetric]) (simp add: hex_digits_def)
  also have "\<dots> = int n" unfolding upto using n by simp
  finally show ?thesis .
qed

lemma nibbles: "push_bit 4 (int a) OR int b = int (16 * a + b)" if "b < 16" for a b :: nat
proof -
  have "push_bit 4 (int a) + int b = push_bit 4 (int a) OR int b"
  proof (rule disjunctive_add_eq_or)
    show "push_bit 4 (int a) AND int b = 0"
    proof (rule bit_eqI)
      fix n
      have "take_bit 4 (int b) = int b" using that by (simp add: take_bit_int_eq_self_iff)
      then have "bit (int b) n \<longleftrightarrow> n < 4 \<and> bit (int b) n" by (metis bit_take_bit_iff)
      then show "bit (push_bit 4 (int a) AND int b) n \<longleftrightarrow> bit 0 n"
        by (auto simp: bit_simps)
    qed
  qed
  then show ?thesis by (simp add: push_bit_eq_mult)
qed

lemma nat_and_15: "(n :: nat) AND 15 = n mod 16"
  using take_bit_eq_mask [of 4 n] by (simp add: take_bit_eq_mod mask_eq_exp_minus_1)

lemma of_char_less_256: "(of_char c :: nat) < 256"
  using of_char_mod_256 [of c, where ?'a = nat] by (metis mod_less_divisor zero_less_numeral)

lemma hex_byte:
  defines "h \<equiv> \<lambda>c. hex_digits ! drop_bit 4 (of_char c :: nat)"
    and "l \<equiv> \<lambda>c. hex_digits ! (of_char c AND 0x0F)"
  shows "\<not> hex_value (h c) < 0" "\<not> hex_value (l c) < 0"
    "char_of (push_bit 4 (hex_value (h c)) OR hex_value (l c)) = c"
proof -
  define n where "n = (of_char c :: nat)"
  have low: "of_char c AND 0x0F = n mod 16" by (simp add: n_def nat_and_15)
  have high: "drop_bit 4 (of_char c) = n div 16" by (simp add: n_def drop_bit_eq_div)
  have bound: "n div 16 < 16" "n mod 16 < 16"
    using of_char_less_256 [of c] by (auto simp: n_def div_less_iff_less_mult)
  have hv: "hex_value (h c) = int (n div 16)" and lv: "hex_value (l c) = int (n mod 16)"
    by (simp_all only: h_def l_def low high hex_value_digit bound)
  show "\<not> hex_value (h c) < 0" "\<not> hex_value (l c) < 0"
    by (simp_all only: hv lv of_nat_less_0_iff not_False_eq_True)
  have "push_bit 4 (hex_value (h c)) OR hex_value (l c) = int (16 * (n div 16) + n mod 16)"
    by (simp only: hv lv nibbles [OF bound(2)])
  also have "\<dots> = int n" by simp
  finally show "char_of (push_bit 4 (hex_value (h c)) OR hex_value (l c)) = c"
    by (simp add: n_def of_nat_of_char)
qed

lemma length_hex_encode [simp]: "length (hex_encode s) = 2 * length s"
  by (induction s) auto

lemma hex_decode_encode [text_simps]: "hex_decode odd_size bad (hex_encode s) = Inr s"
proof -
  have "hex_decode_loop bad (hex_encode s) = Inr s"
    by (induction s) (simp_all add: hex_byte)
  then show ?thesis by (simp add: hex_decode_def)
qed


section \<open>What the hexadecimal decoder accepts\<close>

text \<open>
  The denotation of a hexadecimal text, stated without the decoder: two digits for each byte, the
  high half first, each digit a decimal digit or a letter of either case.
\<close>

definition hex_digit_denotes :: "char \<Rightarrow> nat \<Rightarrow> bool" where
  "hex_digit_denotes c n \<longleftrightarrow>
     n < 16 \<and> (c = ''0123456789ABCDEF'' ! n \<or> c = ''0123456789abcdef'' ! n)"

fun hex_denotes :: "string \<Rightarrow> string \<Rightarrow> bool" where
  "hex_denotes [] [] = True"
| "hex_denotes (h # l # text) (b # bytes) =
     (hex_digit_denotes h (of_char b div 16) \<and> hex_digit_denotes l (of_char b mod 16) \<and>
      hex_denotes text bytes)"
| "hex_denotes _ _ = False"

lemma less_16_cases:
  "n < (16 :: nat) \<Longrightarrow> n \<in> {0, 1, 2, 3, 4, 5, 6, 7, 8, 9, 10, 11, 12, 13, 14, 15}"
  by (simp only: insert_iff empty_iff) presburger

lemma hex_digit_code:
  "hex_digit_denotes c n \<longleftrightarrow>
     (n < 10 \<and> of_char c = 48 + n) \<or> (10 \<le> n \<and> n < 16 \<and> (of_char c = 55 + n \<or> of_char c = 87 + n))"
proof (cases "n < 16")
  case True
  have eq: "c = d \<longleftrightarrow> of_char c = (of_char d :: nat)" for d by (metis of_char_eq_iff)
  from less_16_cases [OF True] show ?thesis
    unfolding hex_digit_denotes_def eq by (elim insertE emptyE) (simp_all)
qed (simp add: hex_digit_denotes_def)

lemma hex_value_denotes: "hex_value c = int n \<longleftrightarrow> hex_digit_denotes c n"
proof -
  define v where "v = (of_char c :: nat)"
  have v: "of_char c = int v" by (simp add: v_def of_nat_of_char)
  have "hex_value c = (if 48 \<le> v \<and> v \<le> 57 then int v - 48 else if 65 \<le> v \<and> v \<le> 70 then int v - 55
      else if 97 \<le> v \<and> v \<le> 102 then int v - 87 else - 1)"
    by (simp add: hex_value_def less_eq_char_def v flip: v_def)
  then show ?thesis by (auto simp: hex_digit_code simp flip: v_def)
qed

lemma hex_value_nat: "0 \<le> hex_value c \<Longrightarrow> \<exists>n < 16. hex_value c = int n \<and> hex_digit_denotes c n"
  by (metis hex_digit_denotes_def hex_value_denotes nonneg_int_cases)

lemma char_of_nibbles:
  assumes "a < 16" and "b < 16"
  shows "char_of (push_bit 4 (int a) OR int b) = c \<longleftrightarrow> a = of_char c div 16 \<and> b = of_char c mod 16"
proof -
  have "char_of (push_bit 4 (int a) OR int b) = (char_of (16 * a + b) :: char)"
    unfolding nibbles [OF assms(2)] by (rule char_of_nat)
  moreover have "char_of (16 * a + b) = c \<longleftrightarrow> 16 * a + b = of_char c"
    using assms of_char_less_256 [of c] char_of_eq_iff [of "16 * a + b" c] take_bit_nat_eq_self [of "16 * a + b" 8] by auto
  ultimately show ?thesis using assms by auto
qed

lemma hex_decode_loop_iff: "hex_decode_loop bad s = Inr t \<longleftrightarrow> hex_denotes s t"
proof (induction bad s arbitrary: t rule: hex_decode_loop.induct)
  case (1 bad)
  show ?case by (cases t) simp_all
next
  case (3 bad h l cs)
  show ?case
  proof (cases "hex_value h < 0 \<or> hex_value l < 0")
    case True
    then have "\<not> (\<exists>a b. hex_digit_denotes h a \<and> hex_digit_denotes l b)" by (metis hex_value_denotes of_nat_less_0_iff)
    with True show ?thesis by (cases t) auto
  next
    case False
    then obtain a b where ab: "a < 16" "b < 16" "hex_value h = int a" "hex_value l = int b"
      by (meson hex_value_nat not_less)
    then have "hex_digit_denotes h m \<longleftrightarrow> m = a" "hex_digit_denotes l m \<longleftrightarrow> m = b" for m
      by (metis hex_value_denotes of_nat_eq_iff)+
    with False 3 ab char_of_nibbles [of a b] show ?thesis
      by (cases t; cases "hex_decode_loop bad cs") auto
  qed
qed simp

lemma hex_denotes_even: "hex_denotes s t \<Longrightarrow> length s = 2 * length t"
  by (induction s t rule: hex_denotes.induct) simp_all

lemma hex_decode_iff: "hex_decode odd_size bad s = Inr t \<longleftrightarrow> hex_denotes s t"
  using hex_denotes_even [of s t] by (auto simp: hex_decode_def hex_decode_loop_iff)

section \<open>The contract of a field encoding\<close>

text \<open>
  Lines of the write-ahead log and of the wire protocol are fields joined by a separator.  An
  encoding used for a field must be invertible on the values it is used for and must not produce
  a separator or a line end.
\<close>

definition separators :: "char set" where
  "separators = {CHR ''|'', CHR '','', CHR 0x09, CHR 0x0A, CHR 0x0D}"

locale field_codec =
  fixes enc :: "'a \<Rightarrow> string" and dec :: "string \<Rightarrow> 'a option" and valid :: "'a \<Rightarrow> bool"
  assumes dec_enc: "valid x \<Longrightarrow> dec (enc x) = Some x"
    and enc_plain: "set (enc x) \<inter> separators = {}"
begin

lemma enc_inj_on: "inj_on enc (Collect valid)"
  by (rule inj_onI) (metis dec_enc mem_Collect_eq option.inject)

lemma no_separator: "c \<in> separators \<Longrightarrow> c \<notin> set (enc x)"
  using enc_plain by blast

lemma no_pipe [simp]: "CHR ''|'' \<notin> set (enc x)"
  and no_comma [simp]: "CHR '','' \<notin> set (enc x)"
  and no_tab [simp]: "CHR 0x09 \<notin> set (enc x)"
  and no_newline [simp]: "CHR 0x0A \<notin> set (enc x)"
  and no_return [simp]: "CHR 0x0D \<notin> set (enc x)"
  by (auto intro!: no_separator simp: separators_def)

end

lemma digit_not_separator: "is_digit c \<Longrightarrow> c \<notin> separators"
  by (auto simp: is_digit_def separators_def)

lemma hex_denotes_plain: "hex_denotes s t \<Longrightarrow> c \<in> separators \<Longrightarrow> c \<notin> set s"
proof (induction s t rule: hex_denotes.induct)
  case (2 h l cs b bytes)
  have "d \<notin> separators" if "hex_digit_denotes d n" for d n
    using that by (auto simp: hex_digit_code separators_def)
  with 2 show ?case by auto
qed auto

lemma set_hex_digits: "n < 16 \<Longrightarrow> hex_digits ! n \<in> set hex_digits"
  by (rule nth_mem) (simp add: hex_digits_def)

lemma set_hex_encode: "set (hex_encode s) \<subseteq> set hex_digits"
proof (induction s)
  case (Cons c s)
  have "drop_bit 4 (of_char c :: nat) < 16"
    using of_char_less_256 [of c] by (simp add: drop_bit_eq_div div_less_iff_less_mult)
  moreover have "(of_char c AND 0x0F :: nat) < 16"
    by (simp add: nat_and_15)
  ultimately show ?case using Cons set_hex_digits by (simp only: hex_encode.simps) auto
qed simp

interpretation u64_field: field_codec u64_to_string parse_u64 "\<lambda>_. True"
  by unfold_locales
    (simp add: text_simps, auto simp: u64_to_string_def dest: nat_to_string_digits digit_not_separator)

interpretation i32_field: field_codec int_to_string "parse_int int32_range" int32_range
proof
  show "set (int_to_string i) \<inter> separators = {}" for i
    by (auto simp: int_to_string_def separators_def is_digit_def dest!: nat_to_string_digits)
qed (simp add: text_simps)

interpretation i64_field: field_codec int_to_string "parse_int int64_range" int64_range
  by unfold_locales (simp_all add: text_simps i32_field.enc_plain)

interpretation hex_field: field_codec hex_encode
  "\<lambda>s. case hex_decode (runtime_error []) (runtime_error []) s of Inl _ \<Rightarrow> None | Inr t \<Rightarrow> Some t" "\<lambda>_. True"
proof
  have "set hex_digits \<inter> separators = {}" by (simp add: hex_digits_def separators_def)
  then show "set (hex_encode s) \<inter> separators = {}" for s using set_hex_encode [of s] by blast
qed (simp add: text_simps)

end
