(* ===== verification/Kronos_Tasks.thy ===== *)
theory Kronos_Tasks
  imports Kronos_Text
begin

text \<open>
  The built-in tasks of \<open>src/example_tasks.cpp\<close>: the prime counter and the step task, both
  resumable in slices (\<open>ITask::run_slice\<close>).

  The stop token of a slice is a function \<open>stop\<close>: \<open>stop k\<close> is the answer of the \<open>k\<close>-th call of
  \<open>stop_requested()\<close> during the slice, so that a request may arrive between any two polls.  The timed
  wait of the step task only passes time; its wake-up is seen by the poll after it.

  The locale \<open>sliced_task\<close> is the contract the engine relies on: whenever a stop is requested, a slice
  accounts for the work it did and keeps the invariant; it answers when nothing remains, yields only
  after its whole budget, and is cancelled only on request.  It is interpreted
  for both tasks; the independence of the answer from the slicing is proved once.
\<close>

section \<open>Operations\<close>

text \<open>\<open>value\<close> is a divisor-by-divisor search; the loop condition bounds the divisor.\<close>

function is_prime_loop :: "u64 \<Rightarrow> u64 \<Rightarrow> bool" where
  "is_prime_loop v divisor =
     (if divisor \<le> v div divisor
      then if v mod divisor = 0 then False else is_prime_loop v (divisor + 1)
      else True)"
  by pat_completeness auto
termination
proof (relation "measure (\<lambda>(v, divisor). 2 ^ 64 - unat divisor)", goal_cases)
  case (2 v divisor)
  have "unat divisor + 1 < 2 ^ 64"
  proof (rule ccontr)
    assume "\<not> ?thesis"
    then have d: "unat divisor = 2 ^ 64 - 1" using unat_less_2p64 [of divisor] by simp
    have "unat v div unat divisor \<le> 1"
      using unat_less_2p64 [of v] unfolding d by (simp add: div_le_mono [of _ _ "2 ^ 64 - 1", THEN order_trans])
    then show False using 2(1) d by (simp add: word_le_nat_alt unat_div)
  qed
  then show ?case by (simp add: unat_Suc_no_wrap)
qed simp

declare is_prime_loop.simps [simp del]

definition is_prime :: "u64 \<Rightarrow> bool" where
  "is_prime v = (if v < 2 then False else is_prime_loop v 2)"

definition effective_budget :: "work_units \<Rightarrow> work_units \<Rightarrow> work_units" where
  "effective_budget requested remaining =
     (if requested = unlimited_work then remaining else min requested remaining)"

record prime_count_task =
  pc_upper_bound :: u64
  pc_candidate :: u64
  pc_prime_count :: u64

definition PrimeCountTask :: "u64 \<Rightarrow> prime_count_task" where
  "PrimeCountTask upper_bound =
     \<lparr>pc_upper_bound = upper_bound, pc_candidate = 2, pc_prime_count = 0\<rparr>"

definition prime_step :: "prime_count_task \<Rightarrow> prime_count_task" where
  "prime_step t =
     t\<lparr>pc_prime_count := (if is_prime (pc_candidate t) then pc_prime_count t + 1 else pc_prime_count t),
       pc_candidate := pc_candidate t + 1\<rparr>"

text \<open>The loop returns whether it saw a stop request, the work consumed and the new state.\<close>

function prime_loop :: "(nat \<Rightarrow> bool) \<Rightarrow> nat \<Rightarrow> work_units \<Rightarrow> work_units \<Rightarrow> prime_count_task \<Rightarrow>
    bool \<times> work_units \<times> prime_count_task" where
  "prime_loop stop k budget consumed t =
     (if consumed < budget \<and> pc_candidate t \<le> pc_upper_bound t
      then if stop k then (True, consumed, t)
           else prime_loop stop (k + 1) budget (consumed + 1) (prime_step t)
      else (False, consumed, t))"
  by pat_completeness auto
termination
  by (relation "measure (\<lambda>(stop, k, budget, consumed, t). unat budget - unat consumed)")
    (auto simp: word_less_nat_alt unat_Suc_below)

declare prime_loop.simps [simp del]

definition primes_found :: "u64 \<Rightarrow> string" where
  "primes_found n = ''primes found: '' @ u64_to_string n"

definition prime_run_slice :: "(nat \<Rightarrow> bool) \<Rightarrow> work_units \<Rightarrow> prime_count_task \<Rightarrow>
    slice_result \<times> prime_count_task" where
  "prime_run_slice stop max_work_units t =
     (if stop 0 then (slice_cancelled ''prime-count task cancelled'' 0, t)
      else if pc_upper_bound t < pc_candidate t
        then (slice_completed (primes_found (pc_prime_count t)) 0, t)
      else
        let remaining = pc_upper_bound t - pc_candidate t + 1;
            budget = effective_budget max_work_units remaining in
        case prime_loop stop 1 budget 0 t of
          (stopped, consumed, t') \<Rightarrow>
            if stopped then (slice_cancelled ''prime-count task cancelled'' consumed, t')
            else if pc_upper_bound t' < pc_candidate t'
              then (slice_completed (primes_found (pc_prime_count t')) consumed, t')
            else (slice_yielded consumed, t'))"

record step_task =
  st_total_steps :: work_units
  st_completed_steps :: work_units
  st_delay_per_step :: int

definition StepTask :: "work_units \<Rightarrow> int \<Rightarrow> step_task" where
  "StepTask steps delay_per_step =
     \<lparr>st_total_steps = steps, st_completed_steps = 0, st_delay_per_step = delay_per_step\<rparr>"

function step_loop :: "(nat \<Rightarrow> bool) \<Rightarrow> nat \<Rightarrow> work_units \<Rightarrow> work_units \<Rightarrow> step_task \<Rightarrow>
    bool \<times> work_units \<times> step_task" where
  "step_loop stop k budget consumed t =
     (if consumed < budget \<and> st_completed_steps t < st_total_steps t
      then if stop k then (True, consumed, t)
           else step_loop stop (k + 1) budget (consumed + 1)
                  (t\<lparr>st_completed_steps := st_completed_steps t + 1\<rparr>)
      else (False, consumed, t))"
  by pat_completeness auto
termination
  by (relation "measure (\<lambda>(stop, k, budget, consumed, t). unat budget - unat consumed)")
    (auto simp: word_less_nat_alt unat_Suc_below)

declare step_loop.simps [simp del]

definition steps_completed :: "u64 \<Rightarrow> string" where
  "steps_completed n = ''steps completed: '' @ u64_to_string n"

definition step_run_slice :: "(nat \<Rightarrow> bool) \<Rightarrow> work_units \<Rightarrow> step_task \<Rightarrow> slice_result \<times> step_task" where
  "step_run_slice stop max_work_units t =
     (if stop 0 then (slice_cancelled ''step task cancelled'' 0, t)
      else if st_total_steps t \<le> st_completed_steps t
        then (slice_completed (steps_completed (st_completed_steps t)) 0, t)
      else
        let remaining = st_total_steps t - st_completed_steps t;
            budget = effective_budget max_work_units remaining in
        case step_loop stop 1 budget 0 t of
          (stopped, consumed, t') \<Rightarrow>
            if stopped then (slice_cancelled ''step task cancelled'' consumed, t')
            else if st_completed_steps t' = st_total_steps t'
              then (slice_completed (steps_completed (st_completed_steps t')) consumed, t')
            else (slice_yielded consumed, t'))"

section \<open>Primality\<close>

definition prime_nat :: "nat \<Rightarrow> bool" where
  "prime_nat n \<longleftrightarrow> 2 \<le> n \<and> (\<forall>d \<in> {2 ..< n}. n mod d \<noteq> 0)"

lemma is_prime_loop_correct:
  assumes "2 \<le> unat divisor"
  shows "is_prime_loop v divisor \<longleftrightarrow> (\<forall>d. unat divisor \<le> d \<and> d * d \<le> unat v \<longrightarrow> unat v mod d \<noteq> 0)"
  using assms
proof (induction v divisor rule: is_prime_loop.induct)
  case (1 v divisor)
  have le: "divisor \<le> v div divisor \<longleftrightarrow> unat divisor * unat divisor \<le> unat v"
    using 1(2) by (simp add: word_le_nat_alt unat_div less_eq_div_iff_mult_less_eq)
  have dv: "v mod divisor = 0 \<longleftrightarrow> unat v mod unat divisor = 0"
    by (metis unat_eq_zero unat_mod)
  show ?case
  proof (cases "divisor \<le> v div divisor \<and> v mod divisor \<noteq> 0")
    case True
    have "unat divisor \<le> unat divisor * unat divisor" using 1(2) by simp
    moreover have "2 * unat divisor \<le> unat divisor * unat divisor" using 1(2) by (intro mult_le_mono1)
    ultimately have "unat divisor + 1 < 2 ^ 64"
      using True le unat_less_2p64 [of v] 1(2) by linarith
    then have suc: "unat (divisor + 1) = unat divisor + 1" by (rule unat_Suc_no_wrap)
    have "is_prime_loop v (divisor + 1) \<longleftrightarrow>
        (\<forall>d. unat divisor + 1 \<le> d \<and> d * d \<le> unat v \<longrightarrow> unat v mod d \<noteq> 0)"
      using 1 True suc by simp
    also have "\<dots> \<longleftrightarrow> (\<forall>d. unat divisor \<le> d \<and> d * d \<le> unat v \<longrightarrow> unat v mod d \<noteq> 0)"
      using True dv by (auto simp: le_eq_less_or_eq [of "unat divisor"] Suc_le_eq)
    finally show ?thesis using True by (subst is_prime_loop.simps) simp
  next
    case False
    then show ?thesis
    proof (cases "divisor \<le> v div divisor")
      case True
      then show ?thesis using False dv le by (subst is_prime_loop.simps) auto
    next
      case big: False
      have "\<not> (unat divisor \<le> d \<and> d * d \<le> unat v)" for d
        using big le mult_le_mono [of "unat divisor" d "unat divisor" d] by linarith
      then show ?thesis using big by (subst is_prime_loop.simps) auto
    qed
  qed
qed

lemma is_prime_correct: "is_prime v \<longleftrightarrow> prime_nat (unat v)"
proof (cases "v < 2")
  case False
  then have two: "2 \<le> unat v" by (simp add: word_less_nat_alt)
  have "(\<forall>d. 2 \<le> d \<and> d * d \<le> unat v \<longrightarrow> unat v mod d \<noteq> 0) \<longleftrightarrow> (\<forall>d \<in> {2 ..< unat v}. unat v mod d \<noteq> 0)"
    (is "?small \<longleftrightarrow> ?all")
  proof
    assume small: ?small
    show ?all
    proof (intro ballI notI)
      fix d assume d: "d \<in> {2 ..< unat v}" and "unat v mod d = 0"
      then obtain e where e: "unat v = d * e" by auto
      then have e2: "2 \<le> e" using d by (cases e) (auto simp: not_less_eq_eq Suc_le_eq numeral_2_eq_2)
      have "unat v mod e = 0" "unat v mod d = 0" using e by simp_all
      moreover have "d * d \<le> unat v \<or> e * e \<le> unat v"
        unfolding e by (metis le_cases mult_le_mono1 mult_le_mono2)
      ultimately show False using small d e2 by auto
    qed
  next
    assume all: ?all
    show ?small
    proof (intro allI impI)
      fix d assume d: "2 \<le> d \<and> d * d \<le> unat v"
      then have "2 * d \<le> unat v" using mult_le_mono1 [of 2 d d] by linarith
      then show "unat v mod d \<noteq> 0" using all d by auto
    qed
  qed
  then show ?thesis using False two by (simp add: is_prime_def is_prime_loop_correct prime_nat_def)
qed (simp add: is_prime_def prime_nat_def word_less_nat_alt)

section \<open>The contract of a sliced task\<close>

fun drive :: "(work_units \<Rightarrow> 't \<Rightarrow> slice_result \<times> 't) \<Rightarrow> work_units list \<Rightarrow> 't \<Rightarrow> slice_result option \<times> nat" where
  "drive run [] t = (None, 0)"
| "drive run (b # bs) t =
     (case run b t of (r, t') \<Rightarrow>
        if sr_status r = SliceYielded
        then map_prod (\<lambda>x. x) ((+) (unat (sr_work_units_consumed r))) (drive run bs t')
        else (Some r, unat (sr_work_units_consumed r)))"

locale sliced_task =
  fixes run :: "(nat \<Rightarrow> bool) \<Rightarrow> work_units \<Rightarrow> 't \<Rightarrow> slice_result \<times> 't"
    and invar :: "'t \<Rightarrow> bool" and remaining :: "'t \<Rightarrow> nat" and answer :: "'t \<Rightarrow> string"
  assumes slice: "invar t \<Longrightarrow> run stop b t = (r, t') \<Longrightarrow>
      invar t' \<and> answer t' = answer t \<and> remaining t = remaining t' + unat (sr_work_units_consumed r) \<and>
      (case sr_status r of
         SliceCompleted \<Rightarrow> remaining t' = 0 \<and> sr_message r = answer t
       | SliceYielded \<Rightarrow> remaining t' \<noteq> 0 \<and> sr_work_units_consumed r = b
       | SliceCancelled \<Rightarrow> \<exists>k. stop k
       | SliceFailed \<Rightarrow> False)"
    and budget: "run stop b t = (r, t') \<Longrightarrow> unat (sr_work_units_consumed r) \<le> unat b"
begin

text \<open>Without a stop request the budget alone decides how the slice ends.\<close>

lemma free_slice:
  assumes "invar t" "run (\<lambda>_. False) b t = (r, t')"
  shows "invar t' \<and> answer t' = answer t \<and> remaining t = remaining t' + unat (sr_work_units_consumed r) \<and>
    (if remaining t \<le> unat b then remaining t' = 0 \<and> sr_status r = SliceCompleted \<and> sr_message r = answer t
     else unat (sr_work_units_consumed r) = unat b \<and> sr_status r = SliceYielded)"
  using slice [OF assms] budget [OF assms(2)] by (cases "sr_status r") auto

lemma drive_answers:
  "invar t \<Longrightarrow> \<forall>b \<in> set bs. 0 < b \<Longrightarrow> bs \<noteq> [] \<Longrightarrow> remaining t \<le> sum_list (map unat bs) \<Longrightarrow>
     \<exists>r. drive (run (\<lambda>_. False)) bs t = (Some r, remaining t) \<and>
         sr_status r = SliceCompleted \<and> sr_message r = answer t"
proof (induction bs arbitrary: t)
  case (Cons b bs)
  obtain r t' where run: "run (\<lambda>_. False) b t = (r, t')" by fastforce
  note sl = free_slice [OF Cons.prems(1) run]
  show ?case
  proof (cases "remaining t \<le> unat b")
    case True
    then have fin: "remaining t' = 0 \<and> sr_status r = SliceCompleted \<and> sr_message r = answer t"
      using sl by metis
    then have "unat (sr_work_units_consumed r) = remaining t" using sl by linarith
    then show ?thesis using run fin by simp
  next
    case False
    then have y: "sr_status r = SliceYielded" "unat (sr_work_units_consumed r) = unat b"
      using sl by metis+
    have inv: "invar t'" "answer t' = answer t" using sl by blast+
    have rem: "remaining t = unat b + remaining t'" using sl y(2) by linarith
    have "remaining t' \<le> sum_list (map unat bs)" using Cons.prems(4) rem by simp
    moreover have "bs \<noteq> []" using Cons.prems(4) False by auto
    ultimately obtain r' where "drive (run (\<lambda>_. False)) bs t' = (Some r', remaining t')"
        "sr_status r' = SliceCompleted" "sr_message r' = answer t'"
      using Cons.IH [OF inv(1)] Cons.prems(2) by auto
    then show ?thesis using y run inv rem by simp
  qed
qed simp

end

section \<open>The step task\<close>

lemma effective_budget_unat: "unat (effective_budget b m) = min (unat b) (unat m)"
proof -
  have "unat m \<le> unat unlimited_work"
    using unat_less_2p64 [of m] by (simp add: unlimited_work_def)
  then show ?thesis
    by (simp add: effective_budget_def min_def word_le_nat_alt)
qed

lemma step_loop_run:
  assumes "unat consumed \<le> unat budget" "unat (st_completed_steps t) \<le> unat (st_total_steps t)"
    "step_loop stop k budget consumed t = (stopped, c, t')"
  shows "st_total_steps t' = st_total_steps t \<and> unat (st_completed_steps t') \<le> unat (st_total_steps t) \<and>
    unat (st_completed_steps t') + unat consumed = unat (st_completed_steps t) + unat c \<and>
    (if stopped then \<exists>k. stop k
     else unat c = unat consumed + min (unat budget - unat consumed) (unat (st_total_steps t) - unat (st_completed_steps t)))"
  using assms
proof (induction stop k budget consumed t rule: step_loop.induct)
  case (1 stop k budget consumed t)
  show ?case
  proof (cases "consumed < budget \<and> st_completed_steps t < st_total_steps t \<and> \<not> stop k")
    case True
    then have "unat (consumed + 1) = unat consumed + 1"
        "unat (st_completed_steps t + 1) = unat (st_completed_steps t) + 1"
      using unat_Suc_below [of consumed budget] unat_Suc_below [of "st_completed_steps t" "st_total_steps t"]
      by (simp_all add: word_less_nat_alt)
    then show ?thesis using 1 True
      by (simp add: step_loop.simps [of _ k] word_less_nat_alt split: if_splits) linarith+
  next
    case False
    then show ?thesis using 1(2-)
      by (auto simp: step_loop.simps [of _ k] word_less_nat_alt split: if_splits)
  qed
qed

lemma step_loop_budget:
  "unat consumed \<le> unat budget \<Longrightarrow> step_loop stop k budget consumed t = (stopped, c, t') \<Longrightarrow>
     unat c \<le> unat budget"
proof (induction stop k budget consumed t rule: step_loop.induct)
  case (1 stop k budget consumed t)
  show ?case
  proof (cases "consumed < budget \<and> st_completed_steps t < st_total_steps t \<and> \<not> stop k")
    case True
    then have "unat (consumed + 1) \<le> unat budget"
      using unat_Suc_below [of consumed budget] by (simp add: word_less_nat_alt)
    then show ?thesis using 1 True by (simp add: step_loop.simps [of stop k])
  next
    case False
    then show ?thesis using 1 by (auto simp: step_loop.simps [of stop k] split: if_splits)
  qed
qed

definition step_invar :: "step_task \<Rightarrow> bool" where
  "step_invar t \<longleftrightarrow> unat (st_completed_steps t) \<le> unat (st_total_steps t)"

definition step_remaining :: "step_task \<Rightarrow> nat" where
  "step_remaining t = unat (st_total_steps t) - unat (st_completed_steps t)"

definition step_answer :: "step_task \<Rightarrow> string" where
  "step_answer t = steps_completed (st_total_steps t)"

interpretation step: sliced_task step_run_slice step_invar step_remaining step_answer
proof
  fix t stop b r t' assume t: "step_invar t" and run: "step_run_slice stop b t = (r, t')"
  show "step_invar t' \<and> step_answer t' = step_answer t \<and>
      step_remaining t = step_remaining t' + unat (sr_work_units_consumed r) \<and>
      (case sr_status r of
         SliceCompleted \<Rightarrow> step_remaining t' = 0 \<and> sr_message r = step_answer t
       | SliceYielded \<Rightarrow> step_remaining t' \<noteq> 0 \<and> sr_work_units_consumed r = b
       | SliceCancelled \<Rightarrow> \<exists>k. stop k
       | SliceFailed \<Rightarrow> False)"
  proof (cases "stop 0 \<or> st_total_steps t \<le> st_completed_steps t")
    case True
    then have "\<not> stop 0 \<longrightarrow> st_completed_steps t = st_total_steps t"
      using t by (auto simp: step_invar_def word_le_nat_alt word_unat_eq_iff)
    then show ?thesis using run t True
      by (auto simp: step_run_slice_def slice_result_defs step_remaining_def step_answer_def split: if_splits)
  next
    case False
    define budget where "budget = effective_budget b (st_total_steps t - st_completed_steps t)"
    obtain stopped c u where loop: "step_loop stop 1 budget 0 t = (stopped, c, u)"
      by (metis prod_cases3)
    have bu: "unat budget = min (unat b) (step_remaining t)"
      using False t
      by (simp add: budget_def effective_budget_unat step_remaining_def step_invar_def unat_sub word_le_nat_alt)
    have l: "st_total_steps u = st_total_steps t" "unat (st_completed_steps u) \<le> unat (st_total_steps t)"
        "unat (st_completed_steps u) = unat (st_completed_steps t) + unat c"
        "stopped \<Longrightarrow> \<exists>k. stop k" "\<not> stopped \<Longrightarrow> unat c = min (unat b) (step_remaining t)"
      using step_loop_run [OF _ _ loop] t bu by (auto simp: step_invar_def step_remaining_def)
    have "(r, t') = (if stopped then (slice_cancelled ''step task cancelled'' c, u)
        else if st_completed_steps u = st_total_steps u
        then (slice_completed (steps_completed (st_completed_steps u)) c, u) else (slice_yielded c, u))"
      using run False loop by (simp add: step_run_slice_def Let_def budget_def)
    moreover have "\<not> stopped \<Longrightarrow> st_completed_steps u \<noteq> st_total_steps u \<Longrightarrow> c = b"
      using l t by (auto simp: word_unat_eq_iff step_invar_def step_remaining_def min_def split: if_splits)
    moreover have "st_completed_steps u \<noteq> st_total_steps u \<Longrightarrow> unat (st_completed_steps u) \<noteq> unat (st_total_steps u)"
      by (simp add: word_unat_eq_iff)
    ultimately show ?thesis
      using l t by (auto simp: slice_result_defs step_invar_def step_remaining_def step_answer_def split: if_splits)
  qed
next
  fix stop b t r t' assume run: "step_run_slice stop b t = (r, t')"
  define budget where "budget = effective_budget b (st_total_steps t - st_completed_steps t)"
  obtain stopped c u where loop: "step_loop stop 1 budget 0 t = (stopped, c, u)"
    by (metis prod_cases3)
  have "unat c \<le> unat budget" using step_loop_budget [OF _ loop] by simp
  also have "\<dots> \<le> unat b" by (simp add: budget_def effective_budget_unat)
  finally show "unat (sr_work_units_consumed r) \<le> unat b"
    using run loop by (auto simp: step_run_slice_def Let_def slice_result_defs budget_def split: if_splits)
qed

section \<open>The prime counter\<close>

definition primes_up_to :: "nat \<Rightarrow> nat" where
  "primes_up_to n = card {p. prime_nat p \<and> p \<le> n}"

lemma primes_up_to_Suc: "primes_up_to (Suc n) = primes_up_to n + (if prime_nat (Suc n) then 1 else 0)"
proof -
  have "{p. prime_nat p \<and> p \<le> Suc n} = (if prime_nat (Suc n) then insert (Suc n) {p. prime_nat p \<and> p \<le> n}
      else {p. prime_nat p \<and> p \<le> n})" by (auto simp: le_Suc_eq)
  then show ?thesis by (simp add: primes_up_to_def)
qed

lemma primes_up_to_small: "n < 2 \<Longrightarrow> primes_up_to n = 0"
  by (auto simp: primes_up_to_def prime_nat_def)

definition prime_counted :: "prime_count_task \<Rightarrow> bool" where
  "prime_counted t \<longleftrightarrow> 2 \<le> unat (pc_candidate t) \<and> pc_prime_count t = of_nat (primes_up_to (unat (pc_candidate t) - 1))"

definition prime_invar :: "prime_count_task \<Rightarrow> bool" where
  "prime_invar t \<longleftrightarrow> pc_upper_bound t \<noteq> 0xFFFFFFFFFFFFFFFF \<and> prime_counted t \<and>
     unat (pc_candidate t) \<le> max 2 (unat (pc_upper_bound t) + 1)"

definition prime_remaining :: "prime_count_task \<Rightarrow> nat" where
  "prime_remaining t = unat (pc_upper_bound t) + 1 - unat (pc_candidate t)"

definition prime_answer :: "prime_count_task \<Rightarrow> string" where
  "prime_answer t = primes_found (of_nat (primes_up_to (unat (pc_upper_bound t))))"

lemma unat_Suc_not_max: "w \<noteq> 0xFFFFFFFFFFFFFFFF \<Longrightarrow> unat (w :: u64) + 1 < 2 ^ 64"
proof (rule ccontr)
  assume w: "w \<noteq> 0xFFFFFFFFFFFFFFFF" and "\<not> unat w + 1 < 2 ^ 64"
  then have "unat w = unat (0xFFFFFFFFFFFFFFFF :: u64)" using unat_less_2p64 [of w] by simp
  with w show False by (simp only: word_unat_eq_iff)
qed

lemma prime_step_counted:
  assumes "prime_counted t" "pc_candidate t \<le> pc_upper_bound t" "pc_upper_bound t \<noteq> 0xFFFFFFFFFFFFFFFF"
  shows "prime_counted (prime_step t)" "unat (pc_candidate (prime_step t)) = unat (pc_candidate t) + 1"
    "pc_upper_bound (prime_step t) = pc_upper_bound t"
proof -
  have suc: "unat (pc_candidate t + 1) = unat (pc_candidate t) + 1"
    using assms(2) unat_Suc_not_max [OF assms(3)] by (intro unat_Suc_no_wrap) (simp add: word_le_nat_alt)
  then show "unat (pc_candidate (prime_step t)) = unat (pc_candidate t) + 1"
    "pc_upper_bound (prime_step t) = pc_upper_bound t"
    by (simp_all add: prime_step_def)
  have "unat (pc_candidate t) = Suc (unat (pc_candidate t) - 1)"
    using assms(1) by (simp add: prime_counted_def)
  then have "primes_up_to (unat (pc_candidate t)) =
      primes_up_to (unat (pc_candidate t) - 1) + (if prime_nat (unat (pc_candidate t)) then 1 else 0)"
    using primes_up_to_Suc [of "unat (pc_candidate t) - 1"] by simp
  then show "prime_counted (prime_step t)"
    using assms(1) suc by (simp add: prime_counted_def prime_step_def is_prime_correct)
qed

lemma prime_loop_run:
  assumes "unat consumed \<le> unat budget" "prime_counted t" "pc_upper_bound t \<noteq> 0xFFFFFFFFFFFFFFFF"
    "prime_loop stop k budget consumed t = (stopped, c, t')"
  shows "pc_upper_bound t' = pc_upper_bound t \<and> prime_counted t' \<and>
    unat (pc_candidate t') + unat consumed = unat (pc_candidate t) + unat c \<and>
    unat c \<le> unat consumed + prime_remaining t \<and>
    (if stopped then \<exists>k. stop k
     else unat c = unat consumed + min (unat budget - unat consumed) (prime_remaining t))"
  using assms
proof (induction stop k budget consumed t rule: prime_loop.induct)
  case (1 stop k budget consumed t)
  show ?case
  proof (cases "consumed < budget \<and> pc_candidate t \<le> pc_upper_bound t \<and> \<not> stop k")
    case True
    then have "unat (consumed + 1) = unat consumed + 1" "unat consumed < unat budget"
      using unat_Suc_below [of consumed budget] by (simp_all add: word_less_nat_alt)
    moreover have le: "pc_candidate t \<le> pc_upper_bound t" using True by simp
    moreover note st = prime_step_counted [OF 1(3) le 1(4)]
    moreover have "unat (pc_candidate t) \<le> unat (pc_upper_bound t)" using True by (simp add: word_le_nat_alt)
    moreover have "prime_loop stop (k + 1) budget (consumed + 1) (prime_step t) = (stopped, c, t')"
      using 1(5) True by (simp add: prime_loop.simps [of _ k])
    ultimately show ?thesis
      using 1(1) 1(4) True by (simp add: prime_remaining_def split: if_splits) linarith+
  next
    case False
    then show ?thesis using 1(2-)
      by (auto simp: prime_loop.simps [of _ k] prime_remaining_def word_less_nat_alt word_le_nat_alt split: if_splits)
  qed
qed

lemma prime_loop_budget:
  "unat consumed \<le> unat budget \<Longrightarrow> prime_loop stop k budget consumed t = (stopped, c, t') \<Longrightarrow>
     unat c \<le> unat budget"
proof (induction stop k budget consumed t rule: prime_loop.induct)
  case (1 stop k budget consumed t)
  show ?case
  proof (cases "consumed < budget \<and> pc_candidate t \<le> pc_upper_bound t \<and> \<not> stop k")
    case True
    then have "unat (consumed + 1) \<le> unat budget"
      using unat_Suc_below [of consumed budget] by (simp add: word_less_nat_alt)
    then show ?thesis using 1 True by (simp add: prime_loop.simps [of stop k])
  next
    case False
    then show ?thesis using 1 by (auto simp: prime_loop.simps [of stop k] split: if_splits)
  qed
qed

lemma prime_loop_bound: "prime_loop stop k budget consumed t = (stopped, c, u) \<Longrightarrow> pc_upper_bound u = pc_upper_bound t"
  by (induction stop k budget consumed t rule: prime_loop.induct)
    (subst (asm) (2) prime_loop.simps, auto simp: prime_step_def split: if_splits)

lemma prime_counted_answer:
  assumes "prime_invar t" "unat (pc_upper_bound t) < unat (pc_candidate t)"
  shows "primes_found (pc_prime_count t) = prime_answer t"
proof (cases "unat (pc_upper_bound t) < 2")
  case True
  then have "primes_up_to (unat (pc_candidate t) - 1) = 0" "primes_up_to (unat (pc_upper_bound t)) = 0"
    using assms by (auto intro!: primes_up_to_small simp: prime_invar_def prime_counted_def)
  then show ?thesis using assms by (simp add: prime_answer_def prime_invar_def prime_counted_def)
next
  case False
  then have "unat (pc_candidate t) - 1 = unat (pc_upper_bound t)" using assms by (auto simp: prime_invar_def)
  then show ?thesis using assms by (simp add: prime_answer_def prime_invar_def prime_counted_def)
qed

interpretation prime: sliced_task prime_run_slice prime_invar prime_remaining prime_answer
proof
  fix t stop b r t' assume t: "prime_invar t" and run: "prime_run_slice stop b t = (r, t')"
  show "prime_invar t' \<and> prime_answer t' = prime_answer t \<and>
      prime_remaining t = prime_remaining t' + unat (sr_work_units_consumed r) \<and>
      (case sr_status r of
         SliceCompleted \<Rightarrow> prime_remaining t' = 0 \<and> sr_message r = prime_answer t
       | SliceYielded \<Rightarrow> prime_remaining t' \<noteq> 0 \<and> sr_work_units_consumed r = b
       | SliceCancelled \<Rightarrow> \<exists>k. stop k
       | SliceFailed \<Rightarrow> False)"
  proof (cases "stop 0 \<or> pc_upper_bound t < pc_candidate t")
    case True
    then show ?thesis using run t prime_counted_answer [OF t]
      by (auto simp: prime_run_slice_def slice_result_defs prime_remaining_def word_less_nat_alt split: if_splits)
  next
    case False
    define budget where "budget = effective_budget b (pc_upper_bound t - pc_candidate t + 1)"
    obtain stopped c u where loop: "prime_loop stop 1 budget 0 t = (stopped, c, u)"
      by (metis prod_cases3)
    have ub: "unat (pc_upper_bound t) + 1 < 2 ^ 64" "unat (pc_candidate t) \<le> unat (pc_upper_bound t)"
      using t False unat_Suc_not_max by (auto simp: prime_invar_def word_less_nat_alt)
    have "unat (pc_upper_bound t - pc_candidate t + 1) = prime_remaining t"
      using ub by (simp add: prime_remaining_def unat_Suc_no_wrap unat_sub word_le_nat_alt)
    then have bu: "unat budget = min (unat b) (prime_remaining t)"
      by (simp add: budget_def effective_budget_unat)
    have l: "pc_upper_bound u = pc_upper_bound t" "prime_counted u" "unat c \<le> prime_remaining t"
        "unat (pc_candidate u) = unat (pc_candidate t) + unat c"
        "stopped \<Longrightarrow> \<exists>k. stop k" "\<not> stopped \<Longrightarrow> unat c = min (unat b) (prime_remaining t)"
      using prime_loop_run [OF _ _ _ loop] t bu by (auto simp: prime_invar_def)
    have u: "prime_invar u" "prime_answer u = prime_answer t" "prime_remaining t = prime_remaining u + unat c"
      using l(1-4) t ub by (auto simp: prime_invar_def prime_remaining_def prime_answer_def)
    have "(r, t') = (if stopped then (slice_cancelled ''prime-count task cancelled'' c, u)
        else if pc_upper_bound u < pc_candidate u
        then (slice_completed (primes_found (pc_prime_count u)) c, u) else (slice_yielded c, u))"
      using run False loop by (simp add: prime_run_slice_def Let_def budget_def)
    then consider "stopped" "r = slice_cancelled ''prime-count task cancelled'' c" "t' = u"
      | "\<not> stopped" "pc_upper_bound u < pc_candidate u" "r = slice_completed (primes_found (pc_prime_count u)) c" "t' = u"
      | "\<not> stopped" "\<not> pc_upper_bound u < pc_candidate u" "r = slice_yielded c" "t' = u"
      by (auto split: if_splits)
    then show ?thesis
    proof cases
      case 2
      then have "unat (pc_upper_bound u) < unat (pc_candidate u)" by (simp add: word_less_nat_alt)
      then show ?thesis using 2 u prime_counted_answer [OF u(1)] by (simp add: slice_result_defs prime_remaining_def)
    next
      case 3
      then have "prime_remaining u \<noteq> 0" by (simp add: prime_remaining_def word_less_nat_alt)
      moreover from this have "c = b" using l(6) [OF 3(1)] u(3) by (simp add: word_unat_eq_iff min_def split: if_splits)
      ultimately show ?thesis using 3 u by (simp add: slice_result_defs)
    qed (use l(5) u in \<open>simp add: slice_result_defs\<close>)
  qed
next
  fix stop b t r t' assume run: "prime_run_slice stop b t = (r, t')"
  define budget where "budget = effective_budget b (pc_upper_bound t - pc_candidate t + 1)"
  obtain stopped c u where loop: "prime_loop stop 1 budget 0 t = (stopped, c, u)"
    by (metis prod_cases3)
  have "unat c \<le> unat budget" using prime_loop_budget [OF _ loop] by simp
  also have "\<dots> \<le> unat b" by (simp add: budget_def effective_budget_unat)
  finally show "unat (sr_work_units_consumed r) \<le> unat b"
    using run loop by (auto simp: prime_run_slice_def Let_def slice_result_defs budget_def split: if_splits)
qed

section \<open>Properties\<close>

text \<open>
  C31 (primality test).  Trial division with the loop bound \<open>divisor <= value / divisor\<close> decides
  primality of every 64-bit number, and the loop always ends.
\<close>

theorem is_prime_decides: "is_prime v \<longleftrightarrow> prime_nat (unat v)"
  by (rule is_prime_correct)

text \<open>
  C30 (prime counter).  For every upper bound below \<open>UINT64_MAX\<close> and every sequence of positive slice
  budgets that together suffice, the slices end with \<open>Completed\<close>, the message names the number of
  primes up to the bound, and the total work is the number of candidates: the slicing does not
  matter.
\<close>

theorem prime_task_correct:
  assumes "n \<noteq> 0xFFFFFFFFFFFFFFFF" "bs \<noteq> []" "\<forall>b \<in> set bs. 0 < b" "unat n - 1 \<le> sum_list (map unat bs)"
  shows "\<exists>r. drive (prime_run_slice (\<lambda>_. False)) bs (PrimeCountTask n) = (Some r, unat n - 1) \<and>
    sr_status r = SliceCompleted \<and>
    sr_message r = ''primes found: '' @ u64_to_string (of_nat (card {p. prime_nat p \<and> p \<le> unat n}))"
proof -
  have "prime_invar (PrimeCountTask n)"
    using assms(1) by (simp add: prime_invar_def prime_counted_def PrimeCountTask_def primes_up_to_small)
  then show ?thesis
    using prime.drive_answers [of "PrimeCountTask n" bs] assms
    by (simp add: prime_remaining_def prime_answer_def PrimeCountTask_def primes_found_def primes_up_to_def)
qed

theorem prime_task_correct_witness:
  "\<exists>r. drive (prime_run_slice (\<lambda>_. False)) [4, 4, 100] (PrimeCountTask 10) = (Some r, 9) \<and>
    sr_status r = SliceCompleted \<and>
    sr_message r = ''primes found: '' @ u64_to_string (of_nat (card {p. prime_nat p \<and> p \<le> 10}))"
  using prime_task_correct [of 10 "[4, 4, 100]"] by simp

text \<open>
  Step task.  The same for the step task: any sufficient sequence of positive budgets
  completes it, with all its steps done.
\<close>

theorem step_task_correct:
  assumes "bs \<noteq> []" "\<forall>b \<in> set bs. 0 < b" "unat n \<le> sum_list (map unat bs)"
  shows "\<exists>r. drive (step_run_slice (\<lambda>_. False)) bs (StepTask n delay) = (Some r, unat n) \<and>
    sr_status r = SliceCompleted \<and> sr_message r = ''steps completed: '' @ u64_to_string n"
  using step.drive_answers [of "StepTask n delay" bs] assms
  by (simp add: step_invar_def step_remaining_def step_answer_def StepTask_def steps_completed_def)

theorem step_task_correct_witness:
  "\<exists>r. drive (step_run_slice (\<lambda>_. False)) [3, unlimited_work] (StepTask 5 20) = (Some r, 5) \<and>
    sr_status r = SliceCompleted \<and> sr_message r = ''steps completed: '' @ u64_to_string 5"
  using step_task_correct [of "[3, unlimited_work]" 5 20] by (simp add: unlimited_work_def)

text \<open>
  Slice budget.  Whatever the state and whenever a stop is requested, a slice of either task
  never consumes more work than its budget.
\<close>

theorem slices_respect_budget:
  "unat (sr_work_units_consumed (fst (prime_run_slice stop b p))) \<le> unat b \<and>
   unat (sr_work_units_consumed (fst (step_run_slice stop b s))) \<le> unat b"
  using prime.budget [OF prod.collapse [symmetric]] step.budget [OF prod.collapse [symmetric]] by blast

text \<open>
  C40 (the largest bound never completes).  With the upper bound \<open>UINT64_MAX\<close>, which the factory
  accepts, the candidate wraps to zero before it can exceed the bound: no slice ever completes,
  whatever its state, budget and stop requests.
\<close>

theorem prime_task_max_never_completes:
  assumes "pc_upper_bound t = 0xFFFFFFFFFFFFFFFF"
  shows "sr_status (fst (prime_run_slice stop b t)) \<noteq> SliceCompleted"
proof -
  have le: "\<not> (0xFFFFFFFFFFFFFFFF :: u64) < c" for c
    using unat_less_2p64 [of c] by (simp add: word_less_nat_alt)
  show ?thesis
    using assms by (auto simp: prime_run_slice_def Let_def slice_result_defs le dest: prime_loop_bound split: prod.split)
qed

theorem prime_task_max_never_completes_witness:
  "sr_status (fst (prime_run_slice (\<lambda>_. False) 100 (PrimeCountTask 0xFFFFFFFFFFFFFFFF))) \<noteq> SliceCompleted"
  using prime_task_max_never_completes [of "PrimeCountTask 0xFFFFFFFFFFFFFFFF"] by (simp add: PrimeCountTask_def)

end
