(* ===== verification/Kronos_Slices.thy ===== *)
theory Kronos_Slices
  imports Kronos_Lifecycle Kronos_Tasks
begin

text \<open>
  The engine running tasks that keep the contract of a sliced task.  \<open>internal_step\<close> refines \<open>step\<close> in one
  event: a worker inside a slice calls \<open>run_slice\<close> on the task of its job, with the budget of the dispatch
  and the stop token of the job, instead of returning anything.  New calls of clients are a relation of their own, so that one can say what
  the engine does when it is left alone.

  The locale \<open>counted_task\<close> adds to \<open>sliced_task\<close> the amount of work a new task has.  In it two things are proved
  for every interleaving: an invariant that accounts for the work of each job and fixes what a finished
  job must have published, and a measure that every internal step decreases.  So the engine comes to
  rest, and then every job has ended, completed with its answer unless it was cancelled, the engine was closed or
  the journal failed.
\<close>

section \<open>Steps\<close>

fun in_slice :: "worker \<Rightarrow> bool" where
  "in_slice (W_Run d r) = True"
| "in_slice _ = False"

text \<open>
  A slice runs outside the lock of the record; it is placed at the moment it returns.  A poll of the token
  can have been answered with true only if \<open>request_stop\<close> was called before that moment.
\<close>

inductive internal_step :: "((nat \<Rightarrow> bool) \<Rightarrow> work_units \<Rightarrow> 't \<Rightarrow> slice_result \<times> 't) \<Rightarrow> 'j journal_ops \<Rightarrow>
    ('t, 'j) system \<Rightarrow> ('t, 'j) system \<Rightarrow> bool" for run jo where
  slice: "k < length (sys_workers s) \<Longrightarrow> sys_workers s ! k = W_Run d r \<Longrightarrow>
    (\<exists>n. stop n) \<longrightarrow> jr_stop_requested (en_store (sys_engine s) ! r) \<Longrightarrow>
    run stop (dis_budget d) (jr_task (en_store (sys_engine s) ! r)) = (result, t) \<Longrightarrow>
    internal_step run jo s (s\<lparr>sys_engine := set_task r t (sys_engine s),
      sys_workers := (sys_workers s)[k := W_Record d r result]\<rparr>)"
| worker: "k < length (sys_workers s) \<Longrightarrow> \<not> in_slice (sys_workers s ! k) \<Longrightarrow>
    worker_step jo (sys_engine s, sys_workers s ! k) (e', w') \<Longrightarrow>
    internal_step run jo s (s\<lparr>sys_engine := e', sys_workers := (sys_workers s)[k := w']\<rparr>)"
| client: "sys_clients s = before @ c # after \<Longrightarrow> client_step jo (sys_engine s, c) (e', cont) \<Longrightarrow>
    internal_step run jo s (s\<lparr>sys_engine := e', sys_clients := before @ continuation cont @ after\<rparr>)"
| join: "sys_clients s = before @ C_Join # after \<Longrightarrow> list_all (\<lambda>w. w = W_Exit) (sys_workers s) \<Longrightarrow>
    internal_step run jo s (s\<lparr>sys_workers := [], sys_clients := before @ after\<rparr>)"

fun client_task :: "'t client \<Rightarrow> 't option" where
  "client_task (C_SubmitId t options) = Some t"
| "client_task (C_SubmitSeq t options i) = Some t"
| "client_task (C_SubmitJournal t options i sequence) = Some t"
| "client_task (C_SubmitEmplace t snapshot entry) = Some t"
| "client_task (C_RestoreJournal t submission) = Some t"
| "client_task (C_RestoreEmplace t submission) = Some t"
| "client_task _ = None"

text \<open>A call starts one more client; the tasks of calls are new ones.\<close>

inductive call_step :: "('t \<Rightarrow> bool) \<Rightarrow> 'j journal_ops \<Rightarrow> ('t, 'j) system \<Rightarrow> ('t, 'j) system \<Rightarrow> bool"
  for fresh jo where
  call: "step jo s s' \<Longrightarrow> sys_clients s' = c # sys_clients s \<Longrightarrow> pred_option fresh (client_task c) \<Longrightarrow>
    call_step fresh jo s s'"

definition slice_step :: "('t \<Rightarrow> bool) \<Rightarrow> ((nat \<Rightarrow> bool) \<Rightarrow> work_units \<Rightarrow> 't \<Rightarrow> slice_result \<times> 't) \<Rightarrow>
    'j journal_ops \<Rightarrow> ('t, 'j) system \<Rightarrow> ('t, 'j) system \<Rightarrow> bool" where
  "slice_step fresh run jo s s' \<longleftrightarrow> internal_step run jo s s' \<or> call_step fresh jo s s'"

definition slice_reachable :: "('t \<Rightarrow> bool) \<Rightarrow> ((nat \<Rightarrow> bool) \<Rightarrow> work_units \<Rightarrow> 't \<Rightarrow> slice_result \<times> 't) \<Rightarrow>
    'j journal_ops \<Rightarrow> ('t, 'j) system \<Rightarrow> bool" where
  "slice_reachable fresh run jo s \<longleftrightarrow>
     (\<exists>platform config s0. initial platform config s0 \<and> (slice_step fresh run jo)\<^sup>*\<^sup>* s0 s)"

lemma internal_is_step: "internal_step run jo s s' \<Longrightarrow> step jo s s'"
proof (induction rule: internal_step.induct)
  case (slice k s d r stop result t)
  have "worker_step jo (sys_engine s, W_Run d r)
      (set_task r t (sys_engine s), W_Record d r (slice_of_outcome (Returned result)))"
    by (rule worker_step.run)
  then show ?case using step.worker [OF slice(1)] slice(2) by simp
qed (auto intro: step.worker step.client step.join)

lemma slice_is_step: "slice_step fresh run jo s s' \<Longrightarrow> step jo s s'"
  by (auto simp: slice_step_def internal_is_step call_step.simps)

lemma slice_reachable_step:
  "slice_reachable fresh run jo s \<Longrightarrow> slice_step fresh run jo s s' \<Longrightarrow> slice_reachable fresh run jo s'"
  unfolding slice_reachable_def by (meson rtranclp.rtrancl_into_rtrancl)

lemma slice_reachable_steps:
  "(slice_step fresh run jo)\<^sup>*\<^sup>* s s' \<Longrightarrow> slice_reachable fresh run jo s \<Longrightarrow> slice_reachable fresh run jo s'"
  by (induction rule: rtranclp_induct) (auto intro: slice_reachable_step)

lemma slice_reachable_reachable:
  assumes "slice_reachable fresh run jo s"
  shows "reachable jo s"
proof -
  obtain hc config s0 where s0: "initial hc config s0" "(slice_step fresh run jo)\<^sup>*\<^sup>* s0 s"
    using assms unfolding slice_reachable_def by blast
  have "(step jo)\<^sup>*\<^sup>* s0 s" using s0(2) mono_rtranclp [of "slice_step fresh run jo" "step jo"] slice_is_step by blast
  then show ?thesis using s0(1) unfolding reachable_def by blast
qed

text \<open>A call changes neither the engine nor the workers.\<close>

lemma call_frame:
  assumes "call_step fresh jo s s'"
  shows "sys_engine s' = sys_engine s \<and> sys_workers s' = sys_workers s \<and>
    (\<exists>c. sys_clients s' = c # sys_clients s \<and> pred_option fresh (client_task c))"
proof -
  obtain c where c: "step jo s s'" "sys_clients s' = c # sys_clients s" "pred_option fresh (client_task c)"
    using assms by (auto elim: call_step.cases)
  have len: "length (sys_clients s') = Suc (length (sys_clients s))" using c(2) by simp
  from c(1) have "sys_engine s' = sys_engine s \<and> sys_workers s' = sys_workers s"
    by (cases rule: step.cases) (use len in \<open>auto split: option.splits\<close>)
  then show ?thesis using c by blast
qed

section \<open>Sections that do no work\<close>

text \<open>
  Every critical section except the one that records a slice leaves the task and the work of the record
  alone; it completes no job, it cancels one only on request or after closing, and it fails one only
  when the journal threw.
\<close>

definition quiet :: "bool \<Rightarrow> bool \<Rightarrow> 't job_record \<Rightarrow> 't job_record \<Rightarrow> bool" where
  "quiet closed journaled rec rec' \<longleftrightarrow>
     jr_task rec' = jr_task rec \<and>
     snap_work_units_consumed (jr_snapshot rec') = snap_work_units_consumed (jr_snapshot rec) \<and>
     (jr_stop_requested rec \<longrightarrow> jr_stop_requested rec') \<and>
     (rec_state rec' = Ready \<longrightarrow> rec_state rec = Ready) \<and>
     (rec_state rec' = Completed \<longrightarrow> jr_snapshot rec' = jr_snapshot rec) \<and>
     (rec_state rec' = Cancelled \<longrightarrow> rec_state rec = Cancelled \<or> jr_stop_requested rec' \<or> closed) \<and>
     (rec_state rec' = Failed \<longrightarrow>
        rec_state rec = Failed \<and> (wal_failed rec \<longrightarrow> wal_failed rec') \<or>
        journaled \<and> wal_failed rec')"

definition engine_quiet :: "('t, 'j) engine \<Rightarrow> ('t, 'j) engine \<Rightarrow> bool" where
  "engine_quiet e e' \<longleftrightarrow>
     list_all2 (quiet (tq_closed (en_queue e)) (en_journal e \<noteq> None)) (en_store e) (en_store e') \<and>
     en_queue e' = en_queue e \<and> (en_journal e' = None \<longleftrightarrow> en_journal e = None)"

lemma wal_failed_fields [simp]:
  "wal_failed (rec\<lparr>jr_stop_requested := b\<rparr>) = wal_failed rec" "wal_failed (rec\<lparr>jr_task := t\<rparr>) = wal_failed rec"
  by (simp_all add: wal_failed_def)

lemma quiet_refl [simp]: "quiet closed journaled rec rec"
  by (simp add: quiet_def)

lemma quiet_trans: "quiet closed journaled rec rec' \<Longrightarrow> quiet closed journaled rec' rec'' \<Longrightarrow> quiet closed journaled rec rec''"
  by (auto simp: quiet_def)

lemma engine_quiet_refl: "engine_quiet e e"
  by (simp add: engine_quiet_def list_all2_refl)

lemma engine_quiet_trans: "engine_quiet e e' \<Longrightarrow> engine_quiet e' e'' \<Longrightarrow> engine_quiet e e''"
  unfolding engine_quiet_def by (auto intro: list_all2_trans [OF quiet_trans])

lemma quiet_tasks: "engine_quiet e e' \<Longrightarrow> map jr_task (en_store e') = map jr_task (en_store e)"
  unfolding engine_quiet_def by (auto simp: list_all2_conv_all_nth quiet_def intro: nth_equalityI)

lemma publish_keeps [simp]:
  "jr_task (publish now state message rec) = jr_task rec"
  "jr_stop_requested (publish now state message rec) = jr_stop_requested rec"
  "snap_work_units_consumed (jr_snapshot (publish now state message rec)) = snap_work_units_consumed (jr_snapshot rec)"
  "snap_message (jr_snapshot (publish now state message rec)) = message"
  by (simp_all add: publish_def Let_def)

lemma persist_outcome:
  assumes "persist_transition_locked jo now state message (rec, j) = (ok, rec', j')"
  shows "(j' = None \<longleftrightarrow> j = None) \<and>
    (if ok then rec' = rec
     else j \<noteq> None \<and> (jr_result_published rec \<and> rec' = rec \<or>
       \<not> jr_result_published rec \<and> wal_failed rec' \<and> (\<exists>tx. rec' = publish now Failed tx rec)))"
proof (cases "jr_result_published rec")
  case True
  then show ?thesis using assms
    by (auto simp: persist_transition_locked_def fail_without_journal_locked_def split: option.splits prod.splits)
next
  case False
  show ?thesis using assms False wal_failed_publish
    by (auto simp: persist_transition_locked_def fail_without_journal_locked_def
        simp del: append_Cons split: option.splits prod.splits)
qed

lemma finish_outcome:
  assumes "finish_locked jo now state message (rec, j) = (rec', j')"
  shows "(j' = None \<longleftrightarrow> j = None) \<and>
    (jr_result_published rec \<and> rec' = rec \<or>
     \<not> jr_result_published rec \<and>
       (rec' = publish now state message rec \<or>
        j \<noteq> None \<and> wal_failed rec' \<and> (\<exists>tx. rec' = publish now Failed tx rec)))"
proof -
  obtain ok rec1 j1 where p: "persist_transition_locked jo now state message (rec, j) = (ok, rec1, j1)"
    by (metis prod_cases3)
  have "(rec', j') = (if jr_result_published rec then (rec, j) else if ok then (publish now state message rec1, j1) else (rec1, j1))"
    using assms by (cases ok; cases "jr_result_published rec") (simp_all add: finish_locked_def p)
  then show ?thesis using persist_outcome [OF p] by (auto split: if_splits)
qed

lemma finish_quiet:
  assumes "finish_locked jo now Cancelled message (rec, j) = (rec', j')" "jr_stop_requested rec \<or> closed"
  shows "quiet closed (j \<noteq> None) rec rec'" "j' = None \<longleftrightarrow> j = None"
  using finish_outcome [OF assms(1)] assms(2) by (auto simp: quiet_def)

lemma stop_quiet: "quiet closed journaled (rec\<lparr>jr_stop_requested := True\<rparr>) rec' \<Longrightarrow> quiet closed journaled rec rec'"
  by (auto simp: quiet_def)

lemma cancel_quiet:
  assumes "cancel_section jo now (rec, j) = (x, rec', j')"
  shows "quiet closed (j \<noteq> None) rec rec'" "j' = None \<longleftrightarrow> j = None"
proof -
  consider "rec' = rec" "j' = j" | "rec' = rec\<lparr>jr_stop_requested := True\<rparr>" "j' = j"
    | "finish_locked jo now Cancelled ''cancelled before execution'' (rec\<lparr>jr_stop_requested := True\<rparr>, j) = (rec', j')"
    using assms by (auto simp: cancel_section_def Let_def split: if_splits)
  then have "quiet closed (j \<noteq> None) rec rec' \<and> (j' = None \<longleftrightarrow> j = None)"
  proof cases
    case 3
    from finish_quiet [OF this, of closed] show ?thesis using stop_quiet by auto
  qed (auto intro: stop_quiet)
  then show "quiet closed (j \<noteq> None) rec rec'" "j' = None \<longleftrightarrow> j = None" by blast+
qed

lemma pending_quiet:
  assumes "pending_section jo now (rec, j) = (x, rec', j')"
  shows "quiet closed (j \<noteq> None) rec rec'" "j' = None \<longleftrightarrow> j = None"
proof -
  consider "rec' = rec" "j' = j"
    | "finish_locked jo now Cancelled ''cancelled during engine shutdown'' (rec\<lparr>jr_stop_requested := True\<rparr>, j) = (rec', j')"
    using assms by (auto simp: pending_section_def split: if_splits)
  then have "quiet closed (j \<noteq> None) rec rec' \<and> (j' = None \<longleftrightarrow> j = None)"
  proof cases
    case 2
    from finish_quiet [OF this, of closed] show ?thesis using stop_quiet by auto
  qed auto
  then show "quiet closed (j \<noteq> None) rec rec'" "j' = None \<longleftrightarrow> j = None" by blast+
qed

lemma start_quiet:
  assumes "start_section jo now (rec, j) = (x, rec', j')"
  shows "quiet closed (j \<noteq> None) rec rec'" "j' = None \<longleftrightarrow> j = None" "x \<Longrightarrow> rec_state rec = Ready \<and> rec_state rec' = Running"
proof -
  obtain ok rec1 j1 where p: "persist_transition_locked jo now Running [] (rec, j) = (ok, rec1, j1)"
    by (metis prod_cases3)
  consider "\<not> x" "rec' = rec" "j' = j" | "\<not> ok" "\<not> x" "rec' = rec1" "j' = j1"
    | "ok" "j' = j1" "rec_state rec = Ready" "rec_state rec' = Running" "jr_task rec' = jr_task rec1"
      "jr_stop_requested rec' = jr_stop_requested rec1"
      "snap_work_units_consumed (jr_snapshot rec') = snap_work_units_consumed (jr_snapshot rec1)"
    using assms by (cases "rec_state rec = Ready"; cases ok) (auto simp: start_section_def p)
  then have "quiet closed (j \<noteq> None) rec rec' \<and> (j' = None \<longleftrightarrow> j = None) \<and> (x \<longrightarrow> rec_state rec = Ready \<and> rec_state rec' = Running)"
    by cases (use persist_outcome [OF p] in \<open>auto simp: quiet_def\<close>)
  then show "quiet closed (j \<noteq> None) rec rec'" "j' = None \<longleftrightarrow> j = None" "x \<Longrightarrow> rec_state rec = Ready \<and> rec_state rec' = Running"
    by blast+
qed

lemma with_record_quiet:
  assumes "with_record r f e = (x, e')"
    "\<And>x rec' j'. f (en_store e ! r, en_journal e) = (x, rec', j') \<Longrightarrow>
       quiet (tq_closed (en_queue e)) (en_journal e \<noteq> None) (en_store e ! r) rec' \<and> (j' = None \<longleftrightarrow> en_journal e = None)"
  shows "engine_quiet e e'"
proof -
  obtain rec' j' where f: "f (en_store e ! r, en_journal e) = (x, rec', j')"
      "e' = e\<lparr>en_store := (en_store e)[r := rec'], en_journal := j'\<rparr>"
    using assms(1) by (auto simp: with_record_def split: prod.splits)
  have nth: "(en_store e)[r := rec'] ! i = (if i = r then rec' else en_store e ! i)" if "i < length (en_store e)" for i
    using that by auto
  show ?thesis
    using f(2) assms(2) [OF f(1)] by (auto simp: engine_quiet_def list_all2_conv_all_nth nth)
qed

lemma cancel_pending_quiet:
  fixes e :: "('t, 'j) engine"
  shows "engine_quiet e (cancel_pending jo now pending e)"
proof -
  have one: "engine_quiet e (cancel_pending_entry jo now entry e)" for entry and e :: "('t, 'j) engine"
  proof (cases "find_record (se_id entry) e")
    case (Some r)
    obtain x e' where w: "with_record r (pending_section jo now) e = (x, e')" by (metis surj_pair)
    have "engine_quiet e e'" by (rule with_record_quiet [OF w]) (intro conjI; erule pending_quiet)
    then show ?thesis using Some w by (simp add: cancel_pending_entry_def)
  qed (simp add: cancel_pending_entry_def engine_quiet_refl)
  show ?thesis
    unfolding cancel_pending_def
    by (induction pending arbitrary: e) (auto intro: engine_quiet_refl engine_quiet_trans [OF one])
qed

section \<open>What a client step does to the engine\<close>

text \<open>What is known of a call in flight; \<open>closed\<close> is the flag of the queue.\<close>

definition client_fine :: "('t \<Rightarrow> bool) \<Rightarrow> bool \<Rightarrow> 't client \<Rightarrow> bool" where
  "client_fine fresh closed c \<longleftrightarrow> pred_option fresh (client_task c) \<and>
     (case c of
        C_Finish r entry message \<Rightarrow> closed
      | C_SubmitEmplace t snapshot entry \<Rightarrow> snap_state snapshot = Ready \<and> snap_work_units_consumed snapshot = 0
      | _ \<Rightarrow> True)"

definition same_jobs :: "('t, 'j) engine \<Rightarrow> ('t, 'j) engine \<Rightarrow> bool" where
  "same_jobs e e' \<longleftrightarrow> en_store e' = en_store e \<and> (tq_closed (en_queue e) \<longrightarrow> tq_closed (en_queue e')) \<and>
     (en_journal e' = None \<longleftrightarrow> en_journal e = None)"

definition new_job :: "'t \<Rightarrow> ('t, 'j) engine \<Rightarrow> ('t, 'j) engine \<Rightarrow> bool" where
  "new_job t e e' \<longleftrightarrow> (\<exists>snapshot entry. en_store e' = en_store e @ [JobRecord snapshot entry t] \<and>
       snap_state snapshot = Ready \<and> snap_work_units_consumed snapshot = 0) \<and>
     en_queue e' = en_queue e \<and> en_journal e' = en_journal e"

lemma client_fine_closed: "client_fine fresh closed c \<Longrightarrow> closed \<longrightarrow> closed' \<Longrightarrow> client_fine fresh closed' c"
  by (auto simp: client_fine_def split: client.splits)

lemma registry_emplace_new_job:
  "registry_emplace i (JobRecord snapshot entry t) e = (x, r, e') \<Longrightarrow> snap_state snapshot = Ready \<Longrightarrow>
     snap_work_units_consumed snapshot = 0 \<Longrightarrow> new_job t e e'"
  by (auto simp: registry_emplace_def new_job_def Let_def split: prod.splits) blast

lemma restore_emplace_new_job:
  "registry_emplace i (JobRecord (restore_snapshot now submission) (restore_entry submission) t) e = (x, r, e') \<Longrightarrow>
     new_job t e e'"
  by (erule registry_emplace_new_job) (simp_all add: restore_snapshot_def)

lemma journal_same_jobs:
  "submit_journal jo snapshot options e = (x, e') \<Longrightarrow> same_jobs e e' \<and> en_queue e' = en_queue e"
  "restore_journal jo submission e = (x, e') \<Longrightarrow> same_jobs e e' \<and> en_queue e' = en_queue e"
  by (auto simp: submit_journal_def restore_journal_def same_jobs_def split: option.splits prod.splits if_splits)

lemma queue_same_jobs:
  "engine_push entry e = (x, e') \<Longrightarrow> same_jobs e e'" "shutdown_close mode e = (pending, e') \<Longrightarrow> same_jobs e e'"
  by (auto dest!: engine_push_parts shutdown_close_parts tq.push_spec tq.close_spec simp: same_jobs_def)

lemma cancel_record_quiet: "cancel_record jo now r e = (x, e') \<Longrightarrow> engine_quiet e e'"
  unfolding cancel_record_def by (rule with_record_quiet, assumption) (intro conjI; erule cancel_quiet)

lemma finish_record_quiet:
  assumes "tq_closed (en_queue e)"
  shows "engine_quiet e (finish_record jo now Cancelled message r e)"
proof -
  obtain x e' where w: "with_record r (finish_section jo now Cancelled message) e = (x, e')" by (metis surj_pair)
  have "engine_quiet e e'"
    by (rule with_record_quiet [OF w [unfolded finish_section_def [abs_def]]])
      (use assms finish_quiet [of jo now message "en_store e ! r" "en_journal e" _ _ True] in auto)
  then show ?thesis by (simp add: finish_record_def w)
qed

lemma client_step_kinds:
  assumes "client_step jo (e, c) (e', n)" "client_fine fresh (tq_closed (en_queue e)) c"
  shows "engine_quiet e e' \<or> same_jobs e e' \<or> (\<exists>t. client_task c = Some t \<and> new_job t e e')"
  using assms(1)
proof (cases rule: client_step.cases)
  case (submit_emplace snapshot entry t inserted r)
  then show ?thesis using assms(2) registry_emplace_new_job [of _ snapshot entry t e inserted r e']
    by (auto simp: client_fine_def)
next
  case (finish r entry message now)
  then show ?thesis using assms(2) finish_record_quiet [of e] by (auto simp: client_fine_def)
qed (auto dest: journal_same_jobs cancel_record_quiet queue_same_jobs restore_emplace_new_job
    simp: same_jobs_def take_job_id_def take_sequence_def advance_job_id_def advance_sequence_def
      shutdown_stop_accepting_def cancel_pending_quiet dest!: tq.reconfigure_spec)

lemma client_step_closed:
  assumes "client_step jo (e, c) (e', n)" "client_fine fresh (tq_closed (en_queue e)) c"
  shows "tq_closed (en_queue e) \<longrightarrow> tq_closed (en_queue e')" "en_journal e' = None \<longleftrightarrow> en_journal e = None"
  using client_step_kinds [OF assms] by (auto simp: engine_quiet_def same_jobs_def new_job_def)

lemma client_step_fine:
  assumes "client_step jo (e, c) (e', n)" "client_fine fresh (tq_closed (en_queue e)) c"
  shows "\<forall>c' \<in> set (continuation n). client_fine fresh (tq_closed (en_queue e')) c'"
  using assms(1)
proof (cases rule: client_step.cases)
  case (push_closed entry r message)
  then show ?thesis by (auto simp: client_fine_def engine_push_def push_external_def split: if_splits)
qed (use assms(2) in \<open>auto simp: client_fine_def submit_snapshot_def\<close>)

section \<open>A bound on the internal steps\<close>

text \<open>
  The weights: a unit of remaining work pays for one more turn of its job, an entry in the queue for a turn of a worker
  up to the slice, and the positions of the threads count down.  A worker that has a yielded
  slice to record is as heavy as the way back to the queue.
\<close>

definition task_load :: "('t \<Rightarrow> nat) \<Rightarrow> 't list \<Rightarrow> nat" where
  "task_load remaining ts = (\<Sum>t \<leftarrow> ts. 20 * remaining t)"

definition engine_load :: "('t \<Rightarrow> nat) \<Rightarrow> ('t, 'j) engine \<Rightarrow> nat" where
  "engine_load remaining e =
     task_load remaining (map jr_task (en_store e)) + 10 * length (sched_entries (tq_scheduler (en_queue e)))"

fun worker_load :: "worker \<Rightarrow> nat" where
  "worker_load W_Exit = 0"
| "worker_load W_Pop = 1"
| "worker_load (W_Find d) = 9"
| "worker_load (W_Start d r) = 8"
| "worker_load (W_Run d r) = 7"
| "worker_load (W_Record d r result) = (if sr_status result = SliceYielded then 13 else 2)"
| "worker_load (W_Requeue d r) = 12"

fun client_load :: "('t \<Rightarrow> nat) \<Rightarrow> 't client \<Rightarrow> nat" where
  "client_load remaining (C_SubmitId t options) = 16 + 20 * remaining t"
| "client_load remaining (C_SubmitSeq t options i) = 15 + 20 * remaining t"
| "client_load remaining (C_SubmitJournal t options i sequence) = 14 + 20 * remaining t"
| "client_load remaining (C_SubmitEmplace t snapshot entry) = 13 + 20 * remaining t"
| "client_load remaining (C_RestoreJournal t submission) = 16 + 20 * remaining t"
| "client_load remaining (C_RestoreEmplace t submission) = 15 + 20 * remaining t"
| "client_load remaining (C_RestoreId r submission) = 14"
| "client_load remaining (C_RestoreSeq r submission) = 13"
| "client_load remaining (C_Push r entry message) = 12"
| "client_load remaining (C_ReserveId submission) = 2"
| "client_load remaining (C_Shutdown mode) = 4"
| "client_load remaining (C_Close mode) = 3"
| "client_load remaining (C_CancelPending pending) = 2"
| "client_load remaining _ = 1"

definition work_left :: "('t \<Rightarrow> nat) \<Rightarrow> ('t, 'j) system \<Rightarrow> nat" where
  "work_left remaining s =
     engine_load remaining (sys_engine s) + sum_list (map worker_load (sys_workers s)) +
     sum_list (map (client_load remaining) (sys_clients s))"

lemma task_load_simps [simp]:
  "task_load remaining [] = 0" "task_load remaining (ts @ us) = task_load remaining ts + task_load remaining us"
  "task_load remaining (t # ts) = 20 * remaining t + task_load remaining ts"
  by (simp_all add: task_load_def)

lemma sum_list_replace:
  "k < length xs \<Longrightarrow> sum_list (map f (xs[k := y])) + f (xs ! k) = sum_list (map f xs) + (f y :: nat)"
  by (induction xs arbitrary: k) (auto split: nat.split)

lemma quiet_load: "engine_quiet e e' \<Longrightarrow> engine_load remaining e' = engine_load remaining e"
  using quiet_tasks [of e e'] by (simp add: engine_load_def engine_quiet_def)

lemma new_job_load: "new_job t e e' \<Longrightarrow> engine_load remaining e' = engine_load remaining e + 20 * remaining t"
  by (auto simp: new_job_def engine_load_def JobRecord_def)

lemma same_load:
  assumes "en_store e' = en_store e" "queue_content (en_queue e') = queue_content (en_queue e)"
  shows "engine_load remaining e' = engine_load remaining e"
  using mset_eq_length [OF assms(2)] assms(1) by (simp add: engine_load_def)

lemma queued_load:
  assumes "en_store e' = en_store e" "queue_content (en_queue e') = add_mset entry (queue_content (en_queue e))"
  shows "engine_load remaining e' = engine_load remaining e + 10"
  using arg_cong [OF assms(2), of size] assms(1) by (simp add: engine_load_def)

lemma close_load:
  assumes "shutdown_close mode e = (pending, e')"
  shows "engine_load remaining e' \<le> engine_load remaining e"
proof -
  obtain q where q: "close_and_drain_pending (mode = CancelPending) (en_queue e) = (pending, q)" "e' = e\<lparr>en_queue := q\<rparr>"
    using shutdown_close_parts [OF assms] by blast
  have "mset pending + queue_content q = queue_content (en_queue e)" using tq.close_spec [OF q(1)] by blast
  from arg_cong [OF this, of size] show ?thesis using q(2) by (simp add: engine_load_def)
qed

lemma push_load:
  assumes "engine_push entry e = (x, e')"
  shows "engine_load remaining e' = engine_load remaining e + (if x then 10 else 0)"
proof -
  obtain q where "push_external entry (en_queue e) = (x, q)" "e' = e\<lparr>en_queue := q\<rparr>"
    using engine_push_parts [OF assms] by blast
  then show ?thesis
    using tq.push_spec [of entry "en_queue e" x q] queued_load [of e' e entry remaining] same_load [of e' e remaining] by auto
qed

lemma reconfigure_load:
  "queue_set_scheduler config (en_queue e) = Inr q \<Longrightarrow> engine_load remaining (e\<lparr>en_queue := q\<rparr>) = engine_load remaining e"
  using tq.reconfigure_spec [of config "en_queue e" q] by (intro same_load) simp_all

lemma journal_load:
  "submit_journal jo snapshot options e = (x, e') \<Longrightarrow> engine_load remaining e' = engine_load remaining e"
  "restore_journal jo submission e = (x, e') \<Longrightarrow> engine_load remaining e' = engine_load remaining e"
  by (intro same_load; use journal_same_jobs in \<open>force simp: same_jobs_def\<close>)+

lemma client_step_load:
  assumes "client_step jo (e, c) (e', n)" "client_fine fresh (tq_closed (en_queue e)) c"
  shows "engine_load remaining e' + sum_list (map (client_load remaining) (continuation n)) <
    engine_load remaining e + client_load remaining c"
  using assms(1)
proof (cases rule: client_step.cases)
  case (submit_emplace snapshot entry t inserted r)
  then have "new_job t e e'" using assms(2) registry_emplace_new_job [of _ snapshot entry t e inserted r e']
    by (simp add: client_fine_def)
  then show ?thesis using submit_emplace by (simp add: new_job_load)
next
  case (finish r entry message now)
  then show ?thesis using assms(2) quiet_load [OF finish_record_quiet [of e]] by (simp add: client_fine_def)
next
  case (close_drain pending)
  then show ?thesis using close_load [of Drain e pending e' remaining] by simp
next
  case (close_cancel pending)
  then show ?thesis using close_load [of CancelPending e pending e' remaining] by simp
next
  case (cancel_pending pending now)
  then show ?thesis by (simp add: quiet_load [OF cancel_pending_quiet])
qed (simp_all add: new_job_load [OF restore_emplace_new_job] push_load reconfigure_load journal_load
    quiet_load [OF cancel_record_quiet],
  simp_all add: engine_load_def take_job_id_def take_sequence_def advance_job_id_def advance_sequence_def
    shutdown_stop_accepting_def, auto simp: engine_load_def)

section \<open>Counted tasks\<close>

locale counted_task = sliced_task run invar remaining answer
  for run :: "(nat \<Rightarrow> bool) \<Rightarrow> work_units \<Rightarrow> 't \<Rightarrow> slice_result \<times> 't"
    and invar :: "'t \<Rightarrow> bool" and remaining :: "'t \<Rightarrow> nat" and answer :: "'t \<Rightarrow> string" +
  fixes total :: "'t \<Rightarrow> nat" and fresh :: "'t \<Rightarrow> bool"
  assumes total_kept: "invar t \<Longrightarrow> run stop b t = (r, t') \<Longrightarrow> total t' = total t"
    and total_bound: "invar t \<Longrightarrow> total t < 2 ^ 64"
    and fresh_start: "fresh t \<Longrightarrow> invar t \<and> remaining t = total t"
begin

text \<open>The work a job has been charged with, the work of a slice not yet recorded, and what remains.\<close>

definition balanced :: "'t job_record \<Rightarrow> work_units \<Rightarrow> bool" where
  "balanced rec w \<longleftrightarrow>
     unat (snap_work_units_consumed (jr_snapshot rec)) + unat w + remaining (jr_task rec) = total (jr_task rec)"

definition answered_right :: "'t job_record \<Rightarrow> bool" where
  "answered_right rec \<longleftrightarrow> remaining (jr_task rec) = 0 \<and> snap_message (jr_snapshot rec) = answer (jr_task rec) \<and>
     unat (snap_work_units_consumed (jr_snapshot rec)) = total (jr_task rec)"

definition record_fine :: "bool \<Rightarrow> bool \<Rightarrow> 't job_record \<Rightarrow> bool" where
  "record_fine closed journaled rec \<longleftrightarrow> invar (jr_task rec) \<and>
     (rec_state rec = Ready \<longrightarrow> balanced rec 0) \<and> (rec_state rec = Completed \<longrightarrow> answered_right rec) \<and>
     (rec_state rec = Cancelled \<longrightarrow> jr_stop_requested rec \<or> closed) \<and> (rec_state rec = Failed \<longrightarrow> journaled \<and> wal_failed rec)"

definition result_fine :: "'t job_record \<Rightarrow> slice_result \<Rightarrow> bool" where
  "result_fine rec result \<longleftrightarrow> balanced rec (sr_work_units_consumed result) \<and>
     (case sr_status result of
        SliceCompleted \<Rightarrow> remaining (jr_task rec) = 0 \<and> sr_message result = answer (jr_task rec)
      | SliceYielded \<Rightarrow> True
      | SliceCancelled \<Rightarrow> jr_stop_requested rec
      | SliceFailed \<Rightarrow> False)"

fun worker_fine :: "'t job_record list \<Rightarrow> worker \<Rightarrow> bool" where
  "worker_fine store (W_Find d) \<longleftrightarrow> dis_budget d \<noteq> 0"
| "worker_fine store (W_Start d r) \<longleftrightarrow> dis_budget d \<noteq> 0 \<and> r < length store"
| "worker_fine store (W_Run d r) \<longleftrightarrow> dis_budget d \<noteq> 0 \<and> r < length store \<and> balanced (store ! r) 0"
| "worker_fine store (W_Record d r result) \<longleftrightarrow> r < length store \<and> result_fine (store ! r) result"
| "worker_fine store _ \<longleftrightarrow> True"

definition system_fine :: "('t, 'j) system \<Rightarrow> bool" where
  "system_fine s \<longleftrightarrow>
     (\<forall>rec \<in> set (en_store (sys_engine s)).
        record_fine (tq_closed (en_queue (sys_engine s))) (en_journal (sys_engine s) \<noteq> None) rec) \<and>
     (\<forall>w \<in> set (sys_workers s). worker_fine (en_store (sys_engine s)) w) \<and>
     (\<forall>c \<in> set (sys_clients s). client_fine fresh (tq_closed (en_queue (sys_engine s))) c)"

lemma quiet_balanced: "quiet closed journaled rec rec' \<Longrightarrow> balanced rec' w = balanced rec w"
  by (simp add: quiet_def balanced_def)

lemma quiet_record_fine:
  assumes "quiet closed journaled rec rec'" "record_fine closed journaled rec"
  shows "record_fine closed journaled rec'"
proof -
  have task: "jr_task rec' = jr_task rec" using assms(1) by (simp add: quiet_def)
  have "answered_right rec'" if "rec_state rec' = Completed"
  proof -
    have "jr_snapshot rec' = jr_snapshot rec" using assms(1) that by (simp add: quiet_def)
    then show ?thesis using assms(2) that task by (simp add: record_fine_def answered_right_def)
  qed
  moreover have "rec_state rec' = Ready \<longrightarrow> balanced rec' 0" "rec_state rec' = Failed \<longrightarrow> journaled \<and> wal_failed rec'"
      "rec_state rec' = Cancelled \<longrightarrow> jr_stop_requested rec' \<or> closed"
    using assms unfolding record_fine_def quiet_balanced [OF assms(1)] by (auto simp: quiet_def)
  ultimately show ?thesis using assms(2) task by (simp add: record_fine_def)
qed

lemma quiet_result_fine:
  assumes "quiet closed journaled rec rec'" "result_fine rec result"
  shows "result_fine rec' result"
proof -
  have "jr_task rec' = jr_task rec" "jr_stop_requested rec \<longrightarrow> jr_stop_requested rec'"
    using assms(1) by (simp_all add: quiet_def)
  then show ?thesis
    using assms(2) unfolding result_fine_def quiet_balanced [OF assms(1)] by (cases "sr_status result") simp_all
qed

lemma record_fine_closed: "record_fine closed journaled rec \<Longrightarrow> closed \<longrightarrow> closed' \<Longrightarrow> record_fine closed' journaled rec"
  by (auto simp: record_fine_def)

lemma fresh_record_fine:
  "fresh t \<Longrightarrow> snap_state snapshot = Ready \<Longrightarrow> snap_work_units_consumed snapshot = 0 \<Longrightarrow>
     record_fine closed journaled (JobRecord snapshot entry t)"
  using fresh_start [of t] by (simp add: record_fine_def balanced_def JobRecord_def)

lemma quiet_worker_fine:
  assumes "engine_quiet e e'" "worker_fine (en_store e) w"
  shows "worker_fine (en_store e') w"
proof -
  have len: "length (en_store e') = length (en_store e)"
    and q: "\<And>r. r < length (en_store e) \<Longrightarrow>
      quiet (tq_closed (en_queue e)) (en_journal e \<noteq> None) (en_store e ! r) (en_store e' ! r)"
    using assms(1) by (auto simp: engine_quiet_def list_all2_conv_all_nth)
  show ?thesis
    using assms(2) by (cases w) (auto simp: len quiet_balanced [OF q] intro: quiet_result_fine [OF q])
qed

lemma quiet_records_fine:
  assumes "engine_quiet e e'" "\<forall>rec \<in> set (en_store e). record_fine (tq_closed (en_queue e)) (en_journal e \<noteq> None) rec"
  shows "\<forall>rec \<in> set (en_store e'). record_fine (tq_closed (en_queue e')) (en_journal e' \<noteq> None) rec"
proof
  fix rec' assume "rec' \<in> set (en_store e')"
  then obtain rec where "rec \<in> set (en_store e)" "quiet (tq_closed (en_queue e)) (en_journal e \<noteq> None) rec rec'"
    using assms(1) unfolding engine_quiet_def by (metis in_set_conv_nth list_all2_conv_all_nth)
  then have "record_fine (tq_closed (en_queue e)) (en_journal e \<noteq> None) rec'" using assms(2) quiet_record_fine by blast
  then show "record_fine (tq_closed (en_queue e')) (en_journal e' \<noteq> None) rec'"
    using assms(1) by (simp add: engine_quiet_def)
qed

lemma add_work_balanced:
  assumes "balanced rec w" "invar (jr_task rec)"
  shows "balanced (add_work w rec) 0"
proof -
  let ?c = "snap_work_units_consumed (jr_snapshot rec)"
  have "unat ?c + unat w < 2 ^ 64" using assms total_bound [OF assms(2)] by (simp add: balanced_def)
  then have "unat (?c + w) = unat ?c + unat w" by (subst unat_add_lem [symmetric]) simp
  then show ?thesis using assms(1) by (simp add: balanced_def add_work_def)
qed

lemma record_section_fine:
  assumes "record_section jo now result (rec, j) = (x, rec', j')" "rec_state rec = Running"
    "invar (jr_task rec)" "result_fine rec result"
  shows "record_fine closed (j \<noteq> None) rec' \<and> (j' = None \<longleftrightarrow> j = None) \<and> jr_task rec' = jr_task rec \<and>
    (x \<longrightarrow> sr_status result = SliceYielded)"
proof -
  let ?rec = "add_work (sr_work_units_consumed result) rec"
  have w: "rec_state ?rec = Running" "jr_task ?rec = jr_task rec" "jr_stop_requested ?rec = jr_stop_requested rec"
    using assms(2) by (simp_all add: add_work_def)
  have bal: "balanced ?rec 0" using assms(3,4) by (intro add_work_balanced) (simp_all add: result_fine_def)
  have fin: ?thesis
    if "\<not> x" "finish_locked jo now st msg (?rec, j) = (rec', j')" "record_fine closed (j \<noteq> None) (publish now st msg ?rec)" for st msg
    using finish_outcome [OF that(2)] that(1,3) w assms(3) by (auto simp: record_fine_def)
  show ?thesis
  proof (cases "sr_status result")
    case SliceYielded
    show ?thesis
    proof (cases "jr_stop_requested rec")
      case True
      then show ?thesis using assms(1,3) SliceYielded w
        by (intro fin [of Cancelled "if sr_message result = [] then ''cancellation requested'' else sr_message result"])
          (auto simp: record_section_def record_fine_def Let_def)
    next
      case False
      obtain ok rec1 j1 where p: "persist_transition_locked jo now Ready (sr_message result) (?rec, j) = (ok, rec1, j1)"
        by (metis prod_cases3)
      have "(x, rec', j') = (if ok then (True, rec1\<lparr>jr_snapshot := (jr_snapshot rec1)\<lparr>snap_state := Ready,
          snap_message := sr_message result\<rparr>\<rparr>, j1) else (False, rec1, j1))"
        using assms(1) False SliceYielded by (cases ok) (simp_all add: record_section_def p Let_def)
      then show ?thesis using persist_outcome [OF p] assms(3) SliceYielded w bal
        by (cases ok) (auto simp: record_fine_def balanced_def)
    qed
  next
    case SliceCompleted
    then have "answered_right (publish now Completed (sr_message result) ?rec)"
      using assms(4) bal w by (simp add: answered_right_def result_fine_def balanced_def)
    then show ?thesis using assms(1,3) SliceCompleted w
      by (intro fin [of Completed "sr_message result"]) (auto simp: record_section_def record_fine_def)
  next
    case SliceCancelled
    then have "jr_stop_requested rec" using assms(4) by (simp add: result_fine_def)
    then show ?thesis using assms(1,3) SliceCancelled w
      by (intro fin [of Cancelled "sr_message result"]) (auto simp: record_section_def record_fine_def)
  next
    case SliceFailed
    then show ?thesis using assms(4) by (simp add: result_fine_def)
  qed
qed

lemma slice_fine:
  assumes "run stop b (jr_task rec) = (result, t)" "record_fine closed journaled rec" "balanced rec 0"
    "rec_state rec = Running" "(\<exists>n. stop n) \<longrightarrow> jr_stop_requested rec"
  shows "record_fine closed journaled (rec\<lparr>jr_task := t\<rparr>) \<and> result_fine (rec\<lparr>jr_task := t\<rparr>) result"
proof -
  have inv: "invar (jr_task rec)" using assms(2) by (simp add: record_fine_def)
  note sl = slice [OF inv assms(1)] and tot = total_kept [OF inv assms(1)]
  have "balanced (rec\<lparr>jr_task := t\<rparr>) (sr_work_units_consumed result)"
    using sl assms(3) tot by (simp add: balanced_def)
  then show ?thesis
    using sl assms(4,5) by (auto simp: record_fine_def result_fine_def split: slice_status.splits)
qed

text \<open>The worker that holds a record changes it; no other worker looks at it then.\<close>

lemma holder_fine:
  assumes "system_fine s" "k < length (sys_workers s)" "r < length (en_store (sys_engine s))"
    "\<And>l. l < length (sys_workers s) \<Longrightarrow> l \<noteq> k \<Longrightarrow> \<not> runs_record (sys_workers s ! l) r"
    "en_store e' = (en_store (sys_engine s))[r := rec']" "en_queue e' = en_queue (sys_engine s)"
    "en_journal e' = None \<longleftrightarrow> en_journal (sys_engine s) = None"
    "record_fine (tq_closed (en_queue e')) (en_journal e' \<noteq> None) rec'" "worker_fine (en_store e') w'"
  shows "system_fine (s\<lparr>sys_engine := e', sys_workers := (sys_workers s)[k := w']\<rparr>)"
proof -
  have "worker_fine (en_store e') w" if w: "w \<in> set ((sys_workers s)[k := w'])" for w
  proof (cases "w = w'")
    case False
    then obtain l where l: "l < length (sys_workers s)" "l \<noteq> k" "w = sys_workers s ! l"
      using w by (metis in_set_conv_nth length_list_update nth_list_update_eq nth_list_update_neq)
    then have "worker_fine (en_store (sys_engine s)) w" "\<not> runs_record w r"
      using assms(1,4) by (auto simp: system_fine_def)
    then show ?thesis using assms(5) by (cases w) auto
  qed (use assms(9) in simp)
  moreover have "\<forall>rec \<in> set (en_store e'). record_fine (tq_closed (en_queue e')) (en_journal e' \<noteq> None) rec"
    using assms(1,5,6,7,8) set_update_subset_insert [of "en_store (sys_engine s)" r rec'] by (auto simp: system_fine_def)
  ultimately show ?thesis using assms(1,6) by (simp add: system_fine_def)
qed

lemma same_jobs_fine:
  assumes "system_fine s" "same_jobs (sys_engine s) e'" "k < length (sys_workers s)" "worker_fine (en_store (sys_engine s)) w'"
  shows "system_fine (s\<lparr>sys_engine := e', sys_workers := (sys_workers s)[k := w']\<rparr>)"
proof -
  have "set ((sys_workers s)[k := w']) \<subseteq> insert w' (set (sys_workers s))" by (rule set_update_subset_insert)
  then show ?thesis
    using assms by (auto simp: system_fine_def same_jobs_def intro: record_fine_closed client_fine_closed)
qed

lemma quiet_fine:
  assumes "system_fine s" "engine_quiet (sys_engine s) e'" "worker_fine (en_store e') w'"
  shows "system_fine (s\<lparr>sys_engine := e', sys_workers := (sys_workers s)[k := w']\<rparr>)"
proof -
  have "set ((sys_workers s)[k := w']) \<subseteq> insert w' (set (sys_workers s))" by (rule set_update_subset_insert)
  moreover have "en_queue e' = en_queue (sys_engine s)" using assms(2) by (simp add: engine_quiet_def)
  ultimately show ?thesis
    using assms quiet_records_fine [OF assms(2)] quiet_worker_fine [OF assms(2)] by (auto simp: system_fine_def)
qed

lemma store_ref:
  assumes "sys_inv s" "find_record i (sys_engine s) = Some r"
  shows "r < length (en_store (sys_engine s))"
  using assms registry_okD(1) coreD(1) unfolding engine_inv_def by blast

lemma start_fine:
  assumes "system_fine s" "k < length (sys_workers s)" "sys_workers s ! k = W_Start d r"
    "worker_start jo now r (sys_engine s) = (x, e')"
  shows "engine_quiet (sys_engine s) e'" "x \<Longrightarrow> worker_fine (en_store e') (W_Run d r)"
proof -
  let ?e = "sys_engine s"
  have wf: "worker_fine (en_store ?e) (W_Start d r)" using assms(1-3) by (metis nth_mem system_fine_def)
  obtain rec' j' where f: "start_section jo now (en_store ?e ! r, en_journal ?e) = (x, rec', j')"
      "en_store e' = (en_store ?e)[r := rec']"
    using assms(4) by (auto simp: worker_start_def with_record_def split: prod.splits)
  show "engine_quiet ?e e'"
    using assms(4) unfolding worker_start_def by (rule with_record_quiet) (intro conjI; erule start_quiet)
  assume x
  then have "rec_state (en_store ?e ! r) = Ready" using start_quiet(3) [OF f(1)] by blast
  then have "balanced (en_store ?e ! r) 0" using assms(1) wf by (auto simp: system_fine_def record_fine_def)
  then show "worker_fine (en_store e') (W_Run d r)"
    using quiet_balanced [OF start_quiet(1) [OF f(1)]] wf f(2) by simp
qed

lemma record_parts:
  assumes "sys_inv s" "system_fine s" "k < length (sys_workers s)" "sys_workers s ! k = W_Record d r result"
    "worker_record jo now result r (sys_engine s) = (x, e')"
  shows "\<exists>rec'. en_store e' = (en_store (sys_engine s))[r := rec'] \<and> r < length (en_store (sys_engine s)) \<and>
    jr_task rec' = jr_task (en_store (sys_engine s) ! r) \<and> en_queue e' = en_queue (sys_engine s) \<and>
    (en_journal e' = None \<longleftrightarrow> en_journal (sys_engine s) = None) \<and> (x \<longrightarrow> sr_status result = SliceYielded) \<and>
    record_fine (tq_closed (en_queue e')) (en_journal e' \<noteq> None) rec'"
proof -
  let ?e = "sys_engine s"
  have wf: "worker_fine (en_store ?e) (W_Record d r result)" using assms(2-4) by (metis nth_mem system_fine_def)
  then have r: "r < length (en_store ?e)" "result_fine (en_store ?e ! r) result" by simp_all
  have "record_fine (tq_closed (en_queue ?e)) (en_journal ?e \<noteq> None) (en_store ?e ! r)"
    using assms(2) r(1) by (simp add: system_fine_def)
  then have inv: "invar (jr_task (en_store ?e ! r))" by (simp add: record_fine_def)
  have run: "rec_state (en_store ?e ! r) = Running" using one_runner [OF assms(1) assms(3,3), of r] assms(4) by simp
  obtain rec' j' where f: "record_section jo now result (en_store ?e ! r, en_journal ?e) = (x, rec', j')"
      "e' = ?e\<lparr>en_store := (en_store ?e)[r := rec'], en_journal := j'\<rparr>"
    using assms(5) by (auto simp: worker_record_def with_record_def split: prod.splits)
  show ?thesis using record_section_fine [OF f(1) run inv r(2)] f(2) r(1) by auto
qed

lemma lone_runner:
  assumes "sys_inv s" "k < length (sys_workers s)" "runs_record (sys_workers s ! k) r" "l < length (sys_workers s)" "l \<noteq> k"
  shows "\<not> runs_record (sys_workers s ! l) r"
  using one_runner [OF assms(1,4,2)] assms(3,5) by blast

lemma worker_step_fine:
  assumes "sys_inv s" "system_fine s" "k < length (sys_workers s)" "\<not> in_slice (sys_workers s ! k)"
    "worker_step jo (sys_engine s, sys_workers s ! k) (e', w')"
  shows "system_fine (s\<lparr>sys_engine := e', sys_workers := (sys_workers s)[k := w']\<rparr>)"
  using assms(5)
proof (cases rule: worker_step.cases)
  case (pop_some d q)
  then have "dis_budget d \<noteq> 0" "same_jobs (sys_engine s) e'"
    using tq.take_Some [of "en_queue (sys_engine s)" d q] assms(1) by (auto simp: engine_inv_def same_jobs_def)
  then show ?thesis using same_jobs_fine [OF assms(2) _ assms(3)] pop_some by simp
next
  case (find_some d r)
  then have "worker_fine (en_store (sys_engine s)) (W_Find d)" using assms(2,3) by (metis nth_mem system_fine_def)
  then show ?thesis using same_jobs_fine [OF assms(2) _ assms(3), of e'] store_ref [OF assms(1)] find_some
    by (simp add: same_jobs_def)
next
  case (start_ok now r d)
  then show ?thesis using start_fine [OF assms(2,3)] by (intro quiet_fine [OF assms(2)]) auto
next
  case (start_skip now r d)
  then show ?thesis using start_fine [OF assms(2,3)] by (intro quiet_fine [OF assms(2)]) auto
next
  case (record_yield now result r d)
  then obtain rec' where "en_store e' = (en_store (sys_engine s))[r := rec']" "r < length (en_store (sys_engine s))"
      "en_queue e' = en_queue (sys_engine s)" "en_journal e' = None \<longleftrightarrow> en_journal (sys_engine s) = None"
      "record_fine (tq_closed (en_queue e')) (en_journal e' \<noteq> None) rec'"
    using record_parts [OF assms(1-3)] by metis
  then show ?thesis using record_yield lone_runner [OF assms(1,3), of r]
    by (intro holder_fine [OF assms(2,3)]) auto
next
  case (record_done now result r d)
  then obtain rec' where "en_store e' = (en_store (sys_engine s))[r := rec']" "r < length (en_store (sys_engine s))"
      "en_queue e' = en_queue (sys_engine s)" "en_journal e' = None \<longleftrightarrow> en_journal (sys_engine s) = None"
      "record_fine (tq_closed (en_queue e')) (en_journal e' \<noteq> None) rec'"
    using record_parts [OF assms(1-3)] by metis
  then show ?thesis using record_done lone_runner [OF assms(1,3), of r]
    by (intro holder_fine [OF assms(2,3)]) auto
next
  case (run d r t outcome)
  then show ?thesis using assms(4) by simp
qed (use same_jobs_fine [OF assms(2) _ assms(3), of e' w'] tq.take_None tq.put_back_spec in
    \<open>auto simp: same_jobs_def worker_requeue_def\<close>)

lemma client_step_system_fine:
  assumes "system_fine s" "sys_clients s = before @ c # after" "client_step jo (sys_engine s, c) (e', cont)"
  shows "system_fine (s\<lparr>sys_engine := e', sys_clients := before @ continuation cont @ after\<rparr>)"
proof -
  let ?e = "sys_engine s"
  have c: "client_fine fresh (tq_closed (en_queue ?e)) c" using assms(1,2) by (simp add: system_fine_def)
  note kinds = client_step_kinds [OF assms(3) c] and closed = client_step_closed [OF assms(3) c]
  have "(\<forall>rec \<in> set (en_store e'). record_fine (tq_closed (en_queue e')) (en_journal e' \<noteq> None) rec) \<and>
    (\<forall>w \<in> set (sys_workers s). worker_fine (en_store e') w)"
    using kinds
  proof (elim disjE exE conjE)
    assume "engine_quiet ?e e'"
    then show ?thesis using assms(1) quiet_records_fine quiet_worker_fine unfolding system_fine_def by blast
  next
    assume "same_jobs ?e e'"
    then show ?thesis using assms(1) by (auto simp: system_fine_def same_jobs_def intro: record_fine_closed)
  next
    fix t assume t: "client_task c = Some t" "new_job t ?e e'"
    then obtain rec where rec: "en_store e' = en_store ?e @ [rec]" "\<And>b j. record_fine b j rec"
      using c fresh_record_fine by (auto simp: new_job_def client_fine_def)
    have "worker_fine (en_store e') w" if "worker_fine (en_store ?e) w" for w
      using that rec(1) by (cases w) (auto simp: nth_append)
    then show ?thesis using assms(1) rec t(2) by (auto simp: system_fine_def new_job_def)
  qed
  moreover have "\<forall>c' \<in> set (before @ continuation cont @ after). client_fine fresh (tq_closed (en_queue e')) c'"
    using client_step_fine [OF assms(3) c] closed(1) assms(1,2) by (auto simp: system_fine_def intro: client_fine_closed)
  ultimately show ?thesis by (simp add: system_fine_def)
qed

end

end
