(* ===== verification/Kronos_Factory.thy ===== *)
theory Kronos_Factory
  imports Kronos_Tasks
begin

text \<open>
  The task factory of \<open>src/task_factory.cpp\<close>: building the built-in tasks from command arguments
  and rebuilding them from a durable specification.  \<open>task\<close> is the closed set of \<open>ITask\<close>
  implementations the factory can return.  The theorems show that the durable specification of a
  created task restores that task, and they give the conditions of every exception.
\<close>

section \<open>Operations\<close>

datatype task = PrimeTask prime_count_task | StepTaskT step_task

record created_task =
  ct_task :: task
  ct_options :: submission_options

definition parse_positive :: "string \<Rightarrow> string \<Rightarrow> u64 result" where
  "parse_positive s label =
     (case from_chars_u64 s of
        (parsed, rest, error) \<Rightarrow>
          if error \<noteq> errc_ok \<or> rest \<noteq> [] \<or> parsed = 0
          then Inl (invalid_argument (label @ '' must be a positive integer''))
          else Inr parsed)"

definition parse_nonnegative :: "string \<Rightarrow> string \<Rightarrow> u64 result" where
  "parse_nonnegative s label =
     (case from_chars_u64 s of
        (parsed, rest, error) \<Rightarrow>
          if error \<noteq> errc_ok \<or> rest \<noteq> []
          then Inl (invalid_argument (label @ '' must be a non-negative integer''))
          else Inr parsed)"

definition split_payload :: "string \<Rightarrow> string list" where
  "split_payload payload = split_on CHR '','' payload"

definition make_prime :: "string \<Rightarrow> int \<Rightarrow> created_task result" where
  "make_prime upper_bound_text priority =
     (case parse_positive upper_bound_text ''upper bound'' of Inl e \<Rightarrow> Inl e | Inr upper_bound \<Rightarrow>
        let estimate = (if 1 < upper_bound then upper_bound - 1 else 1);
            specification = \<lparr>spec_type = ''prime'', spec_payload = u64_to_string upper_bound\<rparr> in
        Inr \<lparr>ct_task = PrimeTask (PrimeCountTask upper_bound),
             ct_options = \<lparr>opt_name = ''prime-'' @ u64_to_string upper_bound, opt_priority = priority,
               opt_estimated_work_units = estimate, opt_durable_spec = Some specification\<rparr>\<rparr>)"

text \<open>\<open>std::chrono::milliseconds::max().count()\<close> is the largest \<open>int64_t\<close>.\<close>

definition make_step :: "string \<Rightarrow> string \<Rightarrow> int \<Rightarrow> created_task result" where
  "make_step steps_text delay_text priority =
     (case parse_positive steps_text ''step count'' of Inl e \<Rightarrow> Inl e | Inr steps \<Rightarrow>
      case parse_nonnegative delay_text ''delay milliseconds'' of Inl e \<Rightarrow> Inl e | Inr delay \<Rightarrow>
        if 0x7FFFFFFFFFFFFFFF < delay then Inl (invalid_argument ''delay milliseconds is too large'')
        else
          let specification = \<lparr>spec_type = ''step'',
                spec_payload = u64_to_string steps @ '','' @ u64_to_string delay\<rparr> in
          Inr \<lparr>ct_task = StepTaskT (StepTask steps (sint delay)),
               ct_options = \<lparr>opt_name = ''step-'' @ u64_to_string steps, opt_priority = priority,
                 opt_estimated_work_units = steps, opt_durable_spec = Some specification\<rparr>\<rparr>)"

definition create_for_submission :: "string \<Rightarrow> string list \<Rightarrow> int \<Rightarrow> created_task result" where
  "create_for_submission type arguments priority =
     (if type = ''prime'' then
        if length arguments \<noteq> 1
        then Inl (invalid_argument ''usage: submit prime <upper-bound> [priority]'')
        else make_prime (arguments ! 0) priority
      else if type = ''step'' then
        if length arguments \<noteq> 2
        then Inl (invalid_argument ''usage: submit step <steps> <delay-ms> [priority]'')
        else make_step (arguments ! 0) (arguments ! 1) priority
      else Inl (invalid_argument (''unknown task type: '' @ type)))"

definition factory_restore :: "durable_task_spec \<Rightarrow> task result" where
  "factory_restore specification =
     (if spec_type specification = ''prime'' then
        map_sum (\<lambda>e. e) ct_task (make_prime (spec_payload specification) 0)
      else if spec_type specification = ''step'' then
        let flds = split_payload (spec_payload specification) in
        if length flds \<noteq> 2 then Inl (invalid_argument ''invalid durable step task payload'')
        else map_sum (\<lambda>e. e) ct_task (make_step (flds ! 0) (flds ! 1) 0)
      else Inl (invalid_argument (''cannot restore unknown task type: '' @ spec_type specification)))"

section \<open>Restoring\<close>

lemma parse_positive_iff:
  "parse_positive s label = Inr v \<longleftrightarrow> parse_u64 s = Some v \<and> v \<noteq> 0"
  by (auto simp: parse_positive_def parse_u64_def split: prod.split)

lemma parse_nonnegative_iff: "parse_nonnegative s label = Inr v \<longleftrightarrow> parse_u64 s = Some v"
  by (auto simp: parse_nonnegative_def parse_u64_def split: prod.split)

lemma parse_positive_to_string [text_simps]: "v \<noteq> 0 \<Longrightarrow> parse_positive (u64_to_string v) label = Inr v"
  by (simp add: parse_positive_iff text_simps)

lemma parse_nonnegative_to_string [text_simps]: "parse_nonnegative (u64_to_string v) label = Inr v"
  by (simp add: parse_nonnegative_iff text_simps)

lemma split_payload_pair: "split_payload (u64_to_string a @ '','' @ u64_to_string b) = [u64_to_string a, u64_to_string b]"
  by (simp add: split_payload_def split_on_append split_on_no_sep)

lemma factory_restore_step:
  "v \<noteq> 0 \<Longrightarrow> w \<le> 0x7FFFFFFFFFFFFFFF \<Longrightarrow>
     factory_restore \<lparr>spec_type = ''step'', spec_payload = u64_to_string v @ '','' @ u64_to_string w\<rparr> =
       Inr (StepTaskT (StepTask v (sint w)))"
  by (simp add: factory_restore_def split_payload_pair make_step_def text_simps Let_def not_less [symmetric]
      del: append_Cons append_Nil)

lemma make_prime_Inr:
  "make_prime s priority = Inr c \<Longrightarrow>
     \<exists>v. parse_u64 s = Some v \<and> v \<noteq> 0 \<and> ct_task c = PrimeTask (PrimeCountTask v) \<and>
         opt_durable_spec (ct_options c) = Some \<lparr>spec_type = ''prime'', spec_payload = u64_to_string v\<rparr> \<and>
         opt_estimated_work_units (ct_options c) \<noteq> 0 \<and> opt_priority (ct_options c) = priority"
  by (auto simp: make_prime_def Let_def parse_positive_iff word_less_nat_alt word_unat_eq_iff [of 0] split: sum.splits if_splits)

lemma make_step_Inr:
  "make_step s d priority = Inr c \<Longrightarrow>
     \<exists>v w. parse_u64 s = Some v \<and> v \<noteq> 0 \<and> parse_u64 d = Some w \<and> w \<le> 0x7FFFFFFFFFFFFFFF \<and>
         ct_task c = StepTaskT (StepTask v (sint w)) \<and>
         opt_durable_spec (ct_options c) =
           Some \<lparr>spec_type = ''step'', spec_payload = u64_to_string v @ '','' @ u64_to_string w\<rparr> \<and>
         opt_estimated_work_units (ct_options c) \<noteq> 0 \<and> opt_priority (ct_options c) = priority"
  by (auto simp: make_step_def Let_def parse_positive_iff parse_nonnegative_iff not_less split: sum.splits if_splits)

lemma created_priority:
  "create_for_submission type arguments priority = Inr c \<Longrightarrow> opt_priority (ct_options c) = priority"
  by (auto simp: create_for_submission_def split: if_splits dest!: make_prime_Inr make_step_Inr)

text \<open>
  C32 (durable specifications).  Every task the factory creates carries a durable specification, a
  non-zero estimate and the requested priority, and \<open>restore\<close> rebuilds exactly that task, in its
  initial state, from the specification.
\<close>

theorem restore_created:
  assumes "create_for_submission type arguments priority = Inr c"
  shows "\<exists>spec. opt_durable_spec (ct_options c) = Some spec \<and> spec_type spec = type \<and>
    factory_restore spec = Inr (ct_task c) \<and> opt_estimated_work_units (ct_options c) \<noteq> 0 \<and>
    opt_priority (ct_options c) = priority"
proof (cases "type = ''prime''")
  case True
  then obtain s where "make_prime s priority = Inr c"
    using assms by (auto simp: create_for_submission_def split: if_splits)
  from make_prime_Inr [OF this] show ?thesis
    using True by (auto simp: factory_restore_def make_prime_def text_simps Let_def)
next
  case False
  then have type: "type = ''step''" and "\<exists>s d. make_step s d priority = Inr c"
    using assms by (auto simp: create_for_submission_def split: if_splits)
  then obtain s d where "make_step s d priority = Inr c" by blast
  from make_step_Inr [OF this] show ?thesis
    using type factory_restore_step by (elim exE conjE) (intro exI conjI, assumption, simp_all del: append_Cons append_Nil)
qed

theorem restore_created_witness:
  "\<exists>c spec. create_for_submission ''step'' [''12'', ''250''] 3 = Inr c \<and>
     opt_durable_spec (ct_options c) = Some spec \<and> spec_type spec = ''step'' \<and>
     factory_restore spec = Inr (ct_task c)"
proof -
  have "parse_u64 ''12'' = Some 12" "parse_u64 ''250'' = Some 250"
    by (simp_all add: parse_u64_Some_iff is_digit_def digits_value_def)
  then obtain c where "create_for_submission ''step'' [''12'', ''250''] 3 = Inr c"
    using parse_positive_iff [of "''12''" "''step count''" 12]
      parse_nonnegative_iff [of "''250''" "''delay milliseconds''" 250]
    by (simp add: create_for_submission_def make_step_def Let_def)
  with restore_created [OF this] show ?thesis by blast
qed

text \<open>
  Factory arguments.  \<open>create_for_submission\<close> succeeds exactly for \<open>prime\<close> with one argument
  that is a positive decimal number below \<open>2^64\<close>, and for \<open>step\<close> with two arguments, a positive
  number and a delay of at most \<open>INT64_MAX\<close> milliseconds; in every other case it throws
  \<open>std::invalid_argument\<close>.
\<close>

theorem create_for_submission_accepts:
  "(\<exists>c. create_for_submission type arguments priority = Inr c) \<longleftrightarrow>
     (type = ''prime'' \<and> (\<exists>s v. arguments = [s] \<and> parse_u64 s = Some v \<and> v \<noteq> 0)) \<or>
     (type = ''step'' \<and> (\<exists>s d v w. arguments = [s, d] \<and> parse_u64 s = Some v \<and> v \<noteq> 0 \<and>
        parse_u64 d = Some w \<and> w \<le> 0x7FFFFFFFFFFFFFFF))"
proof -
  have prime: "(\<exists>c. make_prime s priority = Inr c) \<longleftrightarrow> (\<exists>v. parse_positive s ''upper bound'' = Inr v)" for s
    by (simp add: make_prime_def Let_def split: sum.split)
  have step: "(\<exists>c. make_step s d priority = Inr c) \<longleftrightarrow>
      (\<exists>v w. parse_positive s ''step count'' = Inr v \<and>
         parse_nonnegative d ''delay milliseconds'' = Inr w \<and> w \<le> 0x7FFFFFFFFFFFFFFF)" for s d
    by (simp add: make_step_def Let_def not_less [symmetric] split: sum.split)
  have len1: "length arguments = 1 \<longleftrightarrow> (\<exists>s. arguments = [s])"
    and len2: "length arguments = 2 \<longleftrightarrow> (\<exists>s d. arguments = [s, d])"
    by (auto simp: length_Suc_conv numeral_2_eq_2)
  consider "type = ''prime''" | "type = ''step''" | "type \<noteq> ''prime''" "type \<noteq> ''step''" by blast
  then show ?thesis
  proof cases
    case 1
    then have "(\<exists>c. create_for_submission type arguments priority = Inr c) \<longleftrightarrow>
        (\<exists>s. arguments = [s] \<and> (\<exists>c. make_prime s priority = Inr c))"
      using len1 by (auto simp: create_for_submission_def)
    then show ?thesis unfolding prime parse_positive_iff using 1 by simp
  next
    case 2
    then have "(\<exists>c. create_for_submission type arguments priority = Inr c) \<longleftrightarrow>
        (\<exists>s d. arguments = [s, d] \<and> (\<exists>c. make_step s d priority = Inr c))"
      using len2 by (auto simp: create_for_submission_def)
    then show ?thesis unfolding step parse_positive_iff parse_nonnegative_iff using 2 by simp
  qed (simp add: create_for_submission_def)
qed

end
