(* ===== verification/Kronos_Completion.thy ===== *)
theory Kronos_Completion
  imports Kronos_Slices Kronos_Factory
begin

text \<open>
  The engine with the built-in tasks: every interleaving of workers and clients comes to rest, and a job
  that completes publishes the right answer and the right amount of work.  The first part is proved for every counted
  task; the interpretation for the tasks of the factory gives the properties.
\<close>

section \<open>Registered jobs stay registered\<close>

lemma with_record_records: "with_record r f e = (x, e') \<Longrightarrow> en_records e' = en_records e"
  by (auto simp: with_record_def split: prod.splits)

lemma cancel_pending_records: "en_records (cancel_pending jo now pending e) = en_records e"
proof -
  have one: "en_records (cancel_pending_entry jo now entry e) = en_records e" for entry e
    using with_record_records [OF prod.collapse [symmetric]]
    by (auto simp: cancel_pending_entry_def split: option.split)
  show ?thesis by (induction pending arbitrary: e) (simp_all add: cancel_pending_def one)
qed

lemma worker_step_records: "worker_step jo (e, w) (e', w') \<Longrightarrow> en_records e' = en_records e"
  by (cases rule: worker_step.cases)
    (auto simp: worker_start_def worker_record_def set_task_def worker_requeue_def dest: with_record_records)

lemma emplace_find: "registry_emplace i rec e = (x, q, e') \<Longrightarrow> find_record k e = Some r \<Longrightarrow> find_record k e' = Some r"
  using hm_find_emplace [of i "length (en_store e)" "en_records e" k]
  by (auto simp: registry_emplace_def find_record_def Let_def split: prod.splits if_splits)

lemma client_step_find:
  assumes "client_step jo (e, c) (e', n)" "find_record i e = Some r"
  shows "find_record i e' = Some r"
  using assms(1)
proof (cases rule: client_step.cases)
  case (finish q entry message now)
  then show ?thesis using assms(2) with_record_records [of q "finish_section jo now Cancelled message" e]
    by (metis find_record_def finish_record_def prod.collapse)
qed (use assms(2) in \<open>auto dest: emplace_find with_record_records journal_frame(2) [OF disjI1] journal_frame(2) [OF disjI2] engine_push_parts shutdown_close_parts
    simp: find_record_def take_job_id_def take_sequence_def advance_job_id_def advance_sequence_def cancel_record_def
      shutdown_stop_accepting_def cancel_pending_records\<close>)

context counted_task
begin

section \<open>The invariant holds in reachable states\<close>

lemma internal_fine:
  assumes "internal_step run jo s s'" "sys_inv s" "system_fine s"
  shows "system_fine s'"
  using assms(1)
proof (cases rule: internal_step.cases)
  case (slice k d r stop result t)
  have wf: "worker_fine (en_store (sys_engine s)) (W_Run d r)" using assms(3) slice(2,3) by (metis nth_mem system_fine_def)
  have "rec_state (en_store (sys_engine s) ! r) = Running" using one_runner [OF assms(2) slice(2,2), of r] slice(3) by simp
  then have f: "record_fine (tq_closed (en_queue (sys_engine s))) (en_journal (sys_engine s) \<noteq> None)
        ((en_store (sys_engine s) ! r)\<lparr>jr_task := t\<rparr>) \<and> result_fine ((en_store (sys_engine s) ! r)\<lparr>jr_task := t\<rparr>) result"
    using assms(3) wf slice(4) by (intro slice_fine [OF slice(5)]) (auto simp: system_fine_def)
  show ?thesis unfolding slice(1)
    using f wf lone_runner [OF assms(2) slice(2), of r] slice(3)
    by (intro holder_fine [OF assms(3) slice(2), where r = r]) (auto simp: set_task_def)
next
  case (worker k e' w')
  then show ?thesis using worker_step_fine [OF assms(2,3)] by blast
next
  case (client before c after e' cont)
  then show ?thesis using client_step_system_fine [OF assms(3)] by blast
next
  case (join before after)
  then show ?thesis using assms(3) by (auto simp: system_fine_def)
qed

lemma call_fine:
  assumes "call_step fresh jo s s'" "system_fine s"
  shows "system_fine s'"
proof -
  obtain c where c: "step jo s s'" "sys_clients s' = c # sys_clients s" "pred_option fresh (client_task c)"
    using assms(1) by (auto elim: call_step.cases)
  have len: "length (sys_clients s') = Suc (length (sys_clients s))" using c(2) by simp
  from c(1) have "client_fine fresh (tq_closed (en_queue (sys_engine s))) c"
    by (cases rule: step.cases) (use len c(2,3) in \<open>auto simp: client_fine_def split: option.splits\<close>)
  then show ?thesis using call_frame [OF assms(1)] c(2) assms(2) by (auto simp: system_fine_def)
qed

lemma slice_step_fine: "slice_step fresh run jo s s' \<Longrightarrow> sys_inv s \<Longrightarrow> system_fine s \<Longrightarrow> system_fine s'"
  unfolding slice_step_def using internal_fine call_fine by blast

lemma initial_fine: "initial hc config s \<Longrightarrow> system_fine s"
  by (cases "TaskQueue (ec_scheduler config)")
    (auto simp: initial_def system_fine_def TaskEngine_Inr_iff eq_commute [of _ "sys_engine s"])

lemma reachable_fine:
  assumes "slice_reachable fresh run jo s"
  shows "system_fine s" "sys_inv s"
proof -
  obtain hc config s0 where s0: "initial hc config s0" "(slice_step fresh run jo)\<^sup>*\<^sup>* s0 s"
    using assms unfolding slice_reachable_def by blast
  have "system_fine s \<and> sys_inv s" using s0(2)
  proof (induction rule: rtranclp_induct)
    case base
    then show ?case using initial_fine [OF s0(1)] initial_inv [OF s0(1)] by blast
  next
    case (step t u)
    then show ?case using slice_step_fine step_inv [OF slice_is_step] by blast
  qed
  then show "system_fine s" "sys_inv s" by blast+
qed

section \<open>Internal steps come to an end\<close>

lemma slice_load:
  assumes "k < length (sys_workers s)" "sys_workers s ! k = W_Run d r" "system_fine s"
    "run stop (dis_budget d) (jr_task (en_store (sys_engine s) ! r)) = (result, t)"
  shows "engine_load remaining (set_task r t (sys_engine s)) + worker_load (W_Record d r result) <
    engine_load remaining (sys_engine s) + worker_load (W_Run d r)"
proof -
  let ?store = "en_store (sys_engine s)"
  have wf: "worker_fine ?store (W_Run d r)" using assms(1-3) by (metis nth_mem system_fine_def)
  then have r: "r < length ?store" "dis_budget d \<noteq> 0" by simp_all
  then have "record_fine (tq_closed (en_queue (sys_engine s))) (en_journal (sys_engine s) \<noteq> None) (?store ! r)"
    using assms(3) by (simp add: system_fine_def)
  then have inv: "invar (jr_task (?store ! r))" by (simp add: record_fine_def)
  note sl = slice [OF inv assms(4)]
  have pos: "unat (dis_budget d) \<noteq> 0" using r(2) by (simp add: unat_eq_0)
  have "task_load remaining (map jr_task (?store[r := (?store ! r)\<lparr>jr_task := t\<rparr>])) + 20 * remaining (jr_task (?store ! r)) =
      task_load remaining (map jr_task ?store) + 20 * remaining t"
    using sum_list_replace [of r "map jr_task ?store" "\<lambda>t. 20 * remaining t" t] r(1)
    by (simp add: task_load_def map_update)
  moreover have "remaining t + (if sr_status result = SliceYielded then 1 else 0) \<le> remaining (jr_task (?store ! r))"
    using sl pos by (cases "sr_status result") auto
  ultimately show ?thesis by (auto simp: engine_load_def set_task_def)
qed

lemma record_load:
  assumes "sys_inv s" "system_fine s" "k < length (sys_workers s)" "sys_workers s ! k = W_Record d r result"
    "worker_record jo now result r (sys_engine s) = (x, e')"
  shows "engine_load remaining e' = engine_load remaining (sys_engine s)" "x \<Longrightarrow> sr_status result = SliceYielded"
proof -
  have "(map jr_task (en_store (sys_engine s)))[r := jr_task (en_store (sys_engine s) ! r)] = map jr_task (en_store (sys_engine s))"
    by (metis list_update_id map_update)
  then show "engine_load remaining e' = engine_load remaining (sys_engine s)" "x \<Longrightarrow> sr_status result = SliceYielded"
    using record_parts [OF assms] by (auto simp: engine_load_def map_update)
qed

lemma worker_step_load:
  assumes "sys_inv s" "system_fine s" "k < length (sys_workers s)" "\<not> in_slice (sys_workers s ! k)"
    "worker_step jo (sys_engine s, sys_workers s ! k) (e', w')"
  shows "engine_load remaining e' + worker_load w' < engine_load remaining (sys_engine s) + worker_load (sys_workers s ! k)"
  using assms(5)
proof (cases rule: worker_step.cases)
  case (pop_none q)
  then have "q = en_queue (sys_engine s)" using tq.take_None by blast
  then show ?thesis using pop_none by simp
next
  case (pop_some d q)
  then have "queue_content (en_queue (sys_engine s)) = add_mset (dis_entry d) (queue_content q)" using tq.take_Some by blast
  then have "engine_load remaining (sys_engine s) = engine_load remaining e' + 10"
    using pop_some by (intro queued_load [of _ _ "dis_entry d"]) simp_all
  then show ?thesis using pop_some by simp
next
  case (start_ok now r d)
  then show ?thesis using quiet_load [OF start_fine(1) [OF assms(2,3)]] by simp
next
  case (start_skip now r d)
  then show ?thesis using quiet_load [OF start_fine(1) [OF assms(2,3)]] by simp
next
  case (record_yield now result r d)
  then show ?thesis using record_load [OF assms(1-3)] by simp
next
  case (record_done now result r d)
  then show ?thesis using record_load [OF assms(1-3)] by simp
next
  case (requeue d r)
  then have "engine_load remaining e' = engine_load remaining (sys_engine s) + 10"
    using tq.put_back_spec by (intro queued_load) (auto simp: worker_requeue_def)
  then show ?thesis using requeue by simp
qed (use assms(4) in auto)

lemma internal_load:
  assumes "internal_step run jo s s'" "sys_inv s" "system_fine s"
  shows "work_left remaining s' < work_left remaining s"
  using assms(1)
proof (cases rule: internal_step.cases)
  case (slice k d r stop result t)
  then show ?thesis
    using slice_load [OF slice(2,3) assms(3) slice(5)] sum_list_replace [OF slice(2), of worker_load "W_Record d r result"]
    by (simp add: work_left_def)
next
  case (worker k e' w')
  then show ?thesis
    using worker_step_load [OF assms(2,3) worker(2-4)] sum_list_replace [OF worker(2), of worker_load w']
    by (simp add: work_left_def)
next
  case (client before c after e' cont)
  have "client_fine fresh (tq_closed (en_queue (sys_engine s))) c" using assms(3) client(2) by (simp add: system_fine_def)
  from client_step_load [OF client(3) this, of remaining] show ?thesis using client(1,2) by (simp add: work_left_def)
next
  case (join before after)
  then show ?thesis by (simp add: work_left_def)
qed

lemma internal_run_bound:
  assumes "(internal_step run jo ^^ n) s s'" "slice_reachable fresh run jo s"
  shows "slice_reachable fresh run jo s' \<and> work_left remaining s' + n \<le> work_left remaining s"
  using assms(1)
proof (induction n arbitrary: s')
  case (Suc n)
  then obtain t where t: "(internal_step run jo ^^ n) s t" "internal_step run jo t s'" by auto
  have reach: "slice_reachable fresh run jo t" using Suc.IH [OF t(1)] by blast
  have "work_left remaining s' < work_left remaining t"
    using internal_load [OF t(2)] reachable_fine [OF reach] by blast
  moreover have "slice_reachable fresh run jo s'"
    using slice_reachable_step [OF reach] t(2) by (simp add: slice_step_def)
  ultimately show ?case using Suc.IH [OF t(1)] by simp
qed (use assms(2) in auto)

section \<open>The engine at rest\<close>

lemma at_rest_terminal:
  assumes "slice_reachable fresh run jo s" "\<And>s'. \<not> internal_step run jo s s'" "rec_of (sys_engine s) i = Some rec"
  shows "is_terminal (rec_state rec)"
proof (rule ccontr)
  assume "\<not> is_terminal (rec_state rec)"
  moreover have "state_of (sys_engine s) i = Some (rec_state rec)" using assms(3) by (simp add: state_of_def)
  ultimately consider w e' w' where "w \<in> set (sys_workers s)" "worker_step jo (sys_engine s, w) (e', w')"
    | c e' n where "c \<in> set (sys_clients s)" "client_step jo (sys_engine s, c) (e', n)"
    using pending_work_can_move [OF slice_reachable_reachable [OF assms(1)]] by blast
  then show False
  proof cases
    case 1
    then obtain k where k: "k < length (sys_workers s)" "sys_workers s ! k = w" by (meson in_set_conv_nth)
    show False
    proof (cases "in_slice w")
      case True
      then obtain d r where "w = W_Run d r" by (cases w) auto
      moreover obtain result t where
        "run (\<lambda>_. False) (dis_budget d) (jr_task (en_store (sys_engine s) ! r)) = (result, t)" by fastforce
      ultimately show False using internal_step.slice [of k s d r "\<lambda>_. False"] assms(2) k by blast
    next
      case False
      then show False using internal_step.worker [of k s jo e' w'] assms(2) 1 k by blast
    qed
  next
    case 2
    then obtain b a where "sys_clients s = b @ c # a" by (meson split_list)
    then show False using internal_step.client [of s b c a jo e' n] assms(2) 2 by blast
  qed
qed

lemma ending:
  assumes "slice_reachable fresh run jo s" "rec_of (sys_engine s) i = Some rec"
  shows "rec_state rec = Completed \<Longrightarrow> jr_promise rec = [\<lparr>res_id = i, res_state = Completed,
      res_message = answer (jr_task rec), res_work_units_consumed = of_nat (total (jr_task rec))\<rparr>]"
    "rec_state rec = Cancelled \<Longrightarrow> jr_stop_requested rec \<or> tq_closed (en_queue (sys_engine s))"
    "rec_state rec = Failed \<Longrightarrow> en_journal (sys_engine s) \<noteq> None \<and> wal_failed rec"
proof -
  obtain r where r: "find_record i (sys_engine s) = Some r" "rec = en_store (sys_engine s) ! r"
    using assms(2) by (auto simp: rec_of_def)
  note inv = reachable_fine(2) [OF assms(1)]
  have core: "core (sys_engine s) (queued (sys_engine s) + tally worker_tokens (sys_workers s) +
      tally client_tokens (sys_clients s)) (tally worker_runs (sys_workers s))"
    using inv by (simp add: engine_inv_def)
  have fine: "record_fine (tq_closed (en_queue (sys_engine s))) (en_journal (sys_engine s) \<noteq> None) rec"
    using reachable_fine(1) [OF assms(1)] store_ref [OF inv r(1)] r(2) by (simp add: system_fine_def)
  then show "rec_state rec = Cancelled \<Longrightarrow> jr_stop_requested rec \<or> tq_closed (en_queue (sys_engine s))"
    "rec_state rec = Failed \<Longrightarrow> en_journal (sys_engine s) \<noteq> None \<and> wal_failed rec"
    by (auto simp: record_fine_def)
  assume fin: "rec_state rec = Completed"
  have "snap_id (jr_snapshot rec) = i" using registry_okD(2) [OF coreD(1) [OF core] r(1)] r(2) by simp
  moreover have "jr_promise rec = [result_of rec]"
    using coreD(2) [OF core assms(2)] fin by (simp add: published_ok_def is_terminal_def)
  moreover have "answered_right rec" using fine fin by (simp add: record_fine_def)
  moreover from this have "snap_work_units_consumed (jr_snapshot rec) = of_nat (total (jr_task rec))"
    by (metis answered_right_def of_nat_unat ucast_id)
  ultimately show "jr_promise rec = [\<lparr>res_id = i, res_state = Completed,
      res_message = answer (jr_task rec), res_work_units_consumed = of_nat (total (jr_task rec))\<rparr>]"
    using fin by (simp add: result_of_def answered_right_def)
qed

section \<open>What a job is to compute never changes\<close>

lemma worker_step_tasks:
  assumes "sys_inv s" "system_fine s" "k < length (sys_workers s)" "\<not> in_slice (sys_workers s ! k)"
    "worker_step jo (sys_engine s, sys_workers s ! k) (e', w')"
  shows "map jr_task (en_store e') = map jr_task (en_store (sys_engine s))"
proof -
  have rec: "map jr_task (en_store e') = map jr_task (en_store (sys_engine s))"
    if "sys_workers s ! k = W_Record d r result" "worker_record jo now result r (sys_engine s) = (x, e')" for d r result now x
    using record_parts [OF assms(1-3) that] by (metis list_update_id map_update)
  have start: "map jr_task (en_store e') = map jr_task (en_store (sys_engine s))"
    if "sys_workers s ! k = W_Start d r" "worker_start jo now r (sys_engine s) = (x, e')" for d r now x
    using quiet_tasks [OF start_fine(1) [OF assms(2,3) that]] .
  show ?thesis using assms(5)
    by (cases rule: worker_step.cases) (use assms(4) rec start in \<open>auto simp: worker_requeue_def\<close>)
qed

lemma step_goal:
  fixes s :: "('t, 'j) system"
  assumes "slice_step fresh run jo s s'" "sys_inv s" "system_fine s" "find_record i (sys_engine s) = Some r"
  shows "find_record i (sys_engine s') = Some r \<and>
    answer (jr_task (en_store (sys_engine s') ! r)) = answer (jr_task (en_store (sys_engine s) ! r)) \<and>
    total (jr_task (en_store (sys_engine s') ! r)) = total (jr_task (en_store (sys_engine s) ! r))"
proof -
  let ?e = "sys_engine s"
  have r: "r < length (en_store ?e)" by (rule store_ref [OF assms(2,4)])
  have kept: "answer (jr_task (en_store e' ! r)) = answer (jr_task (en_store ?e ! r)) \<and>
      total (jr_task (en_store e' ! r)) = total (jr_task (en_store ?e ! r))"
    if "map jr_task (en_store e') = map jr_task (en_store ?e)" for e' :: "('t, 'j) engine"
    using r arg_cong [OF that, of "\<lambda>ts. ts ! r"] arg_cong [OF that, of length] by simp
  show ?thesis
  proof (cases "internal_step run jo s s'")
    case False
    then show ?thesis using assms(1,4) call_frame [of fresh jo s s'] by (simp add: slice_step_def)
  next
    case True
    then show ?thesis
    proof (cases rule: internal_step.cases)
      case (slice k d q stop result t)
      have "worker_fine (en_store ?e) (W_Run d q)" using slice(2,3) assms(3) by (metis nth_mem system_fine_def)
      then have "record_fine (tq_closed (en_queue ?e)) (en_journal ?e \<noteq> None) (en_store ?e ! q)"
        using assms(3) by (simp add: system_fine_def)
      then have inv: "invar (jr_task (en_store ?e ! q))" by (simp add: record_fine_def)
      have "answer t = answer (jr_task (en_store ?e ! q))" "total t = total (jr_task (en_store ?e ! q))"
        using sliced_task_axioms total_kept [OF inv slice(5)] sliced_task.slice [OF sliced_task_axioms inv slice(5)] by blast+
      then show ?thesis using slice(1) assms(4) r
        by (cases "q = r") (auto simp: set_task_def find_record_def)
    next
      case (worker k e' w')
      then show ?thesis
        using kept [OF worker_step_tasks [OF assms(2,3) worker(2-4)]] worker_step_records [OF worker(4)] assms(4)
        by (simp add: find_record_def)
    next
      case (client before c after e' cont)
      have "client_fine fresh (tq_closed (en_queue ?e)) c" using assms(3) client(2) by (simp add: system_fine_def)
      from client_step_kinds [OF client(3) this] show ?thesis
        using client_step_find [OF client(3) assms(4)] kept [OF quiet_tasks, of e'] kept [of e'] client(1) r
        by (auto simp: same_jobs_def new_job_def nth_append)
    next
      case (join before after)
      then show ?thesis using assms(4) by simp
    qed
  qed
qed

lemma steps_goal:
  assumes "(slice_step fresh run jo)\<^sup>*\<^sup>* s s'" "slice_reachable fresh run jo s" "rec_of (sys_engine s) i = Some rec"
  shows "\<exists>rec'. rec_of (sys_engine s') i = Some rec' \<and> answer (jr_task rec') = answer (jr_task rec) \<and>
    total (jr_task rec') = total (jr_task rec)"
proof -
  obtain r where r: "find_record i (sys_engine s) = Some r" "rec = en_store (sys_engine s) ! r"
    using assms(3) by (auto simp: rec_of_def)
  have "find_record i (sys_engine s') = Some r \<and> answer (jr_task (en_store (sys_engine s') ! r)) = answer (jr_task rec) \<and>
      total (jr_task (en_store (sys_engine s') ! r)) = total (jr_task rec)"
    using assms(1)
  proof (induction rule: rtranclp_induct)
    case base
    then show ?case using r by simp
  next
    case (step t u)
    have "slice_reachable fresh run jo t" by (rule slice_reachable_steps [OF step(1) assms(2)])
    then show ?case using step_goal [OF step(2)] reachable_fine step.IH by metis
  qed
  then show ?thesis by (simp add: rec_of_def)
qed

text \<open>
  A job left to the engine: after any further steps its result, once completed, is the answer of the
  task it was submitted with.
\<close>

lemma completed_result:
  assumes "slice_reachable fresh run jo s" "rec_of (sys_engine s) i = Some rec" "(slice_step fresh run jo)\<^sup>*\<^sup>* s s'"
  shows "\<exists>rec'. rec_of (sys_engine s') i = Some rec' \<and>
    (rec_state rec' = Completed \<longrightarrow> jr_promise rec' = [\<lparr>res_id = i, res_state = Completed,
       res_message = answer (jr_task rec), res_work_units_consumed = of_nat (total (jr_task rec))\<rparr>])"
proof -
  have reach: "slice_reachable fresh run jo s'" by (rule slice_reachable_steps [OF assms(3,1)])
  obtain rec' where rec': "rec_of (sys_engine s') i = Some rec'" "answer (jr_task rec') = answer (jr_task rec)"
      "total (jr_task rec') = total (jr_task rec)"
    using steps_goal [OF assms(3,1,2)] by blast
  then show ?thesis using ending(1) [OF reach rec'(1)] by auto
qed

end

section \<open>The built-in tasks\<close>

text \<open>The virtual call \<open>ITask::run_slice\<close> on the tasks the factory builds.\<close>

fun task_run_slice :: "(nat \<Rightarrow> bool) \<Rightarrow> work_units \<Rightarrow> task \<Rightarrow> slice_result \<times> task" where
  "task_run_slice stop max_work_units (PrimeTask t) = map_prod (\<lambda>r. r) PrimeTask (prime_run_slice stop max_work_units t)"
| "task_run_slice stop max_work_units (StepTaskT t) = map_prod (\<lambda>r. r) StepTaskT (step_run_slice stop max_work_units t)"

text \<open>A task as its constructor leaves it; the prime counter with the bound \<open>UINT64_MAX\<close>, which never completes, is left out.\<close>

fun new_task :: "task \<Rightarrow> bool" where
  "new_task (PrimeTask t) \<longleftrightarrow> t = PrimeCountTask (pc_upper_bound t) \<and> pc_upper_bound t \<noteq> 0xFFFFFFFFFFFFFFFF"
| "new_task (StepTaskT t) \<longleftrightarrow> t = StepTask (st_total_steps t) (st_delay_per_step t)"

fun task_invar :: "task \<Rightarrow> bool" where
  "task_invar (PrimeTask t) = prime_invar t"
| "task_invar (StepTaskT t) = step_invar t"

fun task_remaining :: "task \<Rightarrow> nat" where
  "task_remaining (PrimeTask t) = prime_remaining t"
| "task_remaining (StepTaskT t) = step_remaining t"

fun task_answer :: "task \<Rightarrow> string" where
  "task_answer (PrimeTask t) = prime_answer t"
| "task_answer (StepTaskT t) = step_answer t"

fun task_total :: "task \<Rightarrow> nat" where
  "task_total (PrimeTask t) = unat (pc_upper_bound t) - 1"
| "task_total (StepTaskT t) = unat (st_total_steps t)"

lemma step_loop_total: "step_loop stop k budget consumed t = (stopped, c, u) \<Longrightarrow> st_total_steps u = st_total_steps t"
  by (induction stop k budget consumed t rule: step_loop.induct)
    (subst (asm) (2) step_loop.simps, auto split: if_splits)

lemma slices_keep_size:
  "prime_run_slice stop b p = (r, p') \<Longrightarrow> pc_upper_bound p' = pc_upper_bound p"
  "step_run_slice stop b q = (r, q') \<Longrightarrow> st_total_steps q' = st_total_steps q"
  by (auto simp: prime_run_slice_def step_run_slice_def Let_def dest: prime_loop_bound step_loop_total
      split: if_splits prod.splits)

lemma new_task_start:
  assumes "new_task t"
  shows "task_invar t \<and> task_remaining t = task_total t"
proof (cases t)
  case (PrimeTask p)
  define n where "n = pc_upper_bound p"
  have p: "p = PrimeCountTask n" "n \<noteq> 0xFFFFFFFFFFFFFFFF" using assms PrimeTask by (simp_all add: n_def)
  have "prime_invar p" using p(2) unfolding p(1)
    by (simp add: prime_invar_def prime_counted_def PrimeCountTask_def primes_up_to_small)
  moreover have "prime_remaining p = unat n - 1" unfolding p(1) by (simp add: prime_remaining_def PrimeCountTask_def)
  ultimately show ?thesis using PrimeTask by (simp add: n_def)
next
  case (StepTaskT q)
  define n d where "n = st_total_steps q" "d = st_delay_per_step q"
  have q: "q = StepTask n d" using assms StepTaskT by (simp add: n_d_def)
  have "step_invar q" "step_remaining q = unat n" unfolding q by (simp_all add: step_invar_def step_remaining_def StepTask_def)
  then show ?thesis using StepTaskT by (simp add: n_d_def)
qed

interpretation builtin: counted_task task_run_slice task_invar task_remaining task_answer task_total new_task
proof
  fix t stop b r t' assume t: "task_invar t" and run: "task_run_slice stop b t = (r, t')"
  show "task_invar t' \<and> task_answer t' = task_answer t \<and>
      task_remaining t = task_remaining t' + unat (sr_work_units_consumed r) \<and>
      (case sr_status r of
         SliceCompleted \<Rightarrow> task_remaining t' = 0 \<and> sr_message r = task_answer t
       | SliceYielded \<Rightarrow> task_remaining t' \<noteq> 0 \<and> sr_work_units_consumed r = b
       | SliceCancelled \<Rightarrow> \<exists>k. stop k
       | SliceFailed \<Rightarrow> False)"
  proof (cases t)
    case (PrimeTask p)
    then obtain p' where "prime_run_slice stop b p = (r, p')" "t' = PrimeTask p'" using run by (auto simp: map_snd_eq_Pair_iff)
    then show ?thesis using prime.slice [of p stop b r p'] t PrimeTask by (cases "sr_status r") simp_all
  next
    case (StepTaskT q)
    then obtain q' where "step_run_slice stop b q = (r, q')" "t' = StepTaskT q'" using run by (auto simp: map_snd_eq_Pair_iff)
    then show ?thesis using step.slice [of q stop b r q'] t StepTaskT by (cases "sr_status r") simp_all
  qed
  show "task_total t' = task_total t"
    using run by (cases t) (auto simp: map_snd_eq_Pair_iff dest: slices_keep_size)
next
  show "task_run_slice stop b t = (r, t') \<Longrightarrow> unat (sr_work_units_consumed r) \<le> unat b" for stop b t r t'
    by (cases t) (auto simp: map_snd_eq_Pair_iff dest: prime.budget step.budget)
  show "task_total t < 2 ^ 64" for t
    using unat_less_2p64 by (cases t) (auto intro: less_imp_diff_less)
  show "new_task t \<Longrightarrow> task_invar t \<and> task_remaining t = task_total t" for t by (rule new_task_start)
qed

text \<open>The factory builds new tasks only, apart from the one prime counter that never completes.\<close>

lemma made_tasks_new:
  assumes "make_prime s p = Inr c \<or> make_step s' d p = Inr c" "ct_task c \<noteq> PrimeTask (PrimeCountTask 0xFFFFFFFFFFFFFFFF)"
  shows "new_task (ct_task c)"
  using assms make_prime_Inr [of s p c] make_step_Inr [of s' d p c] by (auto simp: PrimeCountTask_def StepTask_def)

lemma factory_tasks_new:
  assumes "t \<noteq> PrimeTask (PrimeCountTask 0xFFFFFFFFFFFFFFFF)"
  shows "create_for_submission type arguments priority = Inr c \<Longrightarrow> ct_task c = t \<Longrightarrow> new_task t"
    "factory_restore specification = Inr t \<Longrightarrow> new_task t"
proof -
  show "create_for_submission type arguments priority = Inr c \<Longrightarrow> ct_task c = t \<Longrightarrow> new_task t"
    using assms made_tasks_new [of "arguments ! 0" priority c "arguments ! 0" "arguments ! 1"]
    by (auto simp: create_for_submission_def split: if_splits)
  assume restored: "factory_restore specification = Inr t"
  then obtain s s' d where "map_sum (\<lambda>e. e) ct_task (make_prime s 0) = Inr t \<or> map_sum (\<lambda>e. e) ct_task (make_step s' d 0) = Inr t"
    by (auto simp: factory_restore_def Let_def split: if_splits)
  then obtain c where "make_prime s 0 = Inr c \<or> make_step s' d 0 = Inr c" "ct_task c = t"
    by (cases "make_prime s 0"; cases "make_step s' d 0") auto
  then show "new_task t" using made_tasks_new assms by blast
qed

section \<open>Properties\<close>

text \<open>
  C3 (left alone, the engine finishes every job).  Take any state that the engine can reach with the built-in
  tasks, whatever the interleaving and the calls so far.  Without further calls the threads take at most
  \<open>work_left\<close> steps, whatever their order.  When none of them can move any more, every registered job has ended: it
  is \<open>Completed\<close>; or \<open>Cancelled\<close>, and then its cancellation was requested or the queue was closed; or
  \<open>Failed\<close>, and then the engine has a journal and the message names its error.
\<close>

theorem engine_comes_to_rest:
  assumes "slice_reachable new_task task_run_slice jo s" "(internal_step task_run_slice jo ^^ n) s s'"
  shows "n \<le> work_left task_remaining s \<and>
    ((\<nexists>s''. internal_step task_run_slice jo s' s'') \<longrightarrow>
     (\<forall>i rec. rec_of (sys_engine s') i = Some rec \<longrightarrow>
        rec_state rec = Completed \<or>
        rec_state rec = Cancelled \<and> (jr_stop_requested rec \<or> tq_closed (en_queue (sys_engine s'))) \<or>
        wal_failed rec \<and> en_journal (sys_engine s') \<noteq> None))"
proof -
  have reach: "slice_reachable new_task task_run_slice jo s'" and bound: "n \<le> work_left task_remaining s"
    using builtin.internal_run_bound [OF assms(2,1)] by auto
  have "rec_state rec = Completed \<or>
      rec_state rec = Cancelled \<and> (jr_stop_requested rec \<or> tq_closed (en_queue (sys_engine s'))) \<or>
      wal_failed rec \<and> en_journal (sys_engine s') \<noteq> None"
    if "\<nexists>s''. internal_step task_run_slice jo s' s''" "rec_of (sys_engine s') i = Some rec" for i rec
  proof -
    have "is_terminal (rec_state rec)" using builtin.at_rest_terminal [OF reach] that by blast
    then show ?thesis using builtin.ending(2,3) [OF reach that(2)] by (auto simp: is_terminal_def)
  qed
  then show ?thesis using bound by blast
qed

text \<open>
  C4 (the published result is the right one).  Take a job registered with a built-in task in any reachable state, and let workers and clients
  go on in any way.  The job stays registered, and if it completes, the result given to its promise is the number of
  primes up to the bound (or the number of steps) the task was created with, and the work charged to it is the number of candidates (of steps), however
  the slices were cut and whichever workers ran them.
\<close>

theorem completed_job_answer:
  assumes "slice_reachable new_task task_run_slice jo s" "rec_of (sys_engine s) i = Some rec"
    "(slice_step new_task task_run_slice jo)\<^sup>*\<^sup>* s s'"
  shows "\<exists>rec'. rec_of (sys_engine s') i = Some rec' \<and>
    (rec_state rec' = Completed \<longrightarrow>
     jr_promise rec' = [\<lparr>res_id = i, res_state = Completed,
       res_message = (case jr_task rec of
          PrimeTask t \<Rightarrow> ''primes found: '' @ u64_to_string (of_nat (card {p. prime_nat p \<and> p \<le> unat (pc_upper_bound t)}))
        | StepTaskT t \<Rightarrow> ''steps completed: '' @ u64_to_string (st_total_steps t)),
       res_work_units_consumed = (case jr_task rec of
          PrimeTask t \<Rightarrow> of_nat (unat (pc_upper_bound t) - 1) | StepTaskT t \<Rightarrow> st_total_steps t)\<rparr>])"
proof -
  obtain rec' where rec': "rec_of (sys_engine s') i = Some rec'"
    and result: "rec_state rec' = Completed \<longrightarrow> jr_promise rec' = [\<lparr>res_id = i, res_state = Completed,
       res_message = task_answer (jr_task rec), res_work_units_consumed = of_nat (task_total (jr_task rec))\<rparr>]"
    using builtin.completed_result [OF assms] by blast
  have "task_answer (jr_task rec) = (case jr_task rec of
      PrimeTask t \<Rightarrow> ''primes found: '' @ u64_to_string (of_nat (card {p. prime_nat p \<and> p \<le> unat (pc_upper_bound t)}))
    | StepTaskT t \<Rightarrow> ''steps completed: '' @ u64_to_string (st_total_steps t))"
    by (simp add: prime_answer_def primes_found_def primes_up_to_def step_answer_def steps_completed_def split: task.split)
  moreover have "of_nat (task_total (jr_task rec)) = (case jr_task rec of
      PrimeTask t \<Rightarrow> of_nat (unat (pc_upper_bound t) - 1) | StepTaskT t \<Rightarrow> st_total_steps t)"
    by (simp split: task.split)
  ultimately show ?thesis using rec' result by metis
qed

section \<open>A run of the prime counter\<close>

lemma step_internal:
  assumes "step jo s s'" "\<forall>w \<in> set (sys_workers s). \<not> in_slice w" "length (sys_clients s') \<le> length (sys_clients s)"
  shows "internal_step run jo s s'"
  using assms(1)
proof (cases rule: step.cases)
  case (worker k e' w')
  then show ?thesis using assms(2) internal_step.worker [of k s jo e' w'] by simp
next
  case (client before c after e' cont)
  then show ?thesis using internal_step.client [of s before c after jo e' cont] by simp
next
  case (join before after)
  then show ?thesis using internal_step.join [of s before after] by simp
qed (use assms(3) in simp_all)

lemma job_internal:
  "internal_step run no_journal (job_system t t' m w 1) (job_system t t' m w 2)"
  "internal_step run no_journal (job_system t t' m w 2) (job_system t t' m w 3)"
  "internal_step run no_journal (job_system t t' m w 3) (job_system t t' m w 4)"
  "internal_step run no_journal (job_system t t' m w 4) (job_system t t' m w 5)"
  "internal_step run no_journal (job_system t t' m w 5) (job_system t t' m w 6)"
  "internal_step run no_journal (job_system t t' m w 6) (job_system t t' m w 7)"
  "internal_step run no_journal (job_system t t' m w 7) (job_system t t' m w 8)"
  "internal_step run no_journal (job_system t t' m w 8) (job_system t t' m w 9)"
  "internal_step run no_journal (job_system t t' m w 10) (job_system t t' m w 11)"
  by (intro step_internal job_steps; simp add: run_unfold)+

lemma job_slice:
  assumes "run (\<lambda>_. False) unlimited_work t = (slice_completed m w, t')"
  shows "internal_step run no_journal (job_system t t' m w 9) (job_system t t' m w 10)"
proof -
  let ?s = "job_system t t' m w 9"
  have "internal_step run no_journal ?s (?s\<lparr>sys_engine := set_task 0 t' (sys_engine ?s),
      sys_workers := (sys_workers ?s)[0 := W_Record run_dispatch 0 (slice_completed m w)]\<rparr>)"
    by (rule internal_step.slice [of 0 _ _ _ "\<lambda>_. False"])
      (use assms in \<open>simp_all add: run_unfold job_running_def job_ready_def JobRecord_def run_dispatch_def\<close>)
  moreover have "?s\<lparr>sys_engine := set_task 0 t' (sys_engine ?s),
      sys_workers := (sys_workers ?s)[0 := W_Record run_dispatch 0 (slice_completed m w)]\<rparr> = job_system t t' m w 10"
    by (simp add: run_unfold set_task_def job_running_def job_ready_def JobRecord_def)
  ultimately show ?thesis by simp
qed

lemma job_runs:
  assumes "fresh t" "run (\<lambda>_. False) unlimited_work t = (slice_completed m w, t')"
  shows "slice_reachable fresh run no_journal (job_system t t' m w 6)"
    "(internal_step run no_journal ^^ 5) (job_system t t' m w 6) (job_system t t' m w 11)"
proof -
  let ?s = "job_system t t' m w"
  have "initial able_platform run_config (?s 0)"
    by (simp add: initial_def run_unfold TaskEngine_Inr_iff TaskQueue_def run_config_def resolved_worker_count_def)
  then have start: "slice_reachable fresh run no_journal (?s 0)" unfolding slice_reachable_def by blast
  have "call_step fresh no_journal (?s 0) (?s 1)"
    by (rule call_step.call [OF job_steps(1), where c = "C_SubmitId t run_options"]) (use assms(1) in \<open>simp_all add: run_unfold\<close>)
  then have one: "slice_reachable fresh run no_journal (?s 1)"
    by (intro slice_reachable_step [OF start]) (simp add: slice_step_def)
  have onward: "slice_reachable fresh run no_journal x \<Longrightarrow> internal_step run no_journal x y \<Longrightarrow>
      slice_reachable fresh run no_journal y" for x y
    by (rule slice_reachable_step) (auto simp: slice_step_def)
  show "slice_reachable fresh run no_journal (?s 6)"
    by (rule onward [OF onward [OF onward [OF onward [OF onward [OF one job_internal(1)] job_internal(2)] job_internal(3)]
      job_internal(4)] job_internal(5)])
  define P where "P = internal_step run no_journal"
  have five: "(5 :: nat) = Suc (Suc (Suc (Suc (Suc 0))))" by simp
  have "P (?s 6) (?s 7)" "P (?s 7) (?s 8)" "P (?s 8) (?s 9)" "P (?s 9) (?s 10)" "P (?s 10) (?s 11)"
    unfolding P_def by (rule job_internal job_slice assms(2))+
  then have "(P ^^ 5) (?s 6) (?s 11)" unfolding five by (metis relpowp_0_I relpowp_Suc_I)
  then show "(internal_step run no_journal ^^ 5) (?s 6) (?s 11)" by (simp add: P_def)
qed

lemma job_at_rest: "\<nexists>s''. internal_step run no_journal (job_system t t' m w 11) s''"
  by (auto elim!: internal_step.cases worker_step.cases simp: run_unfold pop_ready_def fifo_empty_def)

lemma prime_completes:
  "\<exists>t' m w. task_run_slice (\<lambda>_. False) unlimited_work (PrimeTask (PrimeCountTask 10)) = (slice_completed m w, t')"
proof -
  let ?t = "PrimeTask (PrimeCountTask 10)"
  obtain r t' where run: "task_run_slice (\<lambda>_. False) unlimited_work ?t = (r, t')" by fastforce
  have new: "new_task ?t" by (simp add: PrimeCountTask_def)
  have "task_remaining ?t \<le> unat unlimited_work"
    using new_task_start [OF new] by (simp add: PrimeCountTask_def unlimited_work_def)
  then have "sr_status r = SliceCompleted" using builtin.free_slice [OF _ run] new_task_start [OF new] by simp
  then have "r = slice_completed (sr_message r) (sr_work_units_consumed r)" by (cases r) (simp add: slice_completed_def)
  then show ?thesis using run by metis
qed

theorem engine_comes_to_rest_witness:
  "\<exists>(s :: (task, unit) system) s' rec. slice_reachable new_task task_run_slice no_journal s \<and>
     (internal_step task_run_slice no_journal ^^ 5) s s' \<and> 5 \<le> work_left task_remaining s \<and>
     rec_of (sys_engine s') 1 = Some rec \<and> rec_state rec = Completed"
proof -
  obtain t' m w where run: "task_run_slice (\<lambda>_. False) unlimited_work (PrimeTask (PrimeCountTask 10)) = (slice_completed m w, t')"
    using prime_completes by blast
  let ?s = "job_system (PrimeTask (PrimeCountTask 10)) t' m w"
  have new: "new_task (PrimeTask (PrimeCountTask 10))" by (simp add: PrimeCountTask_def)
  note j = job_runs [where run = task_run_slice and fresh = new_task, OF new run]
  have rec: "rec_of (sys_engine (?s 11)) 1 = Some (job_done t' m w)" "\<not> jr_stop_requested (job_done t' m w)"
      "\<not> tq_closed (en_queue (sys_engine (?s 11)))" "en_journal (sys_engine (?s 11)) = None"
    by (simp_all add: run_unfold rec_of_def find_record_def hm_find_def job_done_def job_running_def job_ready_def JobRecord_def)
  from engine_comes_to_rest [OF j] have "5 \<le> work_left task_remaining (?s 6)" "rec_state (job_done t' m w) = Completed"
    using job_at_rest [of task_run_slice "PrimeTask (PrimeCountTask 10)" t' m w] rec by auto
  then show ?thesis using j rec(1) by (intro exI [of _ "?s 6"] exI [of _ "?s 11"] exI [of _ "job_done t' m w"]) simp
qed

theorem completed_job_answer_witness:
  "\<exists>(s :: (task, unit) system) s' rec'. slice_reachable new_task task_run_slice no_journal s \<and>
     (slice_step new_task task_run_slice no_journal)\<^sup>*\<^sup>* s s' \<and> rec_of (sys_engine s') 1 = Some rec' \<and>
     jr_promise rec' = [\<lparr>res_id = 1, res_state = Completed,
       res_message = ''primes found: '' @ u64_to_string (of_nat (card {p. prime_nat p \<and> p \<le> 10})), res_work_units_consumed = 9\<rparr>]"
proof -
  obtain t' m w where run: "task_run_slice (\<lambda>_. False) unlimited_work (PrimeTask (PrimeCountTask 10)) = (slice_completed m w, t')"
    using prime_completes by blast
  let ?t = "PrimeTask (PrimeCountTask 10)" and ?s = "job_system (PrimeTask (PrimeCountTask 10)) t' m w"
  have new: "new_task ?t" by (simp add: PrimeCountTask_def)
  note j = job_runs [where run = task_run_slice and fresh = new_task, OF new run]
  have "(internal_step task_run_slice no_journal)\<^sup>*\<^sup>* (?s 6) (?s 11)" using j(2) by (rule relpowp_imp_rtranclp)
  then have steps: "(slice_step new_task task_run_slice no_journal)\<^sup>*\<^sup>* (?s 6) (?s 11)"
    by (rule rtranclp_mono [THEN predicate2D, rotated]) (auto simp: slice_step_def)
  have rec: "rec_of (sys_engine (?s 6)) 1 = Some (job_ready ?t)" "rec_of (sys_engine (?s 11)) 1 = Some (job_done t' m w)"
      "rec_state (job_done t' m w) = Completed" "jr_task (job_ready ?t) = ?t"
    by (simp_all add: run_unfold rec_of_def find_record_def hm_find_def job_done_def job_ready_def JobRecord_def)
  then have "jr_promise (job_done t' m w) = [\<lparr>res_id = 1, res_state = Completed,
       res_message = ''primes found: '' @ u64_to_string (of_nat (card {p. prime_nat p \<and> p \<le> 10})), res_work_units_consumed = 9\<rparr>]"
    using completed_job_answer [OF j(1) rec(1) steps] by (simp add: PrimeCountTask_def)
  then show ?thesis using j(1) steps rec(2) by blast
qed

end
