(* ===== verification/Kronos_Operations.thy ===== *)
theory Kronos_Operations
  imports Kronos_Lifecycle
begin

text \<open>
  The public operations of the engine as their caller sees them, when the call is not interleaved
  with others: what \<open>submit\<close>, \<open>restore\<close>, \<open>cancel\<close>, \<open>snapshot\<close> and \<open>reserve_recovered_identity\<close> return and change,
  on every branch.
\<close>

section \<open>Registered jobs\<close>

definition records_ok :: "('t, 'j) engine \<Rightarrow> bool" where
  "records_ok e \<longleftrightarrow> registry_ok e \<and> (\<forall>i rec. rec_of e i = Some rec \<longrightarrow> published_ok rec)"

text \<open>In every reachable state the records are in order, and between restores the next job ID is free.\<close>

lemma reachable_records_ok:
  assumes "reachable jo s"
  shows "records_ok (sys_engine s)"
    and "(\<forall>r submission. C_RestoreId r submission \<notin> set (sys_clients s)) \<Longrightarrow>
      find_record (en_next_job_id (sys_engine s)) (sys_engine s) = None"
  using reachable_inv [OF assms] by (auto simp: engine_inv_def core_def records_ok_def ids_ok_def)

lemma get_job_rec_of: "get_job i e = map_option jr_snapshot (rec_of e i)"
  by (simp add: get_job_def rec_of_def option.map_comp comp_def)

lemma push_or_finish_spec:
  assumes "records_ok e" "find_record i e = Some r" "rec_of e i = Some rec" "rec_state rec = Ready"
    "push_or_finish jo now entry r message e = e'"
  shows "records_ok e' \<and> (\<forall>k. k \<noteq> i \<longrightarrow> rec_of e' k = rec_of e k) \<and>
    (if tq_closed (en_queue e)
     then queue_content (en_queue e') = queue_content (en_queue e) \<and>
       (\<exists>rec'. rec_of e' i = Some rec' \<and> section_ok rec rec' \<and> is_terminal (rec_state rec'))
     else rec_of e' i = Some rec \<and> queue_content (en_queue e') = add_mset entry (queue_content (en_queue e)))"
proof -
  obtain ok e1 where push: "engine_push entry e = (ok, e1)" by fastforce
  obtain q where q: "push_external entry (en_queue e) = (ok, q)" "e1 = e\<lparr>en_queue := q\<rparr>"
    using engine_push_parts [OF push] by blast
  note spec = tq.push_spec [OF q(1)]
  have e1: "records_ok e1" using assms(1) by (simp add: records_ok_def q(2))
  show ?thesis
  proof (cases ok)
    case True
    then have "e' = e1" using assms(5) by (simp add: push_or_finish_def push)
    then show ?thesis using True spec q(2) assms(3) e1 by simp
  next
    case False
    have r: "find_record i e1 = Some r" using assms(2) by (simp add: q(2))
    have rec: "en_store e1 ! r = rec" using assms(2,3) by (simp add: q(2) rec_of_def)
    have pub: "published_ok rec" using assms(1,3) by (simp add: records_ok_def)
    obtain rec' j' where fin: "finish_locked jo now Cancelled message (rec, en_journal e1) = (rec', j')" by fastforce
    have ok: "section_ok rec rec'" "is_terminal (rec_state rec')"
      using finish_section_ok [OF pub _ _ fin] by simp_all
    have "e' = finish_record jo now Cancelled message r e1" using False assms(5) by (simp add: push_or_finish_def push)
    moreover obtain e2 where "with_record r (finish_section jo now Cancelled message) e1 = ((), e2)" "registry_ok e2"
        "rec_of e2 = (rec_of e1)(i \<mapsto> rec')" "en_queue e2 = en_queue e1"
      using with_record_view [of e1 i r "finish_section jo now Cancelled message" "()" rec' j'] e1 r rec fin ok
      by (auto simp: records_ok_def finish_section_def)
    ultimately have e': "registry_ok e'" "rec_of e' = (rec_of e)(i \<mapsto> rec')" "en_queue e' = en_queue e1"
      by (simp_all add: finish_record_def q(2))
    then show ?thesis using False spec ok q(2) assms(1) by (auto simp: records_ok_def section_ok_def)
  qed
qed

section \<open>submit\<close>

lemma submit_cases:
  assumes "submit jo now task options e = (out, e')"
  obtains (rejected) error where "submit_check task options e = Inl error" "out = Inl error" "e' = e"
  | (not_journaled) error e2 where "e2 = snd (take_sequence (snd (take_job_id e)))" "out = Inl error"
      "submit_journal jo (submit_snapshot now (en_next_job_id e) (en_next_sequence e) options) options e2 = (Some error, e')"
  | (accepted) t e2 e3 ins r e4 where "submit_check task options e = Inr t"
      "e2 = snd (take_sequence (snd (take_job_id e)))"
      "submit_journal jo (submit_snapshot now (en_next_job_id e) (en_next_sequence e) options) options e2 = (None, e3)"
      "registry_emplace (en_next_job_id e)
         (JobRecord (submit_snapshot now (en_next_job_id e) (en_next_sequence e) options)
            (submit_entry (en_next_job_id e) (en_next_sequence e) options) t) e3 = (ins, r, e4)"
      "out = Inr (JobHandle (en_next_job_id e) r)"
      "e' = push_or_finish jo now (submit_entry (en_next_job_id e) (en_next_sequence e) options) r
              ''submission raced with engine shutdown'' e4"
  using assms that
  by (auto simp: submit_def take_job_id_def take_sequence_def Let_def split: sum.splits prod.splits option.splits)

text \<open>What the counters and the journal entry of a submission leave alone.\<close>

lemma submit_journal_frame:
  assumes "submit_journal jo snapshot options (snd (take_sequence (snd (take_job_id e)))) = (err, e')"
  shows "rec_of e' = rec_of e \<and> registry_ok e' = registry_ok e \<and> (\<forall>k. find_record k e' = find_record k e) \<and>
    en_queue e' = en_queue e \<and> en_next_job_id e' = en_next_job_id e + 1"
proof -
  note frame = journal_frame [OF disjI1 [OF assms]]
  then have same: "en_store e' = en_store e" "en_records e' = en_records e"
    by (simp_all add: take_job_id_def take_sequence_def)
  then have "rec_of e' = rec_of e" "registry_ok e' = registry_ok e" "find_record k e' = find_record k e" for k
    by (auto simp: rec_of_def registry_ok_def find_record_def)
  then show ?thesis using frame by (simp add: take_job_id_def take_sequence_def)
qed

lemma push_or_finish_next_id [simp]:
  "en_next_job_id (push_or_finish jo now entry r message e) = en_next_job_id e"
  by (auto simp: push_or_finish_def engine_push_def finish_record_def with_record_def map_snd_eq_Pair_iff
      split: prod.splits bool.splits)

lemma submit_throws:
  "submit jo now task options e = (Inl error, e') \<Longrightarrow> (\<forall>k. get_job k e' = get_job k e) \<and> en_queue e' = en_queue e"
  by (erule submit_cases) (use submit_journal_frame in \<open>fastforce simp: get_job_rec_of\<close>)+

lemma submit_registers:
  assumes "records_ok e" "find_record (en_next_job_id e) e = None" "submit jo now task options e = (Inr h, e')"
  shows "jh_id h = en_next_job_id e \<and> en_next_job_id e' = en_next_job_id e + 1 \<and> records_ok e' \<and>
    (\<forall>k. k \<noteq> jh_id h \<longrightarrow> get_job k e' = get_job k e) \<and>
    (\<exists>snap. get_job (jh_id h) e' = Some snap \<and> snap_id snap = jh_id h \<and>
       (if tq_closed (en_queue e) then is_terminal (snap_state snap)
        else snap = submit_snapshot now (en_next_job_id e) (en_next_sequence e) options \<and>
          queue_content (en_queue e') = add_mset (submit_entry (jh_id h) (en_next_sequence e) options)
            (queue_content (en_queue e)) \<and>
          (\<exists>t. task = Some t \<and> rec_of e' (jh_id h) = Some (JobRecord snap
            (submit_entry (jh_id h) (en_next_sequence e) options) t))))"
  using assms(3)
proof (cases rule: submit_cases)
  case (accepted t e2 e3 ins r e4)
  let ?i = "en_next_job_id e" and ?q = "en_next_sequence e"
  let ?snap = "submit_snapshot now ?i ?q options" and ?entry = "submit_entry ?i ?q options"
  let ?rec = "JobRecord ?snap ?entry t"
  note e3 = submit_journal_frame [OF accepted(3) [unfolded accepted(2)]]
  have ids: "snap_id (jr_snapshot ?rec) = ?i" "se_id (jr_entry ?rec) = ?i" "rec_state ?rec = Ready"
    by (simp_all add: JobRecord_def submit_snapshot_def submit_entry_def)
  have new: "registry_ok e4" "rec_of e4 = (rec_of e)(?i \<mapsto> ?rec)" "find_record ?i e4 = Some r"
      "en_queue e4 = en_queue e" "en_next_job_id e4 = ?i + 1"
    using registry_emplace_new [OF _ _ ids(1,2) accepted(4)] e3 assms by (simp_all add: records_ok_def)
  then have ok4: "records_ok e4"
    using assms(1) by (auto simp: records_ok_def JobRecord_def published_ok_def submit_snapshot_def)
  have rec: "rec_of e4 ?i = Some ?rec" using new(2) by simp
  note fin = push_or_finish_spec [OF ok4 new(3) rec ids(3) accepted(6) [symmetric]]
  have snap: "jr_snapshot ?rec = ?snap" by (simp add: JobRecord_def)
  have "task = Some t" using accepted(1) by (auto simp: submit_check_def split: option.splits if_splits)
  then show ?thesis using fin new ids(1) snap accepted(5)
    by (auto simp: accepted(6) get_job_rec_of JobHandle_def section_ok_def split: if_splits)
qed simp_all

text \<open>
  C18 (submission).  A \<open>submit\<close> that throws leaves every job and the queue as they were.  A \<open>submit\<close> that
  returns a handle has taken the next job ID and registered a new job under it, with the submitted
  name (or \<open>task\<close>), priority and estimate; the job is ready and its entry queued, or, when the queue
  was closed already, the job is finished and its result published.  Other jobs are untouched.
\<close>

theorem submit_outcome:
  assumes "records_ok e" "find_record (en_next_job_id e) e = None"
  shows "case submit jo now task options e of
    (Inl error, e') \<Rightarrow> (\<forall>k. get_job k e' = get_job k e) \<and> en_queue e' = en_queue e
  | (Inr h, e') \<Rightarrow>
      jh_id h = en_next_job_id e \<and> en_next_job_id e' = en_next_job_id e + 1 \<and> records_ok e' \<and>
      (\<forall>k. k \<noteq> jh_id h \<longrightarrow> get_job k e' = get_job k e) \<and>
      (\<exists>snap. get_job (jh_id h) e' = Some snap \<and> snap_id snap = jh_id h \<and>
         (if tq_closed (en_queue e) then is_terminal (snap_state snap)
          else snap = submit_snapshot now (en_next_job_id e) (en_next_sequence e) options \<and>
            queue_content (en_queue e') = add_mset (submit_entry (jh_id h) (en_next_sequence e) options)
              (queue_content (en_queue e))))"
  using submit_throws submit_registers [OF assms] by (fastforce split: prod.split sum.split)

lemma run_records_ok:
  "records_ok (run_engine [] False [] 1 0 True)" "records_ok (run_engine [run_entry] False [run_ready] 2 1 True)"
proof -
  show "records_ok (run_engine [] False [] 1 0 True)"
    by (simp add: records_ok_def registry_ok_def rec_of_def find_record_def run_engine_def)
  show "records_ok (run_engine [run_entry] False [run_ready] 2 1 True)"
    by (auto simp: records_ok_def registry_ok_def rec_of_def find_record_def run_engine_def hm_wf_def hm_find_def
        run_ready_def JobRecord_def submit_snapshot_def run_entry_def submit_entry_def published_ok_def
        split: if_splits)
qed

theorem submit_outcome_witness:
  "\<exists>(e :: (unit, unit) engine) h e'. records_ok e \<and> find_record (en_next_job_id e) e = None \<and>
     submit no_journal 10 (Some ()) run_options e = (Inr h, e') \<and> get_job 1 e' \<noteq> None \<and>
     queue_content (en_queue e') = {#run_entry#}"
proof -
  let ?e = "run_engine [] False [] 1 0 True"
  have free: "find_record (en_next_job_id ?e) ?e = None" by (simp add: run_engine_def find_record_def)
  obtain h e' where run: "submit no_journal 10 (Some ()) run_options ?e = (Inr h, e')"
    by (simp add: submit_def submit_check_def run_options_def run_engine_def take_job_id_def take_sequence_def
        submit_journal_def registry_emplace_def hm_emplace_def Let_def)
  then show ?thesis
    using submit_outcome [OF run_records_ok(1) free, where jo = no_journal and now = 10 and task = "Some ()" and options = run_options] run_records_ok(1) free
    by (intro exI [of _ ?e] exI [of _ h] exI [of _ e']) (auto simp: run_engine_def run_entry_def)
qed

section \<open>restore and reserve\_recovered\_identity\<close>

lemma restore_cases:
  assumes "restore jo now task submission e = (out, e')"
  obtains (rejected) error where "restore_check task submission e = Inl error" "out = Inl error" "e' = e"
  | (not_journaled) error where "restore_journal jo submission e = (Some error, e')" "out = Inl error"
  | (duplicate) t e1 r where "restore_check task submission e = Inr t" "restore_journal jo submission e = (None, e1)"
      "registry_emplace (sub_id submission) (JobRecord (restore_snapshot now submission) (restore_entry submission) t) e1
         = (False, r, e')"
      "out = Inl (invalid_argument ''recovered job ID already exists'')"
  | (restored) t e1 r e2 where "restore_check task submission e = Inr t" "restore_journal jo submission e = (None, e1)"
      "registry_emplace (sub_id submission) (JobRecord (restore_snapshot now submission) (restore_entry submission) t) e1
         = (True, r, e2)"
      "out = Inr (JobHandle (sub_id submission) r)"
      "e' = push_or_finish jo now (restore_entry submission) r ''recovery raced with engine shutdown''
              (advance_sequence [] submission (advance_job_id [] submission e2))"
  using assms that
  by (auto simp: restore_def Let_def split: sum.splits prod.splits option.splits if_splits)

lemma restore_journal_frame:
  assumes "restore_journal jo submission e = (err, e')"
  shows "rec_of e' = rec_of e \<and> registry_ok e' = registry_ok e \<and> (\<forall>k. find_record k e' = find_record k e) \<and>
    en_queue e' = en_queue e \<and> en_next_job_id e' = en_next_job_id e"
  using journal_frame [OF disjI2 [OF assms]] by (auto simp: rec_of_def registry_ok_def find_record_def)

lemma advance_counter_max: "advance_counter [] c d = max c d"
  by (auto simp: max_def)

lemma u64_below_succ: "w < w + 1" if "w \<noteq> - 1" for w :: u64
proof (rule u64_less_Suc)
  have eq: "(0xFFFFFFFFFFFFFFFF :: u64) = - 1" by simp
  show "w \<noteq> 0xFFFFFFFFFFFFFFFF" unfolding eq by (rule that)
qed

lemma advance_frame [simp]:
  "rec_of (advance_sequence s submission (advance_job_id s' submission e)) = rec_of e"
  "registry_ok (advance_sequence s submission (advance_job_id s' submission e)) = registry_ok e"
  "find_record k (advance_sequence s submission (advance_job_id s' submission e)) = find_record k e"
  "en_queue (advance_sequence s submission (advance_job_id s' submission e)) = en_queue e"
  "en_next_job_id (advance_sequence s submission (advance_job_id s' submission e)) =
     advance_counter s' (en_next_job_id e) (sub_id submission + 1)"
  by (auto simp: advance_sequence_def advance_job_id_def rec_of_def registry_ok_def find_record_def)

text \<open>
  C19 (restoring).  A \<open>restore\<close> that throws leaves every job and the queue as they were, also when the job ID
  is already registered.  A \<open>restore\<close> that returns has registered the job of the submission record under
  its old ID, ready and queued, or finished when the queue was closed; the next job ID is now above the
  restored one unless that was the largest 64-bit number.
\<close>

theorem restore_outcome:
  assumes "records_ok e"
  shows "case restore jo now task submission e of
    (Inl error, e') \<Rightarrow> (\<forall>k. get_job k e' = get_job k e) \<and> en_queue e' = en_queue e
  | (Inr h, e') \<Rightarrow>
      jh_id h = sub_id submission \<and> get_job (jh_id h) e = None \<and> records_ok e' \<and>
      en_next_job_id e \<le> en_next_job_id e' \<and> (jh_id h \<noteq> - 1 \<longrightarrow> jh_id h < en_next_job_id e') \<and>
      (\<forall>k. k \<noteq> jh_id h \<longrightarrow> get_job k e' = get_job k e) \<and>
      (\<exists>snap. get_job (jh_id h) e' = Some snap \<and> snap_id snap = jh_id h \<and>
         (if tq_closed (en_queue e) then is_terminal (snap_state snap)
          else snap = restore_snapshot now submission \<and>
            queue_content (en_queue e') = add_mset (restore_entry submission) (queue_content (en_queue e))))"
proof -
  obtain out e' where run: "restore jo now task submission e = (out, e')" by fastforce
  from run show ?thesis
  proof (cases rule: restore_cases)
    case rejected
    then show ?thesis using run by simp
  next
    case not_journaled
    then show ?thesis using run restore_journal_frame by (fastforce simp: get_job_rec_of)
  next
    case (duplicate t e1 r)
    note e1 = restore_journal_frame [OF duplicate(2)]
    have "find_record (sub_id submission) e1 \<noteq> None"
      using duplicate(3) by (auto simp: registry_emplace_def Let_def find_record_def registry_simps
          split: prod.splits dest: arg_cong [where f = snd])
    then show ?thesis using registry_emplace_old [OF _ _ duplicate(3)] e1 assms duplicate(4)
      by (auto simp: run get_job_rec_of records_ok_def)
  next
    case (restored t e1 r e2)
    let ?rec = "JobRecord (restore_snapshot now submission) (restore_entry submission) t"
    let ?e3 = "advance_sequence [] submission (advance_job_id [] submission e2)"
    note e1 = restore_journal_frame [OF restored(2)]
    have ids: "snap_id (jr_snapshot ?rec) = sub_id submission" "se_id (jr_entry ?rec) = sub_id submission"
        "rec_state ?rec = Ready" "jr_snapshot ?rec = restore_snapshot now submission"
      by (simp_all add: JobRecord_def restore_snapshot_def restore_entry_def)
    have free: "find_record (sub_id submission) e1 = None"
    proof (rule ccontr)
      assume "find_record (sub_id submission) e1 \<noteq> None"
      then show False using registry_emplace_old [OF _ _ restored(3)] e1 assms by (auto simp: records_ok_def)
    qed
    have new: "registry_ok ?e3" "rec_of ?e3 = (rec_of e)(sub_id submission \<mapsto> ?rec)"
        "find_record (sub_id submission) ?e3 = Some r" "en_queue ?e3 = en_queue e"
        "en_next_job_id ?e3 = max (en_next_job_id e) (sub_id submission + 1)"
      using registry_emplace_new [OF _ free ids(1,2) restored(3)] e1 assms
      by (simp_all add: records_ok_def advance_counter_max)
    then have ok3: "records_ok ?e3"
      using assms ids(3) by (auto simp: records_ok_def JobRecord_def published_ok_def)
    have rec: "rec_of ?e3 (sub_id submission) = Some ?rec" using new(2) by simp
    note fin = push_or_finish_spec [OF ok3 new(3) rec ids(3) restored(5) [symmetric]]
    have above: "sub_id submission < max (en_next_job_id e) (sub_id submission + 1)" if "sub_id submission \<noteq> - 1"
      using u64_below_succ [OF that] by (simp add: less_max_iff_disj)
    have none: "get_job (sub_id submission) e = None"
      using free e1 by (simp add: get_job_rec_of rec_of_None)
    show ?thesis using fin new ids(1,4) above none
      by (auto simp: run restored(4,5) get_job_rec_of JobHandle_def section_ok_def split: if_splits)
  qed
qed

theorem restore_outcome_witness:
  "\<exists>(e :: (unit, unit) engine) h e'. records_ok e \<and>
     restore no_journal 10 (Some ()) \<lparr>sub_id = 7, sub_submission_sequence = 3, sub_name = ''old'', sub_priority = 0,
       sub_estimated_work_units = 5, sub_task = \<lparr>spec_type = ''prime'', spec_payload = ''6''\<rparr>\<rparr> e = (Inr h, e') \<and>
     get_job 7 e' \<noteq> None \<and> 7 < en_next_job_id e'"
proof -
  let ?e = "run_engine [] False [] 1 0 True"
  let ?sub = "\<lparr>sub_id = 7, sub_submission_sequence = 3, sub_name = ''old'', sub_priority = 0,
    sub_estimated_work_units = 5, sub_task = \<lparr>spec_type = ''prime'', spec_payload = ''6''\<rparr>\<rparr>"
  obtain h e' where run: "restore no_journal 10 (Some ()) ?sub ?e = (Inr h, e')"
    by (simp add: restore_def restore_check_def run_engine_def restore_journal_def registry_emplace_def
        hm_emplace_def Let_def)
  then show ?thesis
    using restore_outcome [OF run_records_ok(1), where jo = no_journal and now = 10 and task = "Some ()" and submission = ?sub] run_records_ok(1)
    by (intro exI [of _ ?e] exI [of _ h] exI [of _ e']) auto
qed

section \<open>cancel\<close>

text \<open>What the log answers to one transition record; without a log nothing is written and nothing throws.\<close>

definition journal_answer :: "'j journal_ops \<Rightarrow> job_transition_record \<Rightarrow> 'j option \<Rightarrow> exn option \<times> 'j option" where
  "journal_answer jo transition journal =
     (case journal of
        None \<Rightarrow> (None, None)
      | Some j \<Rightarrow> map_prod (\<lambda>x. x) Some (append_transition jo transition j))"

lemma finish_locked_journal:
  assumes "\<not> jr_result_published rec"
  shows "finish_locked jo now state message (rec, j) =
    (case journal_answer jo \<lparr>tr_id = snap_id (jr_snapshot rec), tr_state = state,
        tr_work_units_consumed = snap_work_units_consumed (jr_snapshot rec), tr_message = message\<rparr> j of
       (None, j') \<Rightarrow> (publish now state message rec, j')
     | (Some error, j') \<Rightarrow> (publish now Failed (''write-ahead log failure: '' @ what error) rec, j'))"
  using assms
  by (auto simp: finish_locked_def persist_transition_locked_def journal_answer_def
      fail_without_journal_locked_def split: option.splits prod.splits)

text \<open>
  C20 (cancelling).  \<open>cancel\<close> returns true exactly for a registered job that has not finished.  A job
  that was ready first has its cancellation written to the log; when there is no log or the log
  accepts it, the job is Cancelled at once, with the message "cancelled before execution" and the
  time of the call, and when the log throws it is Failed with the message of the log failure; either
  way the stop request is set, its task and work count stay, and its result is published exactly once.
  A running job keeps its state with the stop request set, and in all other cases nothing changes;
  other jobs and the queue are never touched.
\<close>

theorem cancel_outcome:
  assumes "records_ok e" "cancel jo now i e = (answer, e')"
  shows "records_ok e' \<and> en_queue e' = en_queue e \<and> (\<forall>k. k \<noteq> i \<longrightarrow> get_job k e' = get_job k e) \<and>
    (case rec_of e i of
       None \<Rightarrow> \<not> answer \<and> e' = e
     | Some rec \<Rightarrow>
         if is_terminal (rec_state rec) then \<not> answer \<and> e' = e
         else if rec_state rec = Running
         then answer \<and> rec_of e' i = Some (rec\<lparr>jr_stop_requested := True\<rparr>) \<and> en_journal e' = en_journal e
         else answer \<and>
           (case journal_answer jo
               \<lparr>tr_id = i, tr_state = Cancelled,
                tr_work_units_consumed = snap_work_units_consumed (jr_snapshot rec),
                tr_message = ''cancelled before execution''\<rparr> (en_journal e) of
              (thrown, journal) \<Rightarrow>
                en_journal e' = journal \<and>
                (\<exists>rec'. rec_of e' i = Some rec' \<and>
                   jr_snapshot rec' =
                     (case thrown of
                        None \<Rightarrow> (jr_snapshot rec)\<lparr>snap_state := Cancelled,
                          snap_message := ''cancelled before execution'', snap_finished_at := now\<rparr>
                      | Some error \<Rightarrow> (jr_snapshot rec)\<lparr>snap_state := Failed,
                          snap_message := ''write-ahead log failure: '' @ what error, snap_finished_at := now\<rparr>) \<and>
                   jr_stop_requested rec' \<and> jr_task rec' = jr_task rec \<and>
                   jr_result_published rec' \<and> jr_promise rec' = [result_of rec'])))"
proof (cases "find_record i e")
  case None
  then show ?thesis using assms by (simp add: cancel_def rec_of_def)
next
  case (Some r)
  let ?rec = "en_store e ! r"
  have i: "rec_of e i = Some ?rec" using Some by (simp add: rec_of_def)
  have ok: "registry_ok e" "published_ok ?rec" using assms(1) i by (auto simp: records_ok_def)
  obtain rec' j' where run: "cancel_section jo now (?rec, en_journal e) = (answer, rec', j')"
      "e' = e\<lparr>en_store := (en_store e)[r := rec'], en_journal := j'\<rparr>"
    using assms(2) by (auto simp: cancel_def Some cancel_record_def with_record_def split: prod.splits)
  have sec: "section_ok ?rec rec'" using cancel.sec_ok [OF ok(2) _ run(1)] by simp
  obtain e1 where "with_record r (cancel_section jo now) e = (answer, e1)" "registry_ok e1"
      "rec_of e1 = (rec_of e)(i \<mapsto> rec')" "en_queue e1 = en_queue e"
    using with_record_view [of e i r "cancel_section jo now" answer rec' j', OF ok(1) Some run(1) sec] by blast
  then have e': "registry_ok e'" "rec_of e' = (rec_of e)(i \<mapsto> rec')" "en_queue e' = en_queue e"
    using assms(2) by (simp_all add: cancel_def Some cancel_record_def)
  have frame: "records_ok e' \<and> en_queue e' = en_queue e \<and> (\<forall>k. k \<noteq> i \<longrightarrow> get_job k e' = get_job k e)"
    using e' assms(1) sec by (auto simp: records_ok_def section_ok_def get_job_rec_of)
  consider "is_terminal (rec_state ?rec)" | "rec_state ?rec = Running" | "rec_state ?rec = Ready"
    using ok(2) by (cases "rec_state ?rec") (auto simp: published_ok_def)
  then show ?thesis
  proof cases
    case 1
    then have "\<not> answer" "rec' = ?rec" "j' = en_journal e" using run(1) by (simp_all add: cancel_section_def)
    then show ?thesis using 1 frame i run(2) by simp
  next
    case 2
    then have "answer" "rec' = ?rec\<lparr>jr_stop_requested := True\<rparr>" "j' = en_journal e"
      using run(1) by (auto simp: cancel_section_def Let_def)
    then show ?thesis using 2 frame i e' run(2) by simp
  next
    case 3
    then have fin: "answer" "finish_locked jo now Cancelled ''cancelled before execution''
        (?rec\<lparr>jr_stop_requested := True\<rparr>, en_journal e) = (rec', j')"
      using run(1) by (auto simp: cancel_section_def Let_def)
    have "snap_id (jr_snapshot ?rec) = i" using registry_okD(2) [OF ok(1) Some] by simp
    moreover have "\<not> jr_result_published ?rec" using ok(2) 3 by (simp add: published_ok_def)
    moreover have "jr_promise rec' = [result_of rec']" "jr_result_published rec'"
      using finish_section_ok [OF _ _ _ fin(2)] ok(2) sec by (auto simp: section_ok_def published_ok_def)
    moreover have "en_journal e' = j'" using run(2) by simp
    ultimately show ?thesis using 3 fin frame i e'
      by (auto simp: finish_locked_journal publish_def Let_def simp del: append_Cons split: prod.splits option.splits)
  qed
qed

theorem cancel_outcome_witness:
  "\<exists>(e :: (unit, unit) engine) e' rec'. records_ok e \<and> cancel no_journal 30 1 e = (True, e') \<and>
     rec_of e' 1 = Some rec' \<and> rec_state rec' = Cancelled \<and>
     snap_message (jr_snapshot rec') = ''cancelled before execution'' \<and>
     snap_finished_at (jr_snapshot rec') = 30 \<and> jr_promise rec' = [result_of rec']"
proof -
  let ?e = "run_engine [run_entry] False [run_ready] 2 1 True"
  have rec: "rec_of ?e 1 = Some run_ready" "rec_state run_ready = Ready" "en_journal ?e = None"
    by (simp_all add: rec_of_def run_engine_def find_record_def hm_find_def run_ready_def JobRecord_def submit_snapshot_def)
  obtain answer e' where run: "cancel no_journal 30 1 ?e = (answer, e')" by fastforce
  from cancel_outcome [OF run_records_ok(2) run] rec obtain rec' where
      "answer" "rec_of e' 1 = Some rec'" "jr_promise rec' = [result_of rec']"
      "jr_snapshot rec' = (jr_snapshot run_ready)\<lparr>snap_state := Cancelled,
         snap_message := ''cancelled before execution'', snap_finished_at := 30\<rparr>"
    by (auto simp: journal_answer_def)
  with run run_records_ok(2) show ?thesis by (intro exI [of _ ?e] exI [of _ e'] exI [of _ rec']) simp
qed

section \<open>snapshot\<close>

text \<open>
  C21 (the listing of jobs).  \<open>snapshot\<close> lists every registered job exactly once, as \<open>get_job\<close> reports it,
  in the order of the submission sequence.
\<close>

theorem snapshot_lists_jobs:
  assumes "records_ok e"
  shows "sorted (map snap_submission_sequence (engine_snapshot e)) \<and>
    distinct (map snap_id (engine_snapshot e)) \<and>
    (\<forall>snap. snap \<in> set (engine_snapshot e) \<longleftrightarrow> get_job (snap_id snap) e = Some snap)"
proof -
  let ?snap = "\<lambda>(i, r). jr_snapshot (en_store e ! r)"
  have wf: "hm_wf (en_records e)" using assms by (simp add: records_ok_def registry_ok_def)
  have mem: "(i, r) \<in> set (en_records e) \<longleftrightarrow> find_record i e = Some r" for i r
    using hm_find_set_iff [OF wf] by (simp add: find_record_def)
  have id: "snap_id (?snap p) = fst p" if "p \<in> set (en_records e)" for p
  proof -
    obtain i r where p: "p = (i, r)" by fastforce
    then have "find_record i e = Some r" using that mem by simp
    then show ?thesis using assms registry_okD(2) p by (auto simp: records_ok_def)
  qed
  have "map (snap_id \<circ> ?snap) (en_records e) = map fst (en_records e)" using id by (auto simp: comp_def)
  moreover have "mset (map snap_id (engine_snapshot e)) = mset (map (snap_id \<circ> ?snap) (en_records e))"
    by (simp add: engine_snapshot_def multiset.map_comp)
  ultimately have "distinct (map snap_id (engine_snapshot e))"
    using wf by (metis hm_wf_def mset_eq_imp_distinct_iff)
  moreover have "snap \<in> set (engine_snapshot e) \<longleftrightarrow> get_job (snap_id snap) e = Some snap" for snap
  proof
    assume "snap \<in> set (engine_snapshot e)"
    then obtain i r where "(i, r) \<in> set (en_records e)" "snap = ?snap (i, r)" by (auto simp: engine_snapshot_def)
    then show "get_job (snap_id snap) e = Some snap"
      using id [of "(i, r)"] mem [of i r] by (simp add: get_job_def)
  next
    assume "get_job (snap_id snap) e = Some snap"
    then show "snap \<in> set (engine_snapshot e)"
      using mem by (force simp: get_job_def engine_snapshot_def)
  qed
  ultimately show ?thesis by (simp add: engine_snapshot_def)
qed

theorem snapshot_lists_jobs_witness:
  "\<exists>e :: (unit, unit) engine. records_ok e \<and> get_job 1 e = Some (jr_snapshot run_ready) \<and>
     jr_snapshot run_ready \<in> set (engine_snapshot e) \<and> distinct (map snap_id (engine_snapshot e))"
proof -
  let ?e = "run_engine [run_entry] False [run_ready] 2 1 True"
  have "get_job 1 ?e = Some (jr_snapshot run_ready)" "snap_id (jr_snapshot run_ready) = 1"
    by (simp_all add: get_job_def run_engine_def find_record_def hm_find_def run_ready_def JobRecord_def submit_snapshot_def)
  then show ?thesis using snapshot_lists_jobs [OF run_records_ok(2)] run_records_ok(2) by metis
qed

end
