(* ===== verification/Kronos_Crc.thy ===== *)
theory Kronos_Crc
  imports Kronos_Text
begin

unbundle bit_operations_syntax

text \<open>
  The checksum of a write-ahead log record (\<open>crc32\<close> and \<open>checksum_text\<close> of \<open>src/wal.cpp\<close>).  The
  lemmas show that one step of the register is injective and linear, hence that two texts of the
  same length that differ only inside a window of four bytes have different checksums, and that
  the printed checksum determines the number.
\<close>

section \<open>Checksum\<close>

text \<open>The mask is \<open>-1\<close> when the lowest bit is set and \<open>0\<close> otherwise.\<close>

definition crc32_bit :: "u32 \<Rightarrow> u32" where
  "crc32_bit checksum =
     (let mask = - (checksum AND 1) in drop_bit 1 checksum XOR (0xEDB88320 AND mask))"

definition crc32_byte :: "u32 \<Rightarrow> char \<Rightarrow> u32" where
  "crc32_byte checksum byte = (crc32_bit ^^ 8) (checksum XOR of_char byte)"

definition crc32 :: "string \<Rightarrow> u32" where
  "crc32 s = foldl crc32_byte 0xFFFFFFFF s XOR 0xFFFFFFFF"

fun hex_number :: "nat \<Rightarrow> string" where
  "hex_number n =
     (if n < 16 then [hex_digits ! n] else hex_number (n div 16) @ [hex_digits ! (n mod 16)])"

declare hex_number.simps [simp del]

definition checksum_text :: "string \<Rightarrow> string" where
  "checksum_text s =
     (let text = hex_number (unat (crc32 s)) in replicate (8 - length text) CHR ''0'' @ text)"

section \<open>The checksum register\<close>

lemma crc32_bit_alt:
  "crc32_bit c = (if bit c 0 then drop_bit 1 c XOR 0xEDB88320 else drop_bit 1 c)"
proof -
  have "c AND 1 = (if bit c 0 then 1 else 0)" by (simp add: and_one_eq mod_2_eq_odd bit_0)
  then show ?thesis by (simp add: crc32_bit_def Let_def)
qed

lemma bit_u32_top: "n \<ge> 32 \<Longrightarrow> \<not> bit (c :: u32) n"
  using bit_imp_le_length [of c n] by auto

lemma crc32_bit_top: "bit (crc32_bit c) 31 \<longleftrightarrow> bit c 0"
proof -
  have "bit (0xEDB88320 :: u32) 31" by simp
  moreover have "\<not> bit (drop_bit 1 c) 31" by (simp add: bit_simps bit_u32_top)
  ultimately show ?thesis by (simp add: crc32_bit_alt bit_simps)
qed

lemma word_split_low: "(a :: u32) = b \<longleftrightarrow> take_bit k a = take_bit k b \<and> drop_bit k a = drop_bit k b"
  by (metis bits_ident)

lemma xor_cancel: "(a XOR b) = (c XOR b) \<longleftrightarrow> a = (c :: u32)"
  by (metis xor.assoc xor.right_neutral xor_self_eq)

lemma xor_cancel': "(b XOR a) = (b XOR c) \<longleftrightarrow> a = (c :: u32)"
  by (metis xor.commute xor_cancel)

lemma crc32_bit_inj: "inj crc32_bit"
proof (rule injI)
  fix a b assume eq: "crc32_bit a = crc32_bit b"
  then have low: "bit a 0 = bit b 0" using crc32_bit_top by metis
  then have "drop_bit 1 a = drop_bit 1 b"
    using eq by (auto simp: crc32_bit_alt xor_cancel split: if_splits)
  moreover have "take_bit 1 a = take_bit 1 b"
    using low by (simp add: take_bit_rec [of 1] bit_0 mod_2_eq_odd)
  ultimately show "a = b" using word_split_low [of a b 1] by simp
qed

lemma crc32_bits_inj: "inj (crc32_bit ^^ n)"
  by (rule inj_fn [OF crc32_bit_inj])

lemma crc32_bit_xor: "crc32_bit (a XOR b) = crc32_bit a XOR crc32_bit b"
  by (auto simp: crc32_bit_alt bit_simps ac_simps)

lemma crc32_bits_xor: "(crc32_bit ^^ n) (a XOR b) = (crc32_bit ^^ n) a XOR (crc32_bit ^^ n) b"
  by (induction n) (simp_all add: crc32_bit_xor)

lemma crc32_bit_shift: "\<not> bit a 31 \<Longrightarrow> crc32_bit (push_bit 1 a) = a"
proof -
  assume a: "\<not> bit a 31"
  have "drop_bit 1 (push_bit 1 a) = a"
  proof (rule bit_word_eqI)
    fix n assume "n < LENGTH(32)"
    then show "bit (drop_bit 1 (push_bit 1 a)) n = bit a n"
      using a by (cases "n = 31") (auto simp only: bit_drop_bit_eq o_apply bit_push_bit_iff bit_u32_top, auto simp: bit_u32_top)
  qed
  then show ?thesis by (simp add: crc32_bit_alt bit_0)
qed

lemma crc32_bits_shift:
  "n \<le> 32 \<Longrightarrow> (\<And>i. 32 - n \<le> i \<Longrightarrow> \<not> bit a i) \<Longrightarrow> (crc32_bit ^^ n) (push_bit n a) = a"
proof (induction n)
  case (Suc n)
  have "push_bit (Suc n) a = push_bit 1 (push_bit n a)" by simp
  moreover have "crc32_bit (push_bit 1 (push_bit n a)) = push_bit n a"
    using Suc.prems by (intro crc32_bit_shift) (auto simp: bit_simps)
  moreover have "(crc32_bit ^^ n) (push_bit n a) = a" using Suc by auto
  ultimately show ?case by (simp add: funpow_swap1 del: push_bit_Suc)
qed simp

lemma foldl_crc32_byte_inj: "foldl crc32_byte a s = foldl crc32_byte b s \<longleftrightarrow> a = b"
proof (induction s arbitrary: a b)
  case (Cons c s)
  have "crc32_byte a c = crc32_byte b c \<longleftrightarrow> a = b"
    using inj_eq [OF crc32_bits_inj] by (auto simp: crc32_byte_def xor_cancel)
  with Cons show ?case by simp
qed simp

text \<open>Up to four bytes enter the register as one little-endian word.\<close>

fun le_word :: "string \<Rightarrow> u32" where
  "le_word [] = 0"
| "le_word (c # s) = of_char c XOR push_bit 8 (le_word s)"

lemma bit_of_char_u32: "8 \<le> i \<Longrightarrow> \<not> bit (of_char c :: u32) i"
proof -
  have "take_bit 8 (of_char c :: nat) = of_char c"
    using of_char_less_256 [of c] by (simp add: take_bit_eq_mod)
  then have "take_bit 8 (of_char c :: u32) = of_char c"
    by (metis of_nat_of_char of_nat_take_bit take_bit_of_nat)
  then show "8 \<le> i \<Longrightarrow> \<not> bit (of_char c :: u32) i" by (metis bit_take_bit_iff not_le)
qed

lemma of_char_u32_inj: "(of_char c :: u32) = of_char d \<longleftrightarrow> c = d"
proof -
  have "unat (of_char e :: u32) = of_char e" for e
    using order_less_trans [OF of_char_less_256 [of e], of "2 ^ 32"]
    by (simp add: of_nat_of_char [symmetric, where ?'a = "32 word"] unat_of_nat del: of_nat_of_char)
  then show ?thesis by (metis of_char_eq_iff)
qed

lemma bit_le_word: "8 * length s \<le> i \<Longrightarrow> \<not> bit (le_word s) i"
  by (induction s arbitrary: i) (auto simp: bit_simps bit_of_char_u32)

lemma le_word_inj: "length s = length t \<Longrightarrow> length s \<le> 4 \<Longrightarrow> le_word s = le_word t \<Longrightarrow> s = t"
proof (induction s t rule: list_induct2)
  case (Cons c s d t)
  have low: "take_bit 8 (le_word (e # u)) = of_char e" for e u
    using bit_of_char_u32 [of _ e] by (intro bit_word_eqI) (auto simp: bit_simps not_le [symmetric])
  have high: "drop_bit 8 (le_word (e # u)) = le_word u" if "length u \<le> 3" for e u
  proof (rule bit_word_eqI)
    fix n assume "n < LENGTH(32)"
    then show "bit (drop_bit 8 (le_word (e # u))) n = bit (le_word u) n"
      using that bit_le_word [of u n] by (cases "n < 24") (auto simp: bit_simps bit_of_char_u32)
  qed
  have "(of_char c :: u32) = of_char d" using Cons.prems(2) low by metis
  moreover have "le_word s = le_word t"
  proof -
    have "length s \<le> 3" "length t \<le> 3" using Cons.prems(1) Cons.hyps by simp_all
    then show ?thesis using high Cons.prems(2) by metis
  qed
  ultimately show ?case using Cons.IH Cons.prems(1) of_char_u32_inj by simp
qed simp

lemma foldl_crc32_le_word:
  "length s \<le> 4 \<Longrightarrow> foldl crc32_byte a s = (crc32_bit ^^ (8 * length s)) (a XOR le_word s)"
proof (induction s arbitrary: a)
  case (Cons c s)
  have "(crc32_bit ^^ 8) (push_bit 8 (le_word s)) = le_word s"
    using Cons.prems by (intro crc32_bits_shift) (auto simp: bit_le_word)
  then have "crc32_byte a c XOR le_word s = (crc32_bit ^^ 8) (a XOR le_word (c # s))"
    by (simp add: crc32_byte_def crc32_bits_xor ac_simps)
  then show ?case using Cons by (simp add: funpow_add funpow_swap1 add.commute[of 8])
qed simp

lemma crc32_burst:
  assumes "length b = length b'" "length b \<le> 4" "b \<noteq> b'"
  shows "crc32 (p @ b @ q) \<noteq> crc32 (p @ b' @ q)"
proof -
  define r where "r = foldl crc32_byte 0xFFFFFFFF p"
  have "foldl crc32_byte r b \<noteq> foldl crc32_byte r b'"
    using assms le_word_inj [of b b'] inj_eq [OF crc32_bits_inj]
    by (auto simp: foldl_crc32_le_word xor_cancel')
  then show ?thesis by (simp add: crc32_def r_def foldl_crc32_byte_inj xor_cancel)
qed
section \<open>The printed checksum\<close>

definition hex_text_value :: "string \<Rightarrow> int" where
  "hex_text_value s = foldl (\<lambda>acc c. 16 * acc + hex_value c) 0 s"

lemma hex_text_value_append1: "hex_text_value (s @ [c]) = 16 * hex_text_value s + hex_value c"
  by (simp add: hex_text_value_def)

lemma hex_text_value_pad: "hex_text_value (replicate k CHR ''0'' @ s) = hex_text_value s"
proof -
  have "hex_value CHR ''0'' = 0" by (simp add: hex_value_def)
  then have "foldl (\<lambda>acc c. 16 * acc + hex_value c) 0 (replicate k CHR ''0'') = 0"
    by (induction k) simp_all
  then show ?thesis by (simp add: hex_text_value_def)
qed

lemma hex_text_value_number: "hex_text_value (hex_number n) = int n"
proof (induction n rule: hex_number.induct)
  case (1 n)
  show ?case
  proof (cases "n < 16")
    case True
    then show ?thesis
      by (simp add: hex_number.simps [of n] hex_text_value_def hex_value_digit)
  next
    case False
    have "int n = 16 * int (n div 16) + int (n mod 16)" by presburger
    with False show ?thesis
      using 1 by (simp add: hex_number.simps [of n] hex_text_value_append1 hex_value_digit)
  qed
qed

lemma checksum_text_inj: "checksum_text s = checksum_text t \<longleftrightarrow> crc32 s = crc32 t"
proof
  assume "checksum_text s = checksum_text t"
  then have "hex_text_value (checksum_text s) = hex_text_value (checksum_text t)" by simp
  then show "crc32 s = crc32 t"
    by (simp add: checksum_text_def Let_def hex_text_value_pad hex_text_value_number word_uint_eq_iff)
qed (simp add: checksum_text_def)

lemma set_hex_number: "set (hex_number n) \<subseteq> set hex_digits"
proof (induction n rule: hex_number.induct)
  case (1 n)
  then show ?case
    by (cases "n < 16") (auto simp: hex_number.simps [of n] intro: set_hex_digits)
qed

lemma checksum_text_plain: "set (checksum_text s) \<inter> separators = {}"
proof -
  have "set (checksum_text s) \<subseteq> set hex_digits"
    using set_hex_number [of "unat (crc32 s)"]
    by (auto simp: checksum_text_def Let_def hex_digits_def)
  then show ?thesis by (auto simp: hex_digits_def separators_def)
qed

lemma checksum_text_no_sep [simp]: "CHR ''|'' \<notin> set (checksum_text s)" "CHR 0x0A \<notin> set (checksum_text s)"
  using checksum_text_plain [of s] by (auto simp: separators_def)

lemma length_hex_number: "0 < k \<Longrightarrow> n < 16 ^ k \<Longrightarrow> length (hex_number n) \<le> k"
proof (induction k arbitrary: n)
  case (Suc k)
  show ?case
  proof (cases "n < 16")
    case False
    then have "0 < k" using Suc.prems by (cases k) auto
    moreover have "n div 16 < 16 ^ k" using Suc.prems by (simp add: div_less_iff_less_mult mult.commute)
    ultimately show ?thesis using Suc.IH [of "n div 16"] False by (simp add: hex_number.simps [of n])
  qed (simp add: hex_number.simps [of n])
qed simp

lemma length_checksum_text: "length (checksum_text s) = 8"
proof -
  have "unat (crc32 s) < 16 ^ 8" using unsigned_less [of "crc32 s", where ?'a = nat] by simp
  then have "length (hex_number (unat (crc32 s))) \<le> 8" by (intro length_hex_number) auto
  then show ?thesis by (simp add: checksum_text_def Let_def)
qed

lemma checksum_detects_burst:
  assumes "length b = length b'" "length b \<le> 4" "b \<noteq> b'"
  shows "checksum_text (p @ b @ q) \<noteq> checksum_text (p @ b' @ q)"
  using crc32_burst [OF assms] by (simp add: checksum_text_inj)

end
