(* ===== verification/Kronos_Wal.thy ===== *)
theory Kronos_Wal
  imports Kronos_Crc
begin

unbundle bit_operations_syntax

text \<open>
  The write-ahead log of \<open>src/wal.cpp\<close>: the record format, \<open>append\<close> over a
  POSIX descriptor and \<open>recover\<close>.

  The log file is its contents, a \<open>string\<close>.  The operating system is an argument of the operations:
  a list of results of successive \<open>::write\<close> calls (bytes written, interrupted, or an error with
  its message), and the results of \<open>::fsync\<close> and \<open>::ftruncate\<close> (\<open>None\<close> for success).  The clock
  reading is an argument too.  An append whose list of results is used up has not returned yet
  (\<open>AppendPending\<close>): the file holds what was written so far, which is what a crash leaves behind.
\<close>

section \<open>Fields\<close>

definition wal_hex_encode :: "string \<Rightarrow> string" where
  "wal_hex_encode s = hex_encode s"

definition wal_hex_decode :: "string \<Rightarrow> string result" where
  "wal_hex_decode s =
     hex_decode (runtime_error ''WAL contains an invalid hex field'')
       (runtime_error ''WAL contains an invalid hex field'') s"

definition wal_split :: "string \<Rightarrow> string list" where
  "wal_split line = split_on CHR ''|'' line"

definition wal_parse_u64 :: "string \<Rightarrow> string \<Rightarrow> u64 result" where
  "wal_parse_u64 s field_name =
     (case parse_u64 s of
        None \<Rightarrow> Inl (runtime_error (''WAL contains an invalid '' @ field_name))
      | Some v \<Rightarrow> Inr v)"

definition wal_parse_int :: "(int \<Rightarrow> bool) \<Rightarrow> string \<Rightarrow> string \<Rightarrow> int result" where
  "wal_parse_int fits s field_name =
     (case parse_int fits s of
        None \<Rightarrow> Inl (runtime_error (''WAL contains an invalid '' @ field_name))
      | Some v \<Rightarrow> Inr v)"

definition parse_state :: "string \<Rightarrow> job_state result" where
  "parse_state state =
     (if state = ''NEW'' then Inr New
      else if state = ''READY'' then Inr Ready
      else if state = ''RUNNING'' then Inr Running
      else if state = ''COMPLETED'' then Inr Completed
      else if state = ''FAILED'' then Inr Failed
      else if state = ''CANCELLED'' then Inr Cancelled
      else Inl (runtime_error ''WAL contains an unknown job state''))"

text \<open>The text before the last separator, if there is one (\<open>rfind\<close> and \<open>substr\<close>).\<close>

definition before_last :: "char \<Rightarrow> string \<Rightarrow> string option" where
  "before_last sep s =
     (if sep \<in> set s then Some (rev (tl (dropWhile (\<lambda>c. c \<noteq> sep) (rev s)))) else None)"

definition validate_checksum :: "string \<Rightarrow> string list \<Rightarrow> unit result" where
  "validate_checksum line flds =
     (if flds = [] then Inl (runtime_error ''WAL record has no fields'')
      else case before_last CHR ''|'' line of
             None \<Rightarrow> Inl (runtime_error ''WAL checksum mismatch'')
           | Some prefix \<Rightarrow>
               if checksum_text prefix \<noteq> last flds then Inl (runtime_error ''WAL checksum mismatch'')
               else Inr ())"

definition with_checksum :: "string \<Rightarrow> string" where
  "with_checksum prefix = prefix @ ''|'' @ checksum_text prefix @ [CHR 0x0A]"

section \<open>Opening\<close>

text \<open>
  The constructor creates the parent directories and opens the file for appending.  The file
  system is given by the error of each call, if any, and the contents the file had.
\<close>

definition wal_open :: "string \<Rightarrow> exn option \<Rightarrow> string option \<Rightarrow> string option \<Rightarrow> string result" where
  "wal_open path create_directories_error open_error existing =
     (if path = [] then Inl (invalid_argument ''WAL path cannot be empty'')
      else case (if CHR ''/'' \<in> set path then create_directories_error else None) of
        Some e \<Rightarrow> Inl e
      | None \<Rightarrow>
          (case open_error of
             Some m \<Rightarrow> Inl (system_error ''failed to open WAL'' m)
           | None \<Rightarrow> Inr (case existing of Some contents \<Rightarrow> contents | None \<Rightarrow> [])))"

section \<open>Appending\<close>

datatype write_result = Wrote nat | Interrupted | WriteError string

datatype append_outcome = Appended | AppendFailed exn | AppendPending

fun write_loop :: "write_result list \<Rightarrow> string \<Rightarrow> string \<Rightarrow> string \<times> append_outcome" where
  "write_loop os [] file = (file, Appended)"
| "write_loop [] (c # cs) file = (file, AppendPending)"
| "write_loop (Interrupted # os) (c # cs) file = write_loop os (c # cs) file"
| "write_loop (WriteError m # os) (c # cs) file =
     (file, AppendFailed (system_error ''failed to append WAL record'' m))"
| "write_loop (Wrote n # os) (c # cs) file =
     write_loop os (drop n (c # cs)) (file @ take n (c # cs))"

definition wal_append :: "write_result list \<Rightarrow> string option \<Rightarrow> string \<Rightarrow> string \<Rightarrow> string \<times> append_outcome" where
  "wal_append os fsync_error rec file =
     (case write_loop os rec file of
        (file', Appended) \<Rightarrow>
          (case fsync_error of
             None \<Rightarrow> (file', Appended)
           | Some m \<Rightarrow> (file', AppendFailed (system_error ''failed to fsync WAL'' m)))
      | (file', outcome) \<Rightarrow> (file', outcome))"

definition submission_prefix :: "int \<Rightarrow> job_submission_record \<Rightarrow> string" where
  "submission_prefix now rec =
     ''K1|S|'' @ int_to_string now @ ''|'' @ u64_to_string (sub_id rec) @ ''|'' @
     u64_to_string (sub_submission_sequence rec) @ ''|'' @ int_to_string (sub_priority rec) @ ''|'' @
     u64_to_string (sub_estimated_work_units rec) @ ''|'' @ wal_hex_encode (sub_name rec) @ ''|'' @
     wal_hex_encode (spec_type (sub_task rec)) @ ''|'' @ wal_hex_encode (spec_payload (sub_task rec))"

definition transition_prefix :: "int \<Rightarrow> job_transition_record \<Rightarrow> string" where
  "transition_prefix now rec =
     ''K1|T|'' @ int_to_string now @ ''|'' @ u64_to_string (tr_id rec) @ ''|'' @
     job_state_to_string (tr_state rec) @ ''|'' @ u64_to_string (tr_work_units_consumed rec) @ ''|'' @
     wal_hex_encode (tr_message rec)"

definition wal_append_submission :: "write_result list \<Rightarrow> string option \<Rightarrow> int \<Rightarrow>
    job_submission_record \<Rightarrow> string \<Rightarrow> string \<times> append_outcome" where
  "wal_append_submission os fsync_error now rec file =
     (if sub_id rec = 0 \<or> sub_estimated_work_units rec = 0 \<or> spec_type (sub_task rec) = []
      then (file, AppendFailed (invalid_argument ''invalid durable submission record''))
      else wal_append os fsync_error (with_checksum (submission_prefix now rec)) file)"

definition wal_append_transition :: "write_result list \<Rightarrow> string option \<Rightarrow> int \<Rightarrow>
    job_transition_record \<Rightarrow> string \<Rightarrow> string \<times> append_outcome" where
  "wal_append_transition os fsync_error now rec file =
     (if tr_id rec = 0
      then (file, AppendFailed (invalid_argument ''invalid durable transition record''))
      else wal_append os fsync_error (with_checksum (transition_prefix now rec)) file)"

section \<open>Recovery\<close>

record recovered_job =
  rj_submission :: job_submission_record
  rj_state :: job_state
  rj_work_units_consumed :: work_units
  rj_message :: string

record recovery_report =
  rep_jobs :: "recovered_job list"
  rep_ignored_incomplete_tail :: bool

type_synonym recovered_map = "(job_id, recovered_job) hash_map"

definition recover_submission :: "string list \<Rightarrow> recovered_map \<Rightarrow> recovered_map result" where
  "recover_submission flds recovered =
     (if length flds \<noteq> 11 then Inl (runtime_error ''invalid submission record field count'')
      else case wal_parse_int int64_range (flds ! 2) ''timestamp'' of Inl e \<Rightarrow> Inl e | Inr _ \<Rightarrow>
      (case wal_parse_u64 (flds ! 3) ''job ID'' of Inl e \<Rightarrow> Inl e | Inr jid \<Rightarrow>
      (case wal_parse_u64 (flds ! 4) ''submission sequence'' of Inl e \<Rightarrow> Inl e | Inr sequence \<Rightarrow>
      (case wal_parse_int int32_range (flds ! 5) ''priority'' of Inl e \<Rightarrow> Inl e | Inr priority \<Rightarrow>
      (case wal_parse_u64 (flds ! 6) ''work estimate'' of Inl e \<Rightarrow> Inl e | Inr estimate \<Rightarrow>
      (case wal_hex_decode (flds ! 7) of Inl e \<Rightarrow> Inl e | Inr name \<Rightarrow>
      (case wal_hex_decode (flds ! 8) of Inl e \<Rightarrow> Inl e | Inr type \<Rightarrow>
      (case wal_hex_decode (flds ! 9) of Inl e \<Rightarrow> Inl e | Inr payload \<Rightarrow>
        let submission = \<lparr>sub_id = jid, sub_submission_sequence = sequence, sub_name = name,
              sub_priority = priority, sub_estimated_work_units = estimate,
              sub_task = \<lparr>spec_type = type, spec_payload = payload\<rparr>\<rparr> in
        if jid = 0 \<or> estimate = 0 \<or> type = []
        then Inl (runtime_error ''invalid submission record values'')
        else case hm_emplace jid
                    \<lparr>rj_submission = submission, rj_state = Ready, rj_work_units_consumed = 0,
                     rj_message = []\<rparr> recovered of
               (recovered', inserted) \<Rightarrow>
                 if \<not> inserted then Inl (runtime_error ''duplicate job submission'')
                 else Inr recovered'))))))))"

definition recover_transition :: "string list \<Rightarrow> recovered_map \<Rightarrow> recovered_map result" where
  "recover_transition flds recovered =
     (if length flds \<noteq> 8 then Inl (runtime_error ''invalid transition record field count'')
      else case wal_parse_int int64_range (flds ! 2) ''timestamp'' of Inl e \<Rightarrow> Inl e | Inr _ \<Rightarrow>
      (case wal_parse_u64 (flds ! 3) ''job ID'' of Inl e \<Rightarrow> Inl e | Inr jid \<Rightarrow>
      (case hm_find recovered jid of
         None \<Rightarrow> Inl (runtime_error ''transition precedes submission'')
       | Some _ \<Rightarrow>
      (case parse_state (flds ! 4) of Inl e \<Rightarrow> Inl e | Inr state \<Rightarrow>
      (case wal_parse_u64 (flds ! 5) ''consumed work'' of Inl e \<Rightarrow> Inl e | Inr consumed \<Rightarrow>
      (case wal_hex_decode (flds ! 6) of Inl e \<Rightarrow> Inl e | Inr message \<Rightarrow>
        Inr (hm_modify jid
               (\<lambda>job. job\<lparr>rj_state := state, rj_work_units_consumed := consumed, rj_message := message\<rparr>)
               recovered)))))))"

definition recover_line :: "string \<Rightarrow> recovered_map \<Rightarrow> recovered_map result" where
  "recover_line line recovered =
     (let flds = wal_split line in
      case validate_checksum line flds of Inl e \<Rightarrow> Inl e | Inr _ \<Rightarrow>
      if length flds < 2 \<or> flds ! 0 \<noteq> ''K1'' then Inl (runtime_error ''unsupported WAL record version'')
      else if flds ! 1 = ''S'' then recover_submission flds recovered
      else if flds ! 1 = ''T'' then recover_transition flds recovered
      else Inl (runtime_error ''unknown WAL record type''))"

function recover_lines :: "nat \<Rightarrow> string \<Rightarrow> recovered_map \<Rightarrow> recovered_map result" where
  "recover_lines line_number contents recovered =
     (if contents = [] then Inr recovered
      else let line = takeWhile (\<lambda>c. c \<noteq> CHR 0x0A) contents;
               rest = tl (dropWhile (\<lambda>c. c \<noteq> CHR 0x0A) contents);
               n = line_number + 1 in
        if line = [] then Inl (runtime_error (''empty WAL record at line '' @ nat_to_string n))
        else case recover_line line recovered of
               Inl e \<Rightarrow> Inl (runtime_error (''invalid WAL record at line '' @ nat_to_string n @ '': '' @ what e))
             | Inr recovered' \<Rightarrow> recover_lines n rest recovered')"
  by pat_completeness auto
termination
proof (relation "measure (\<lambda>(n, contents, r). length contents)", goal_cases)
  case (2 n contents r)
  have "length (dropWhile (\<lambda>c. c \<noteq> CHR 0x0A) contents) \<le> length contents" by (rule length_dropWhile_le)
  with 2 show ?case by (cases contents) auto
qed simp

declare recover_lines.simps [simp del]

definition sorted_jobs :: "recovered_map \<Rightarrow> recovered_job list" where
  "sorted_jobs recovered = sort_key (\<lambda>job. sub_submission_sequence (rj_submission job)) (map snd recovered)"

text \<open>
  The repair of an incomplete tail: the contents up to and including the last newline.
\<close>

definition complete_part :: "string \<Rightarrow> string" where
  "complete_part contents = rev (dropWhile (\<lambda>c. c \<noteq> CHR 0x0A) (rev contents))"

text \<open>
  \<open>recover\<close> returns the new contents of the file with the report or exception: the tail repair
  truncates the file.
\<close>

definition wal_recover :: "string \<Rightarrow> bool \<Rightarrow> string option \<Rightarrow> string option \<Rightarrow> string \<Rightarrow>
    string \<times> recovery_report result" where
  "wal_recover path readable ftruncate_error fsync_error contents =
     (if \<not> readable then (contents, Inl (runtime_error (''failed to read WAL: '' @ path)))
      else
        let torn = (contents \<noteq> [] \<and> last contents \<noteq> CHR 0x0A);
            valid = (if torn then complete_part contents else contents);
            report = (\<lambda>file. (file,
              case recover_lines 0 valid [] of
                Inl e \<Rightarrow> Inl e
              | Inr recovered \<Rightarrow>
                  Inr \<lparr>rep_jobs = sorted_jobs recovered, rep_ignored_incomplete_tail = torn\<rparr>)) in
        if torn then
          (case ftruncate_error of
             Some m \<Rightarrow> (contents, Inl (system_error ''failed to repair incomplete WAL tail'' m))
           | None \<Rightarrow>
              (case fsync_error of
                 Some m \<Rightarrow> (valid, Inl (system_error ''failed to repair incomplete WAL tail'' m))
               | None \<Rightarrow> report valid))
        else report contents)"

section \<open>The checksum of a line\<close>

lemma before_last_append: "sep \<notin> set t \<Longrightarrow> before_last sep (s @ sep # t) = Some s"
proof -
  assume t: "sep \<notin> set t"
  have "dropWhile (\<lambda>c. c \<noteq> sep) (rev t @ sep # rev s) = sep # rev s"
    using t by (subst dropWhile_append2) auto
  then show ?thesis by (simp add: before_last_def)
qed

lemma last_split_on: "sep \<notin> set t \<Longrightarrow> last (split_on sep (s @ sep # t)) = t"
proof (induction "split_on sep s" arbitrary: s)
  case (Cons f fs)
  show ?case
  proof (cases "sep \<in> set s")
    case True
    then obtain u v where s: "s = u @ sep # v" "sep \<notin> set u" by (metis split_list_first)
    then have "split_on sep v = fs" using Cons.hyps(2) by (simp add: split_on_append)
    then have "last (split_on sep (v @ sep # t)) = t" using Cons by blast
    then show ?thesis using s by (simp add: split_on_append)
  next
    case False
    then show ?thesis using Cons.prems by (simp add: split_on_append split_on_no_sep)
  qed
qed (metis split_on_nonempty)

lemma validate_checksum_line:
  "CHR ''|'' \<notin> set t \<Longrightarrow>
     validate_checksum (s @ CHR ''|'' # t) (wal_split (s @ CHR ''|'' # t)) =
       (if checksum_text s = t then Inr () else Inl (runtime_error ''WAL checksum mismatch''))"
  by (simp add: validate_checksum_def wal_split_def before_last_append last_split_on)

section \<open>Records\<close>

text \<open>
  The abstract view of the log: a list of records, each with its time stamp.  \<open>record_text\<close> is what
  \<open>append_submission\<close> and \<open>append_transition\<close> hand to \<open>append\<close>.
\<close>

datatype wal_record =
    SubmissionRecord int job_submission_record
  | TransitionRecord int job_transition_record

fun record_prefix :: "wal_record \<Rightarrow> string" where
  "record_prefix (SubmissionRecord now rec) = submission_prefix now rec"
| "record_prefix (TransitionRecord now rec) = transition_prefix now rec"

abbreviation record_text :: "wal_record \<Rightarrow> string" where
  "record_text r \<equiv> with_checksum (record_prefix r)"

abbreviation log_text :: "wal_record list \<Rightarrow> string" where
  "log_text rs \<equiv> concat (map (\<lambda>r. record_text r) rs)"

fun record_ok :: "wal_record \<Rightarrow> bool" where
  "record_ok (SubmissionRecord now rec) \<longleftrightarrow>
     int64_range now \<and> int32_range (sub_priority rec) \<and> sub_id rec \<noteq> 0 \<and>
     sub_estimated_work_units rec \<noteq> 0 \<and> spec_type (sub_task rec) \<noteq> []"
| "record_ok (TransitionRecord now rec) \<longleftrightarrow> int64_range now \<and> tr_id rec \<noteq> 0"

fun record_fields :: "wal_record \<Rightarrow> string list" where
  "record_fields (SubmissionRecord now rec) =
     [''K1'', ''S'', int_to_string now, u64_to_string (sub_id rec),
      u64_to_string (sub_submission_sequence rec), int_to_string (sub_priority rec),
      u64_to_string (sub_estimated_work_units rec), hex_encode (sub_name rec),
      hex_encode (spec_type (sub_task rec)), hex_encode (spec_payload (sub_task rec))]"
| "record_fields (TransitionRecord now rec) =
     [''K1'', ''T'', int_to_string now, u64_to_string (tr_id rec), job_state_to_string (tr_state rec),
      u64_to_string (tr_work_units_consumed rec), hex_encode (tr_message rec)]"

lemma job_state_text_plain: "set (job_state_to_string s) \<inter> separators = {}"
  by (cases s) (simp_all add: separators_def)

lemma record_prefix_join: "record_prefix r = join_with CHR ''|'' (record_fields r)"
  by (cases r) (simp_all add: submission_prefix_def transition_prefix_def wal_hex_encode_def)

lemma record_fields_plain: "f \<in> set (record_fields r) \<Longrightarrow> set f \<inter> separators = {}"
proof -
  have tags: "set ''K1'' \<inter> separators = {}" "set ''S'' \<inter> separators = {}" "set ''T'' \<inter> separators = {}"
    by (simp_all add: separators_def)
  have "list_all (\<lambda>f. set f \<inter> separators = {}) (record_fields r)"
    by (cases r) (simp_all add: tags u64_field.enc_plain i64_field.enc_plain hex_field.enc_plain
        job_state_text_plain del: list.set)
  then show "f \<in> set (record_fields r) \<Longrightarrow> set f \<inter> separators = {}" by (simp add: list_all_iff)
qed

lemma record_fields_nonempty [simp]: "record_fields r \<noteq> []"
  by (cases r) simp_all

lemma record_prefix_no_newline: "CHR 0x0A \<notin> set (record_prefix r)"
  using set_join_with [of "CHR ''|''" "record_fields r"] record_fields_plain [of _ r]
  unfolding record_prefix_join by (fastforce simp: separators_def)

lemma wal_split_record:
  "wal_split (record_prefix r @ CHR ''|'' # checksum_text (record_prefix r)) =
     record_fields r @ [checksum_text (record_prefix r)]"
proof -
  have "split_on CHR ''|'' (join_with CHR ''|'' (record_fields r @ [t])) = record_fields r @ [t]"
    if "CHR ''|'' \<notin> set t" for t
    using that record_fields_plain [of _ r]
    by (intro split_join) (auto simp: separators_def)
  then show ?thesis by (simp add: wal_split_def join_with_append record_prefix_join)
qed

lemma parse_state_to_string [text_simps]: "parse_state (job_state_to_string s) = Inr s"
  by (cases s) (simp_all add: parse_state_def)

lemma wal_parse_u64_to_string [text_simps]: "wal_parse_u64 (u64_to_string w) f = Inr w"
  by (simp add: wal_parse_u64_def text_simps)

lemma wal_parse_int_to_string [text_simps]: "fits i \<Longrightarrow> wal_parse_int fits (int_to_string i) f = Inr i"
  by (simp add: wal_parse_int_def text_simps)

lemma wal_hex_decode_encode [text_simps]: "wal_hex_decode (hex_encode s) = Inr s"
  by (simp add: wal_hex_decode_def text_simps)

section \<open>The log as a sequence of records\<close>

definition fresh_job :: "job_submission_record \<Rightarrow> recovered_job" where
  "fresh_job rec =
     \<lparr>rj_submission = rec, rj_state = Ready, rj_work_units_consumed = 0, rj_message = []\<rparr>"

definition moved_job :: "job_transition_record \<Rightarrow> recovered_job \<Rightarrow> recovered_job" where
  "moved_job rec job =
     job\<lparr>rj_state := tr_state rec, rj_work_units_consumed := tr_work_units_consumed rec,
         rj_message := tr_message rec\<rparr>"

fun apply_record :: "wal_record \<Rightarrow> recovered_map \<Rightarrow> recovered_map result" where
  "apply_record (SubmissionRecord now rec) m =
     (if hm_find m (sub_id rec) = None then Inr (m @ [(sub_id rec, fresh_job rec)])
      else Inl (runtime_error ''duplicate job submission''))"
| "apply_record (TransitionRecord now rec) m =
     (if hm_find m (tr_id rec) = None then Inl (runtime_error ''transition precedes submission'')
      else Inr (hm_modify (tr_id rec) (moved_job rec) m))"

lemma recover_line_record:
  assumes "record_ok r"
  shows "recover_line (record_prefix r @ CHR ''|'' # checksum_text (record_prefix r)) m = apply_record r m"
proof -
  define flds where "flds = record_fields r @ [checksum_text (record_prefix r)]"
  have "recover_line (record_prefix r @ CHR ''|'' # checksum_text (record_prefix r)) m =
      (if flds ! 1 = ''S'' then recover_submission flds m
       else if flds ! 1 = ''T'' then recover_transition flds m
       else Inl (runtime_error ''unknown WAL record type''))"
    using validate_checksum_line [of "checksum_text (record_prefix r)" "record_prefix r"]
    by (cases r) (simp_all add: recover_line_def Let_def wal_split_record flds_def del: record_prefix.simps)
  also have "\<dots> = apply_record r m"
    using assms
    by (cases r) (auto simp: flds_def recover_submission_def recover_transition_def text_simps
        hm_emplace_def fresh_job_def moved_job_def [abs_def] Let_def split: option.split)
  finally show ?thesis .
qed

fun replay :: "nat \<Rightarrow> wal_record list \<Rightarrow> recovered_map \<Rightarrow> recovered_map result" where
  "replay n [] m = Inr m"
| "replay n (r # rs) m =
     (case apply_record r m of
        Inl e \<Rightarrow> Inl (runtime_error (''invalid WAL record at line '' @ nat_to_string (Suc n) @ '': '' @ what e))
      | Inr m' \<Rightarrow> replay (Suc n) rs m')"

lemma record_text_eq: "with_checksum p = (p @ CHR ''|'' # checksum_text p) @ [CHR 0x0A]"
  by (simp add: with_checksum_def)

lemma recover_lines_line:
  assumes "CHR 0x0A \<notin> set line" "line \<noteq> []"
  shows "recover_lines n (line @ CHR 0x0A # rest) m =
     (case recover_line line m of
        Inl e \<Rightarrow> Inl (runtime_error (''invalid WAL record at line '' @ nat_to_string (Suc n) @ '': '' @ what e))
      | Inr m' \<Rightarrow> recover_lines (Suc n) rest m')"
proof -
  have "takeWhile (\<lambda>c. c \<noteq> CHR 0x0A) (line @ CHR 0x0A # rest) = line"
    "dropWhile (\<lambda>c. c \<noteq> CHR 0x0A) (line @ CHR 0x0A # rest) = CHR 0x0A # rest"
    using assms(1) by (induction line) auto
  then show ?thesis using assms(2) by (subst recover_lines.simps) (simp add: Let_def)
qed

lemma recover_lines_replay:
  assumes "\<forall>r \<in> set rs. record_ok r"
  shows "recover_lines n (log_text rs @ rest) m =
     (case replay n rs m of Inl e \<Rightarrow> Inl e | Inr m' \<Rightarrow> recover_lines (n + length rs) rest m')"
  using assms
proof (induction rs arbitrary: n m)
  case (Cons r rs)
  let ?line = "record_prefix r @ CHR ''|'' # checksum_text (record_prefix r)"
  have "log_text (r # rs) @ rest = ?line @ CHR 0x0A # (log_text rs @ rest)"
    by (simp add: record_text_eq)
  moreover have "CHR 0x0A \<notin> set ?line" "?line \<noteq> []"
    using record_prefix_no_newline [of r] by simp_all
  ultimately have "recover_lines n (log_text (r # rs) @ rest) m =
      (case apply_record r m of
        Inl e \<Rightarrow> Inl (runtime_error (''invalid WAL record at line '' @ nat_to_string (Suc n) @ '': '' @ what e))
      | Inr m' \<Rightarrow> recover_lines (Suc n) (log_text rs @ rest) m')"
    using Cons.prems recover_lines_line [of ?line n "log_text rs @ rest" m] recover_line_record [of r m]
    by simp
  then show ?case using Cons by (auto split: sum.split)
qed simp

lemma recover_lines_Nil [simp]: "recover_lines n [] m = Inr m"
  by (subst recover_lines.simps) simp

lemma complete_part_eq:
  "CHR 0x0A \<notin> set t \<Longrightarrow> s = [] \<or> last s = CHR 0x0A \<Longrightarrow> complete_part (s @ t) = s"
proof -
  assume t: "CHR 0x0A \<notin> set t" and s: "s = [] \<or> last s = CHR 0x0A"
  have "dropWhile (\<lambda>c. c \<noteq> CHR 0x0A) (rev t @ rev s) = rev s"
    using t s by (subst dropWhile_append2) (auto simp: dropWhile_eq_self_iff hd_rev)
  then show ?thesis by (simp add: complete_part_def)
qed

lemma last_log_text: "log_text rs = [] \<or> last (log_text rs) = CHR 0x0A"
  by (induction rs rule: rev_induct) (simp_all add: record_text_eq)

lemma wal_recover_torn:
  assumes "s = [] \<or> last s = CHR 0x0A" "CHR 0x0A \<notin> set torn"
  shows "wal_recover path True None None (s @ torn) =
    (s, case recover_lines 0 s [] of
          Inl e \<Rightarrow> Inl e
        | Inr m \<Rightarrow> Inr \<lparr>rep_jobs = sorted_jobs m, rep_ignored_incomplete_tail = (torn \<noteq> [])\<rparr>)"
proof (cases "torn = []")
  case False
  then have "s @ torn \<noteq> []" "last (s @ torn) \<noteq> CHR 0x0A"
    using assms(2) by (auto dest: last_in_set)
  then show ?thesis
    using False complete_part_eq [OF assms(2,1)]
    by (simp add: wal_recover_def Let_def split: sum.split)
qed (use assms in \<open>auto simp: wal_recover_def Let_def split: sum.split\<close>)

lemma wal_recover_replay:
  assumes "\<forall>r \<in> set rs. record_ok r" "CHR 0x0A \<notin> set torn"
  shows "wal_recover path True None None (log_text rs @ torn) =
    (log_text rs,
     case replay 0 rs [] of
       Inl e \<Rightarrow> Inl e
     | Inr m \<Rightarrow> Inr \<lparr>rep_jobs = sorted_jobs m, rep_ignored_incomplete_tail = (torn \<noteq> [])\<rparr>)"
proof -
  have "recover_lines 0 (log_text rs) [] = replay 0 rs []"
    using recover_lines_replay [OF assms(1), of 0 "[]" "[]"] by (simp split: sum.splits)
  then show ?thesis using wal_recover_torn [OF last_log_text [of rs] assms(2)] by simp
qed

section \<open>What a log says about a job\<close>

fun submissions :: "wal_record list \<Rightarrow> job_submission_record list" where
  "submissions [] = []"
| "submissions (SubmissionRecord now rec # rs) = rec # submissions rs"
| "submissions (TransitionRecord now rec # rs) = submissions rs"

fun transitions :: "wal_record list \<Rightarrow> job_transition_record list" where
  "transitions [] = []"
| "transitions (SubmissionRecord now rec # rs) = transitions rs"
| "transitions (TransitionRecord now rec # rs) = rec # transitions rs"

text \<open>Every job is submitted once, and before its transitions.\<close>

fun log_wf :: "job_id set \<Rightarrow> wal_record list \<Rightarrow> bool" where
  "log_wf known [] \<longleftrightarrow> True"
| "log_wf known (SubmissionRecord now rec # rs) \<longleftrightarrow>
     sub_id rec \<notin> known \<and> log_wf (insert (sub_id rec) known) rs"
| "log_wf known (TransitionRecord now rec # rs) \<longleftrightarrow> tr_id rec \<in> known \<and> log_wf known rs"

definition last_transition :: "wal_record list \<Rightarrow> job_id \<Rightarrow> job_transition_record option" where
  "last_transition rs jid = find (\<lambda>t. tr_id t = jid) (rev (transitions rs))"

definition job_of_log :: "wal_record list \<Rightarrow> job_submission_record \<Rightarrow> recovered_job" where
  "job_of_log rs rec =
     (case last_transition rs (sub_id rec) of
        None \<Rightarrow> fresh_job rec
      | Some t \<Rightarrow> \<lparr>rj_submission = rec, rj_state = tr_state t,
                   rj_work_units_consumed = tr_work_units_consumed t, rj_message = tr_message t\<rparr>)"

definition jobs_of_log :: "wal_record list \<Rightarrow> recovered_map" where
  "jobs_of_log rs = map (\<lambda>rec. (sub_id rec, job_of_log rs rec)) (submissions rs)"

abbreviation log_ids :: "wal_record list \<Rightarrow> job_id set" where
  "log_ids rs \<equiv> set (map sub_id (submissions rs))"

lemma submissions_append: "submissions (rs @ ts) = submissions rs @ submissions ts"
  by (induction rs rule: submissions.induct) simp_all

lemma transitions_append: "transitions (rs @ ts) = transitions rs @ transitions ts"
  by (induction rs rule: transitions.induct) simp_all

lemma hm_find_jobs_of_log: "hm_find (jobs_of_log rs) k = None \<longleftrightarrow> k \<notin> log_ids rs"
  by (force simp: hm_find_None_iff jobs_of_log_def)

lemma job_of_log_transition:
  "job_of_log (rs @ [TransitionRecord now t]) rec =
     (if tr_id t = sub_id rec then moved_job t (job_of_log rs rec) else job_of_log rs rec)"
  by (simp add: job_of_log_def last_transition_def transitions_append moved_job_def fresh_job_def
      split: option.split)

lemma jobs_of_log_transition:
  "jobs_of_log (rs @ [TransitionRecord now t]) = hm_modify (tr_id t) (moved_job t) (jobs_of_log rs)"
  by (simp add: jobs_of_log_def hm_modify_def submissions_append job_of_log_transition)

lemma jobs_of_log_submission:
  assumes "tr_id ` set (transitions rs) \<subseteq> log_ids rs" "sub_id rec \<notin> log_ids rs"
  shows "jobs_of_log (rs @ [SubmissionRecord now rec]) = jobs_of_log rs @ [(sub_id rec, fresh_job rec)]"
proof -
  have "last_transition rs (sub_id rec) = None"
    using assms by (simp add: last_transition_def find_None_iff) (metis image_eqI subsetD)
  then show ?thesis
    by (simp add: jobs_of_log_def submissions_append job_of_log_def last_transition_def transitions_append)
qed

lemma replay_jobs_of_log:
  assumes "tr_id ` set (transitions pre) \<subseteq> log_ids pre" "log_wf (log_ids pre) rs"
  shows "replay n rs (jobs_of_log pre) = Inr (jobs_of_log (pre @ rs))"
  using assms
proof (induction rs arbitrary: n pre)
  case (Cons r rs)
  show ?case
  proof (cases r)
    case (SubmissionRecord now rec)
    then show ?thesis
      using Cons.prems Cons.IH [of "pre @ [r]"]
      by (simp add: hm_find_jobs_of_log jobs_of_log_submission submissions_append transitions_append
          subset_insertI2)
  next
    case (TransitionRecord now t)
    then show ?thesis
      using Cons.prems Cons.IH [of "pre @ [r]"]
      by (auto simp: hm_find_jobs_of_log jobs_of_log_transition submissions_append transitions_append)
  qed
qed simp

definition log_report :: "wal_record list \<Rightarrow> bool \<Rightarrow> recovery_report" where
  "log_report rs torn =
     \<lparr>rep_jobs = sort_key (\<lambda>job. sub_submission_sequence (rj_submission job)) (map (job_of_log rs) (submissions rs)),
      rep_ignored_incomplete_tail = torn\<rparr>"

definition log_ok :: "wal_record list \<Rightarrow> bool" where
  "log_ok rs \<longleftrightarrow> list_all record_ok rs \<and> log_wf {} rs"

definition sample_submission :: job_submission_record where
  "sample_submission = \<lparr>sub_id = 1, sub_submission_sequence = 1, sub_name = ''primes'', sub_priority = -3,
     sub_estimated_work_units = 100, sub_task = \<lparr>spec_type = ''prime'', spec_payload = ''100,0''\<rparr>\<rparr>"

definition sample_log :: "wal_record list" where
  "sample_log =
     [SubmissionRecord 1700000000000 sample_submission,
      TransitionRecord 1700000000001
        \<lparr>tr_id = 1, tr_state = Running, tr_work_units_consumed = 0, tr_message = []\<rparr>]"

definition sample_record :: wal_record where
  "sample_record = TransitionRecord 1700000000002
     \<lparr>tr_id = 1, tr_state = Completed, tr_work_units_consumed = 99, tr_message = ''25 primes''\<rparr>"

lemma sample_log_ok: "log_ok sample_log" "log_ok (sample_log @ [sample_record])" "record_ok sample_record"
  by (simp_all add: log_ok_def sample_log_def sample_record_def sample_submission_def in_range_def)

lemma recover_log_text:
  assumes "log_ok rs" "CHR 0x0A \<notin> set torn"
  shows "wal_recover path True None None (log_text rs @ torn) =
    (log_text rs, Inr (log_report rs (torn \<noteq> [])))"
proof -
  have "replay 0 rs [] = Inr (jobs_of_log rs)"
    using replay_jobs_of_log [of "[]" rs 0] assms(1) by (simp add: log_ok_def jobs_of_log_def)
  then show ?thesis
    using assms wal_recover_replay [of rs torn path]
    by (simp add: log_ok_def list_all_iff log_report_def sorted_jobs_def jobs_of_log_def comp_def)
qed

text \<open>
  C12 (recovery).  For every well-formed log followed by any incomplete last line, \<open>recover\<close>
  truncates the file to the complete records and reports every submitted job exactly once, in
  submission order, with the state, work and message of its last transition (\<open>Ready\<close> if it has
  none), and it says whether a torn tail was dropped.
\<close>

theorem wal_recover_correct:
  assumes "log_ok rs" "CHR 0x0A \<notin> set torn"
  shows "wal_recover path True None None (log_text rs @ torn) =
    (log_text rs, Inr (log_report rs (torn \<noteq> [])))"
  by (rule recover_log_text [OF assms])

theorem wal_recover_correct_witness:
  "log_ok sample_log \<and> wal_recover ''wal'' True None None (log_text sample_log @ ''K1|T|17'') =
     (log_text sample_log, Inr (log_report sample_log True))"
  using wal_recover_correct [OF sample_log_ok(1), of "''K1|T|17''" "''wal''"] sample_log_ok by simp

section \<open>Appending and crashing\<close>

fun append_record :: "write_result list \<Rightarrow> string option \<Rightarrow> wal_record \<Rightarrow> string \<Rightarrow> string \<times> append_outcome" where
  "append_record os fsync_error (SubmissionRecord now rec) file =
     wal_append_submission os fsync_error now rec file"
| "append_record os fsync_error (TransitionRecord now rec) file =
     wal_append_transition os fsync_error now rec file"

lemma append_record_ok:
  "record_ok r \<Longrightarrow> append_record os fsync_error r file = wal_append os fsync_error (record_text r) file"
  by (cases r) (simp_all add: wal_append_submission_def wal_append_transition_def)

lemma take_min_add: "take (min n (length xs) + k) xs = take n xs @ take k (drop n xs)"
  by (cases "n \<le> length xs") (simp_all add: take_add)

lemma write_loop_prefix:
  "write_loop os rec f = (file', outcome) \<Longrightarrow>
     \<exists>k \<le> length rec. file' = f @ take k rec \<and> (outcome = Appended \<longrightarrow> k = length rec)"
proof (induction os rec f rule: write_loop.induct)
  case (5 n os c cs f)
  then obtain k where k: "k \<le> length (drop n (c # cs))"
      "file' = (f @ take n (c # cs)) @ take k (drop n (c # cs))"
      "outcome = Appended \<longrightarrow> k = length (drop n (c # cs))"
    by auto
  let ?m = "min n (length (c # cs)) + k"
  have "take ?m (c # cs) = take n (c # cs) @ take k (drop n (c # cs))"
    by (rule take_min_add)
  moreover have "?m \<le> length (c # cs)" using k(1) by (auto simp: min_def split: if_splits)
  moreover have "outcome = Appended \<longrightarrow> ?m = length (c # cs)" using k(3) by (auto simp: min_def)
  ultimately show ?case using k(2) by (metis append_assoc)
qed (auto simp: exI [of _ 0])

lemma wal_append_prefix:
  assumes "wal_append os fsync_error rec file = (file', outcome)"
  shows "\<exists>k \<le> length rec. file' = file @ take k rec \<and> (outcome = Appended \<longrightarrow> k = length rec)"
proof -
  obtain out where w: "write_loop os rec file = (file', out)" and "outcome = Appended \<longrightarrow> out = Appended"
    using assms by (auto simp: wal_append_def split: prod.splits append_outcome.splits option.splits)
  then show ?thesis using write_loop_prefix [OF w] by blast
qed

lemma record_text_newline: "k < length (record_text r) \<Longrightarrow> CHR 0x0A \<notin> set (take k (record_text r))"
proof -
  assume k: "k < length (record_text r)"
  define line where "line = record_prefix r @ CHR ''|'' # checksum_text (record_prefix r)"
  have "record_text r = line @ [CHR 0x0A]" "CHR 0x0A \<notin> set line"
    using record_prefix_no_newline [of r] by (simp_all add: record_text_eq line_def)
  then show ?thesis using k set_take_subset [of k line] by auto
qed

text \<open>
  C13 (crash atomicity).  Take a well-formed log and append one record, with any sequence of short
  writes, interruptions and errors, cut off at any point.  Recovering the resulting file gives
  exactly the log before or the log after the append, and the latter whenever \<open>append\<close> returned
  normally: a record is never half there, and an acknowledged record is never lost.
\<close>

theorem wal_append_atomic:
  assumes "log_ok (rs @ [r])" "append_record os fsync_error r (log_text rs) = (file', outcome)"
  shows "\<exists>rs' torn. rs' \<in> {rs, rs @ [r]} \<and> (outcome = Appended \<longrightarrow> rs' = rs @ [r]) \<and>
    wal_recover path True None None file' = (log_text rs', Inr (log_report rs' torn))"
proof -
  obtain k where k: "k \<le> length (record_text r)" "file' = log_text rs @ take k (record_text r)"
      "outcome = Appended \<longrightarrow> k = length (record_text r)"
    using assms wal_append_prefix [of os fsync_error "record_text r" "log_text rs" file' outcome]
    by (auto simp: log_ok_def append_record_ok)
  show ?thesis
  proof (cases "k = length (record_text r)")
    case True
    then have "file' = log_text (rs @ [r]) @ []" using k(2) by simp
    then show ?thesis using recover_log_text [OF assms(1), of "[]" path] by auto
  next
    case False
    have wf: "log_wf K (as @ bs) \<Longrightarrow> log_wf K as" for K as bs
      by (induction K as rule: log_wf.induct) auto
    then have "log_ok rs" using assms(1) by (auto simp: log_ok_def)
    then show ?thesis
      using recover_log_text [of rs _ path] record_text_newline [of k r] k False by fastforce
  qed
qed

theorem wal_append_atomic_witness:
  "\<exists>rs' torn. rs' \<in> {sample_log, sample_log @ [sample_record]} \<and>
     wal_recover ''wal'' True None None
       (fst (append_record [Wrote 7, Interrupted, Wrote 4] None sample_record (log_text sample_log))) =
     (log_text rs', Inr (log_report rs' torn))"
  using wal_append_atomic [OF sample_log_ok(2) prod.collapse [symmetric]] by metis

text \<open>
  C24 (corruption).  If up to four consecutive bytes of the checksummed part of a line were changed,
  recovery of the line throws the checksum error, whatever the bytes and whatever was recovered
  before.
\<close>

theorem wal_detects_burst:
  assumes "length b = length b'" "length b \<le> 4" "b \<noteq> b'"
  shows "recover_line (p @ b' @ q @ ''|'' @ checksum_text (p @ b @ q)) m =
    Inl (runtime_error ''WAL checksum mismatch'')"
  using checksum_detects_burst [OF assms, of p q]
    validate_checksum_line [of "checksum_text (p @ b @ q)" "p @ b' @ q"]
  by (simp add: recover_line_def Let_def)

theorem wal_detects_burst_witness:
  "recover_line (''K1|T|17|'' @ ''9'' @ ''|READY|0|'' @ ''|'' @ checksum_text (''K1|T|17|'' @ ''1'' @ ''|READY|0|'')) [] =
     Inl (runtime_error ''WAL checksum mismatch'')"
  using wal_detects_burst [of "''1''" "''9''" "''K1|T|17|''" "''|READY|0|''" "[]"] by simp

lemma recover_line_glued:
  assumes "CHR ''|'' \<notin> set torn" "torn \<noteq> []"
  shows "\<exists>e. recover_line (torn @ record_prefix r @ CHR ''|'' # checksum_text (record_prefix r)) m = Inl e"
proof -
  let ?line = "torn @ record_prefix r @ CHR ''|'' # checksum_text (record_prefix r)"
  obtain fs where "record_fields r = ''K1'' # fs" "fs \<noteq> []" by (cases r) auto
  then have "\<exists>u. ?line = (torn @ ''K1'') @ CHR ''|'' # u"
    by (simp add: record_prefix_join join_with_Cons)
  then obtain u where u: "?line = (torn @ ''K1'') @ CHR ''|'' # u" ..
  have "wal_split ?line = (torn @ ''K1'') # split_on CHR ''|'' u"
    unfolding wal_split_def u using assms(1) by (intro split_on_append) simp
  then have "wal_split ?line ! 0 \<noteq> ''K1''" using assms(2) by simp
  then show ?thesis by (simp only: recover_line_def Let_def) (simp split: sum.split)
qed

text \<open>
  C25 (a failed append poisons the log).  An append that fails after its first byte was written
  throws and leaves that byte in the file, and the descriptor stays usable: the next append
  succeeds, and from then on the file holds a complete line that no recovery accepts.
\<close>

theorem wal_partial_append_poisons:
  assumes "log_ok rs" "record_ok r" "record_ok r'"
  shows "\<exists>f1 e1 f2 e2.
    append_record [Wrote 1, WriteError m] None r (log_text rs) = (f1, AppendFailed e1) \<and>
    append_record [Wrote (length (record_text r'))] None r' f1 = (f2, Appended) \<and>
    wal_recover path True None None f2 = (f2, Inl e2)"
proof -
  let ?line = "record_prefix r' @ CHR ''|'' # checksum_text (record_prefix r')"
  let ?f1 = "log_text rs @ ''K''"
  let ?f2 = "log_text rs @ (''K'' @ ?line) @ [CHR 0x0A]"
  obtain cs where cs: "record_text r = CHR ''K'' # cs" "cs \<noteq> []"
    by (cases r) (simp_all add: with_checksum_def submission_prefix_def transition_prefix_def)
  have len: "record_text r' = ?line @ [CHR 0x0A]" by (simp add: record_text_eq)
  then obtain d ds where ds: "record_text r' = d # ds" by (metis neq_Nil_conv append_is_Nil_conv list.distinct(1))
  have one: "wal_append [Wrote 1, WriteError m] None (record_text r) (log_text rs) =
      (?f1, AppendFailed (system_error ''failed to append WAL record'' m))"
    using cs by (cases cs) (simp_all add: wal_append_def)
  have two: "wal_append [Wrote (length (record_text r'))] None (record_text r') ?f1 = (?f2, Appended)"
  proof -
    have "write_loop [Wrote (length (record_text r'))] (record_text r') ?f1 = (?f1 @ record_text r', Appended)"
      unfolding ds by simp
    then show ?thesis by (simp add: wal_append_def len)
  qed
  have "CHR 0x0A \<notin> set (''K'' @ ?line)" using record_prefix_no_newline [of r'] by simp
  then obtain e where "recover_lines 0 ?f2 [] = Inl e"
    using recover_lines_replay [of rs 0 "(''K'' @ ?line) @ [CHR 0x0A]" "[]"] assms
      recover_lines_line [of "''K'' @ ?line" "length rs" "[]"] recover_line_glued [of "''K''" r']
    by (fastforce simp: log_ok_def list_all_iff split: sum.splits)
  then have "wal_recover path True None None (?f2 @ []) = (?f2, Inl e)"
    by (subst wal_recover_torn) simp_all
  with one two show ?thesis using assms by (auto simp: append_record_ok)
qed

theorem wal_partial_append_poisons_witness:
  "\<exists>f1 e1 f2 e2.
    append_record [Wrote 1, WriteError ''No space left on device''] None sample_record (log_text sample_log) =
      (f1, AppendFailed e1) \<and>
    append_record [Wrote (length (record_text sample_record))] None sample_record f1 = (f2, Appended) \<and>
    wal_recover ''wal'' True None None f2 = (f2, Inl e2)"
  using wal_partial_append_poisons [OF sample_log_ok(1,3,3)] .

end
