(* ===== verification/Kronos_Journal.thy ===== *)
theory Kronos_Journal
  imports Kronos_Operations Kronos_Wal
begin

text \<open>
  \<open>WalManager\<close> behind the interface \<open>IJobJournal\<close>, and the contract the engine relies on.

  The manager holds its path and the contents of its file.  The answers of the operating system to the
  successive appends are part of its state: the short or failing results of \<open>::write\<close>, after which
  \<open>::write\<close> takes what is left, the result of \<open>::fsync\<close>, and the clock.  Every append that returns is
  of this form.

  The locale \<open>log_journal\<close> is the contract: appending adds the record, or fails and adds it or not.  It
  is interpreted for the write-ahead log under the condition, part of \<open>wal_holds\<close>, that an append that fails
  has written nothing or everything (the theorems on \<open>append\<close> show what happens otherwise).
\<close>

section \<open>WalManager as a journal\<close>

record append_answer =
  ans_writes :: "write_result list"
  ans_fsync :: "string option"
  ans_now :: int

record wal_manager =
  wm_path :: string
  wm_file :: string
  wm_answers :: "append_answer list"
  wm_later :: append_answer

text \<open>The answer to the next append: the list first, then always the last field.\<close>

definition next_answer :: "wal_manager \<Rightarrow> append_answer \<times> wal_manager" where
  "next_answer w =
     (case wm_answers w of
        [] \<Rightarrow> (wm_later w, w)
      | a # as \<Rightarrow> (a, w\<lparr>wm_answers := as\<rparr>))"

fun append_error :: "append_outcome \<Rightarrow> exn option" where
  "append_error (AppendFailed e) = Some e"
| "append_error _ = None"

definition manager_append_submission :: "job_submission_record \<Rightarrow> wal_manager \<Rightarrow> exn option \<times> wal_manager" where
  "manager_append_submission rec w =
     (let (a, w') = next_answer w;
          line = with_checksum (submission_prefix (ans_now a) rec) in
      case wal_append_submission (ans_writes a @ [Wrote (length line)]) (ans_fsync a) (ans_now a) rec (wm_file w') of
        (file', outcome) \<Rightarrow> (append_error outcome, w'\<lparr>wm_file := file'\<rparr>))"

definition manager_append_transition :: "job_transition_record \<Rightarrow> wal_manager \<Rightarrow> exn option \<times> wal_manager" where
  "manager_append_transition rec w =
     (let (a, w') = next_answer w;
          line = with_checksum (transition_prefix (ans_now a) rec) in
      case wal_append_transition (ans_writes a @ [Wrote (length line)]) (ans_fsync a) (ans_now a) rec (wm_file w') of
        (file', outcome) \<Rightarrow> (append_error outcome, w'\<lparr>wm_file := file'\<rparr>))"

definition wal_ops :: "wal_manager journal_ops" where
  "wal_ops = \<lparr>append_submission = manager_append_submission, append_transition = manager_append_transition\<rparr>"

section \<open>The contract of a journal\<close>

locale log_journal =
  fixes jo :: "'j journal_ops" and holds :: "'j \<Rightarrow> wal_record list \<Rightarrow> bool"
  assumes submission_appends: "holds j rs \<Longrightarrow> int32_range (sub_priority rec) \<Longrightarrow> append_submission jo rec j = (err, j') \<Longrightarrow>
      \<exists>now. holds j' (rs @ [SubmissionRecord now rec]) \<or> err \<noteq> None \<and> holds j' rs"
    and transition_appends: "holds j rs \<Longrightarrow> append_transition jo tr j = (err, j') \<Longrightarrow>
      \<exists>now. holds j' (rs @ [TransitionRecord now tr]) \<or> err \<noteq> None \<and> holds j' rs"
begin

end

definition answer_atomic :: "append_answer \<Rightarrow> bool" where
  "answer_atomic a \<longleftrightarrow> int64_range (ans_now a) \<and>
     (\<forall>m n. WriteError m \<in> set (ans_writes a) \<longrightarrow> Wrote n \<notin> set (ans_writes a))"

definition wal_holds :: "wal_manager \<Rightarrow> wal_record list \<Rightarrow> bool" where
  "wal_holds w rs \<longleftrightarrow> wm_file w = log_text rs \<and> list_all record_ok rs \<and>
     list_all answer_atomic (wm_answers w) \<and> answer_atomic (wm_later w)"

lemma write_loop_error:
  "WriteError m \<in> set os \<Longrightarrow> (\<forall>n. Wrote n \<notin> set os) \<Longrightarrow> s \<noteq> [] \<Longrightarrow>
     \<exists>e. write_loop (os @ os') s f = (f, AppendFailed e)"
proof (induction os)
  case (Cons r os)
  then show ?case by (cases r; cases s) auto
qed simp

lemma write_loop_all:
  "(\<forall>m. WriteError m \<notin> set os) \<Longrightarrow> length s \<le> n \<Longrightarrow> write_loop (os @ [Wrote n]) s f = (f @ s, Appended)"
proof (induction os arbitrary: s f)
  case Nil
  then show ?case by (cases s) auto
next
  case (Cons r os)
  show ?case
  proof (cases s)
    case s: (Cons c cs)
    show ?thesis
    proof (cases r)
      case (Wrote k)
      have "write_loop ((r # os) @ [Wrote n]) s f = write_loop (os @ [Wrote n]) (drop k s) (f @ take k s)"
        by (simp add: Wrote s)
      also have "\<dots> = ((f @ take k s) @ drop k s, Appended)" using Cons.prems by (intro Cons.IH) auto
      finally show ?thesis by simp
    qed (use Cons s in auto)
  qed simp
qed

lemma wal_append_whole:
  assumes "answer_atomic a" "line \<noteq> []"
    "wal_append (ans_writes a @ [Wrote (length line)]) (ans_fsync a) line f = (f', outcome)"
  shows "f' = f @ line \<or> append_error outcome \<noteq> None \<and> f' = f"
proof (cases "\<exists>m. WriteError m \<in> set (ans_writes a)")
  case True
  then obtain m where m: "WriteError m \<in> set (ans_writes a)" by blast
  then have "\<forall>n. Wrote n \<notin> set (ans_writes a)" using assms(1) by (auto simp: answer_atomic_def)
  from write_loop_error [OF m this assms(2)] obtain e where
    "write_loop (ans_writes a @ [Wrote (length line)]) line f = (f, AppendFailed e)" by blast
  then show ?thesis using assms(3) by (auto simp: wal_append_def)
next
  case False
  then show ?thesis using assms(3) write_loop_all [of "ans_writes a" line "length line" f]
    by (auto simp: wal_append_def split: option.splits)
qed

lemma wal_append_returns:
  assumes "wal_append (os @ [Wrote (length line)]) fsync line f = (f', outcome)"
  shows "outcome \<noteq> AppendPending"
proof -
  have "snd (write_loop (os @ [Wrote n]) s f) \<noteq> AppendPending" if "length s \<le> n" for n s f
    using that by (induction os s f rule: write_loop.induct) (auto simp: neq_Nil_conv)
  from this [of line "length line" f] show ?thesis using assms
    by (auto simp: wal_append_def split: prod.splits append_outcome.splits option.splits)
qed

lemma next_answer_holds:
  assumes "wal_holds w rs" "next_answer w = (a, w')"
  shows "wal_holds w' rs" "answer_atomic a"
  using assms by (auto simp: next_answer_def wal_holds_def split: list.splits)

lemma with_checksum_nonempty: "with_checksum s \<noteq> []"
  by (simp add: with_checksum_def)

interpretation wal: log_journal wal_ops wal_holds
proof
  fix w rs rec err w'
  assume w: "wal_holds w rs" "int32_range (sub_priority rec)" and run: "append_submission wal_ops rec w = (err, w')"
  obtain a w1 where a: "next_answer w = (a, w1)" by fastforce
  let ?line = "with_checksum (submission_prefix (ans_now a) rec)"
  note h = next_answer_holds [OF w(1) a]
  obtain f outcome where app: "wal_append_submission (ans_writes a @ [Wrote (length ?line)]) (ans_fsync a) (ans_now a) rec
      (wm_file w1) = (f, outcome)" by fastforce
  have res: "err = append_error outcome" "w' = w1\<lparr>wm_file := f\<rparr>"
    using run a app by (simp_all add: wal_ops_def manager_append_submission_def)
  show "\<exists>now. wal_holds w' (rs @ [SubmissionRecord now rec]) \<or> err \<noteq> None \<and> wal_holds w' rs"
  proof (cases "sub_id rec = 0 \<or> sub_estimated_work_units rec = 0 \<or> spec_type (sub_task rec) = []")
    case True
    then show ?thesis using app res h(1) by (auto simp: wal_append_submission_def)
  next
    case False
    then have "wal_append (ans_writes a @ [Wrote (length ?line)]) (ans_fsync a) ?line (wm_file w1) = (f, outcome)"
      using app by (simp add: wal_append_submission_def)
    from wal_append_whole [OF h(2) with_checksum_nonempty this] show ?thesis
      using res h w(2) False by (auto simp: wal_holds_def answer_atomic_def intro!: exI [of _ "ans_now a"])
  qed
next
  fix w rs tr err w'
  assume w: "wal_holds w rs" and run: "append_transition wal_ops tr w = (err, w')"
  obtain a w1 where a: "next_answer w = (a, w1)" by fastforce
  let ?line = "with_checksum (transition_prefix (ans_now a) tr)"
  note h = next_answer_holds [OF w a]
  obtain f outcome where app: "wal_append_transition (ans_writes a @ [Wrote (length ?line)]) (ans_fsync a) (ans_now a) tr
      (wm_file w1) = (f, outcome)" by fastforce
  have res: "err = append_error outcome" "w' = w1\<lparr>wm_file := f\<rparr>"
    using run a app by (simp_all add: wal_ops_def manager_append_transition_def)
  show "\<exists>now. wal_holds w' (rs @ [TransitionRecord now tr]) \<or> err \<noteq> None \<and> wal_holds w' rs"
  proof (cases "tr_id tr = 0")
    case True
    then show ?thesis using app res h(1) by (auto simp: wal_append_transition_def)
  next
    case False
    then have "wal_append (ans_writes a @ [Wrote (length ?line)]) (ans_fsync a) ?line (wm_file w1) = (f, outcome)"
      using app by (simp add: wal_append_transition_def)
    from wal_append_whole [OF h(2) with_checksum_nonempty this] show ?thesis
      using res h False by (auto simp: wal_holds_def answer_atomic_def intro!: exI [of _ "ans_now a"])
  qed
qed

end
