(* ===== verification/Kronos_Write_Ahead.thy ===== *)
theory Kronos_Write_Ahead
  imports Kronos_Journal
begin

text \<open>
  The engine and its journal together: every locked section writes the log before the memory, and every
  step of the system keeps \<open>log_inv\<close>: the log says of every registered job what the memory says.
  The lemmas are proved in the locale \<open>log_journal\<close>, from the contract of the journal alone.
\<close>

section \<open>What the log says of a job\<close>

definition log_state :: "wal_record list \<Rightarrow> job_id \<Rightarrow> job_state" where
  "log_state rs i = (case last_transition rs i of None \<Rightarrow> Ready | Some t \<Rightarrow> tr_state t)"

definition logged :: "wal_record list \<Rightarrow> job_id \<Rightarrow> 't job_record \<Rightarrow> bool" where
  "logged rs i rec \<longleftrightarrow> wal_failed rec \<or>
     log_state rs i = rec_state rec \<and>
     (is_terminal (rec_state rec) \<longrightarrow>
        (\<exists>t. last_transition rs i = Some t \<and> tr_message t = snap_message (jr_snapshot rec) \<and>
           tr_work_units_consumed t = snap_work_units_consumed (jr_snapshot rec)))"

definition extends :: "wal_record list \<Rightarrow> wal_record list \<Rightarrow> job_id \<Rightarrow> bool" where
  "extends rs rs' i \<longleftrightarrow> rs' = rs \<or> (\<exists>now t. tr_id t = i \<and> rs' = rs @ [TransitionRecord now t])"

lemma last_transition_append [simp]:
  "last_transition (rs @ [TransitionRecord now t]) k = (if tr_id t = k then Some t else last_transition rs k)"
  "last_transition (rs @ [SubmissionRecord now sub]) k = last_transition rs k"
  by (simp_all add: last_transition_def transitions_append)

lemma extends_other: "extends rs rs' i \<Longrightarrow> k \<noteq> i \<Longrightarrow> last_transition rs' k = last_transition rs k"
  by (auto simp: extends_def)

lemma extends_ids: "extends rs rs' i \<Longrightarrow> log_ids rs' = log_ids rs"
  by (auto simp: extends_def submissions_append)

lemma logged_cong: "last_transition rs' i = last_transition rs i \<Longrightarrow> logged rs' i rec = logged rs i rec"
  by (simp add: logged_def log_state_def)

lemma logged_lastI:
  "last_transition rs i = Some t \<Longrightarrow> tr_state t = rec_state rec \<Longrightarrow>
   (is_terminal (tr_state t) \<Longrightarrow> tr_message t = snap_message (jr_snapshot rec) \<and>
     tr_work_units_consumed t = snap_work_units_consumed (jr_snapshot rec)) \<Longrightarrow> logged rs i rec"
  by (auto simp: logged_def log_state_def)

lemma logged_failedI: "wal_failed rec \<Longrightarrow> logged rs i rec"
  by (simp add: logged_def)

lemma publish_snapshot:
  "snap_message (jr_snapshot (publish now st m rec)) = m"
  "snap_work_units_consumed (jr_snapshot (publish now st m rec)) = snap_work_units_consumed (jr_snapshot rec)"
  by (simp_all add: publish_def Let_def)

section \<open>Locked sections write the log first\<close>

text \<open>A section on a record that is in the log leaves it so; \<open>holds\<close> relates the journal to its records.\<close>

definition keeps_log :: "('j \<Rightarrow> wal_record list \<Rightarrow> bool) \<Rightarrow> (('t, 'j) locked \<Rightarrow> 'r \<times> ('t, 'j) locked) \<Rightarrow>
    't job_record \<Rightarrow> bool" where
  "keeps_log holds f rec \<longleftrightarrow> (\<forall>j rs x rec' j'. holds j rs \<longrightarrow> logged rs (snap_id (jr_snapshot rec)) rec \<longrightarrow>
     f (rec, Some j) = (x, rec', j') \<longrightarrow>
     (\<exists>j1 rs'. j' = Some j1 \<and> holds j1 rs' \<and> extends rs rs' (snap_id (jr_snapshot rec)) \<and>
        logged rs' (snap_id (jr_snapshot rec)) rec'))"

context log_journal
begin

lemma persist_logs:
  assumes "holds j rs" "persist_transition_locked jo now st message (rec, Some j) = (ok, rec', j')"
    "\<not> jr_result_published rec" "i = snap_id (jr_snapshot rec)"
  shows "\<exists>j1 rs'. j' = Some j1 \<and> holds j1 rs' \<and> extends rs rs' i \<and>
    (if ok then rec' = rec \<and> (\<exists>t. last_transition rs' i = Some t \<and> tr_state t = st \<and> tr_message t = message \<and>
         tr_work_units_consumed t = snap_work_units_consumed (jr_snapshot rec))
     else wal_failed rec')"
proof -
  let ?t = "\<lparr>tr_id = snap_id (jr_snapshot rec), tr_state = st,
    tr_work_units_consumed = snap_work_units_consumed (jr_snapshot rec), tr_message = message\<rparr>"
  obtain err j1 where run: "append_transition jo ?t j = (err, j1)" by fastforce
  obtain clock where h: "holds j1 (rs @ [TransitionRecord clock ?t]) \<or> err \<noteq> None \<and> holds j1 rs"
    using transition_appends [OF assms(1) run] by blast
  show ?thesis
  proof (cases err)
    case None
    then have "ok" "rec' = rec" "j' = Some j1" using assms(2) run by (simp_all add: persist_transition_locked_def)
    then show ?thesis using h None assms(4)
      by (intro exI [of _ j1] exI [of _ "rs @ [TransitionRecord clock ?t]"]) (auto simp: extends_def)
  next
    case (Some e)
    then have res: "\<not> ok" "j' = Some j1" "wal_failed rec'"
      using assms(2,3) run
      by (auto simp: persist_transition_locked_def fail_without_journal_locked_def wal_failed_publish
          simp del: append_Cons append_Nil)
    from h show ?thesis
    proof
      assume "holds j1 (rs @ [TransitionRecord clock ?t])"
      then show ?thesis using res assms(4)
        by (intro exI [of _ j1] exI [of _ "rs @ [TransitionRecord clock ?t]"]) (auto simp: extends_def)
    next
      assume "err \<noteq> None \<and> holds j1 rs"
      then show ?thesis using res by (auto simp: extends_def)
    qed
  qed
qed

lemma finish_logs:
  assumes "holds j rs" "finish_locked jo now st message (rec, Some j) = (rec', j')" "is_terminal st"
    "i = snap_id (jr_snapshot rec)" "jr_result_published rec \<longrightarrow> logged rs i rec"
  shows "\<exists>j1 rs'. j' = Some j1 \<and> holds j1 rs' \<and> extends rs rs' i \<and> logged rs' i rec'"
proof (cases "jr_result_published rec")
  case True
  then have "rec' = rec" "j' = Some j" using assms(2) by (simp_all add: finish_locked_def)
  then show ?thesis using True assms(1,5) by (auto simp: extends_def)
next
  case False
  obtain ok r1 j1 where p: "persist_transition_locked jo now st message (rec, Some j) = (ok, r1, j1)"
    by (metis prod_cases3)
  from persist_logs [OF assms(1) p False assms(4)] obtain j2 rs' where
    "j1 = Some j2" "holds j2 rs'" "extends rs rs' i"
    "if ok then r1 = rec \<and> (\<exists>t. last_transition rs' i = Some t \<and> tr_state t = st \<and> tr_message t = message \<and>
         tr_work_units_consumed t = snap_work_units_consumed (jr_snapshot rec)) else wal_failed r1" by blast
  note log = this
  have "j' = j1" "rec' = (if ok then publish now st message r1 else r1)"
    using assms(2) p False by (cases ok; simp add: finish_locked_def)+
  then have "logged rs' i rec'"
    using log(4) by (auto simp: publish_snapshot split: if_splits intro: logged_lastI logged_failedI)
  then show ?thesis using log \<open>j' = j1\<close> by blast
qed

lemma keeps_logI:
  assumes "\<And>j rs x rec' j'. holds j rs \<Longrightarrow> logged rs (snap_id (jr_snapshot rec)) rec \<Longrightarrow>
     f (rec, Some j) = (x, rec', j') \<Longrightarrow>
     \<exists>j1 rs'. j' = Some j1 \<and> holds j1 rs' \<and> extends rs rs' (snap_id (jr_snapshot rec)) \<and>
        logged rs' (snap_id (jr_snapshot rec)) rec'"
  shows "keeps_log holds f rec"
  using assms by (auto simp: keeps_log_def)

lemma logged_stop: "logged rs i (rec\<lparr>jr_stop_requested := b\<rparr>) = logged rs i rec"
  by (simp add: logged_def wal_failed_def)

lemma logged_task: "logged rs i (rec\<lparr>jr_task := t\<rparr>) = logged rs i rec"
  by (simp add: logged_def wal_failed_def)

lemma cancel_keeps_log: "keeps_log holds (cancel_section jo now) rec"
proof (rule keeps_logI)
  fix j rs x rec' j'
  assume h: "holds j rs" "logged rs (snap_id (jr_snapshot rec)) rec"
    and run: "cancel_section jo now (rec, Some j) = (x, rec', j')"
  let ?rec = "rec\<lparr>jr_stop_requested := True\<rparr>"
  consider "rec' = rec \<and> j' = Some j" | "rec' = ?rec \<and> j' = Some j"
    | "finish_locked jo now Cancelled ''cancelled before execution'' (?rec, Some j) = (rec', j')"
    using run by (auto simp: cancel_section_def Let_def split: if_splits)
  then show "\<exists>j1 rs'. j' = Some j1 \<and> holds j1 rs' \<and> extends rs rs' (snap_id (jr_snapshot rec)) \<and>
      logged rs' (snap_id (jr_snapshot rec)) rec'"
  proof cases
    case 3
    show ?thesis using finish_logs [OF h(1) 3, of "snap_id (jr_snapshot rec)"] h(2) by (simp add: logged_stop)
  qed (use h in \<open>auto simp: extends_def logged_stop\<close>)
qed

lemma pending_keeps_log: "keeps_log holds (pending_section jo now) rec"
proof (rule keeps_logI)
  fix j rs x rec' j'
  assume h: "holds j rs" "logged rs (snap_id (jr_snapshot rec)) rec"
    and run: "pending_section jo now (rec, Some j) = (x, rec', j')"
  let ?rec = "rec\<lparr>jr_stop_requested := True\<rparr>"
  consider "rec' = rec \<and> j' = Some j"
    | "finish_locked jo now Cancelled ''cancelled during engine shutdown'' (?rec, Some j) = (rec', j')"
    using run by (auto simp: pending_section_def split: if_splits)
  then show "\<exists>j1 rs'. j' = Some j1 \<and> holds j1 rs' \<and> extends rs rs' (snap_id (jr_snapshot rec)) \<and>
      logged rs' (snap_id (jr_snapshot rec)) rec'"
  proof cases
    case 2
    show ?thesis using finish_logs [OF h(1) 2, of "snap_id (jr_snapshot rec)"] h(2) by (simp add: logged_stop)
  qed (use h in \<open>auto simp: extends_def\<close>)
qed

lemma finish_keeps_log: "keeps_log holds (finish_section jo now Cancelled message) rec"
proof (rule keeps_logI)
  fix j rs x rec' j'
  assume h: "holds j rs" "logged rs (snap_id (jr_snapshot rec)) rec"
    and run: "finish_section jo now Cancelled message (rec, Some j) = (x, rec', j')"
  then have "finish_locked jo now Cancelled message (rec, Some j) = (rec', j')" by (simp add: finish_section_def)
  from finish_logs [OF h(1) this] show "\<exists>j1 rs'. j' = Some j1 \<and> holds j1 rs' \<and>
      extends rs rs' (snap_id (jr_snapshot rec)) \<and> logged rs' (snap_id (jr_snapshot rec)) rec'"
    using h(2) by simp
qed

lemma start_keeps_log:
  assumes "published_ok rec"
  shows "keeps_log holds (start_section jo now) rec"
proof (rule keeps_logI)
  fix j rs x rec' j'
  assume h: "holds j rs" "logged rs (snap_id (jr_snapshot rec)) rec"
    and run: "start_section jo now (rec, Some j) = (x, rec', j')"
  show "\<exists>j1 rs'. j' = Some j1 \<and> holds j1 rs' \<and> extends rs rs' (snap_id (jr_snapshot rec)) \<and>
      logged rs' (snap_id (jr_snapshot rec)) rec'"
  proof (cases "rec_state rec = Ready")
    case True
    then have np: "\<not> jr_result_published rec" using not_published [OF assms] by simp
    obtain ok r1 j1 where p: "persist_transition_locked jo now Running [] (rec, Some j) = (ok, r1, j1)"
      by (metis prod_cases3)
    from persist_logs [OF h(1) p np refl] obtain j2 rs' where log: "j1 = Some j2" "holds j2 rs'"
        "extends rs rs' (snap_id (jr_snapshot rec))"
        "if ok then r1 = rec \<and> (\<exists>t. last_transition rs' (snap_id (jr_snapshot rec)) = Some t \<and> tr_state t = Running)
         else wal_failed r1"
      by (auto split: if_splits)
    have "j' = j1" "rec_state rec' = (if ok then Running else rec_state r1)" "\<not> ok \<longrightarrow> rec' = r1"
      using run True p by (cases ok; auto simp: start_section_def)+
    then have "logged rs' (snap_id (jr_snapshot rec)) rec'"
      using log(4) by (cases ok) (auto intro: logged_lastI logged_failedI)
    then show ?thesis using log \<open>j' = j1\<close> by blast
  next
    case False
    then show ?thesis using run h by (auto simp: start_section_def extends_def)
  qed
qed

lemma record_keeps_log:
  assumes "published_ok rec" "rec_state rec = Running"
  shows "keeps_log holds (record_section jo now result) rec"
proof (rule keeps_logI)
  fix j rs x rec' j'
  assume h: "holds j rs" "logged rs (snap_id (jr_snapshot rec)) rec"
    and run: "record_section jo now result (rec, Some j) = (x, rec', j')"
  let ?rec = "add_work (sr_work_units_consumed result) rec" and ?i = "snap_id (jr_snapshot rec)"
  have np: "\<not> jr_result_published ?rec" "snap_id (jr_snapshot ?rec) = ?i"
    using not_published [OF assms(1)] assms(2) by (simp_all add: add_work_def)
  show "\<exists>j1 rs'. j' = Some j1 \<and> holds j1 rs' \<and> extends rs rs' ?i \<and> logged rs' ?i rec'"
  proof (cases "sr_status result = SliceYielded \<and> \<not> jr_stop_requested ?rec")
    case True
    obtain ok r1 j1 where p: "persist_transition_locked jo now Ready (sr_message result) (?rec, Some j) = (ok, r1, j1)"
      by (metis prod_cases3)
    from persist_logs [OF h(1) p np(1) np(2) [symmetric]] obtain j2 rs' where log: "j1 = Some j2" "holds j2 rs'"
        "extends rs rs' ?i"
        "if ok then r1 = ?rec \<and> (\<exists>t. last_transition rs' ?i = Some t \<and> tr_state t = Ready) else wal_failed r1"
      by (auto split: if_splits)
    have "j' = j1" "rec_state rec' = (if ok then Ready else rec_state r1)" "\<not> ok \<longrightarrow> rec' = r1"
      using run True p by (cases ok; auto simp: record_section_def Let_def)+
    then have "logged rs' ?i rec'" using log(4) by (cases ok) (auto intro: logged_lastI logged_failedI)
    then show ?thesis using log \<open>j' = j1\<close> by blast
  next
    case False
    have fin: ?thesis if "finish_locked jo now st message (?rec, Some j) = (rec', j')" "is_terminal st" for st message
      using finish_logs [OF h(1) that np(2) [symmetric]] np(1) by blast
    show ?thesis
      using run False fin [of Cancelled] fin [of Failed] fin [of Completed]
      by (auto simp: record_section_def Let_def split: slice_status.splits if_splits)
  qed
qed

end

section \<open>The log and the registry\<close>

text \<open>
  \<open>log_wf\<close> without its accumulator, for appending at the end; the identifiers that occur in a log.
\<close>

definition known_ids :: "wal_record list \<Rightarrow> job_id set" where
  "known_ids rs = log_ids rs \<union> tr_id ` set (transitions rs)"

lemma known_ids_append [simp]:
  "known_ids (rs @ [SubmissionRecord now sub]) = insert (sub_id sub) (known_ids rs)"
  "known_ids (rs @ [TransitionRecord now t]) = insert (tr_id t) (known_ids rs)"
  by (auto simp: known_ids_def submissions_append transitions_append)

lemma log_wf_append:
  "log_wf K (rs @ [SubmissionRecord now sub]) \<longleftrightarrow> log_wf K rs \<and> sub_id sub \<notin> K \<union> log_ids rs"
  "log_wf K (rs @ [TransitionRecord now t]) \<longleftrightarrow> log_wf K rs \<and> tr_id t \<in> K \<union> log_ids rs"
  by (induction K rs rule: log_wf.induct) auto

lemma last_transition_unknown: "i \<notin> known_ids rs \<Longrightarrow> last_transition rs i = None"
  by (auto simp: known_ids_def last_transition_def find_None_iff)

text \<open>
  What the log must say for each pending call: an identifier that has been taken is new to the log until
  its submission is written; a job being restored is in the log and not registered.
\<close>

fun client_logged :: "wal_record list \<Rightarrow> ('t, 'j) engine \<Rightarrow> 't client \<Rightarrow> bool" where
  "client_logged rs e (C_SubmitId t options) \<longleftrightarrow> int32_range (opt_priority options)"
| "client_logged rs e (C_SubmitSeq t options i) \<longleftrightarrow> int32_range (opt_priority options) \<and> i \<notin> known_ids rs"
| "client_logged rs e (C_SubmitJournal t options i sequence) \<longleftrightarrow>
     int32_range (opt_priority options) \<and> i \<notin> known_ids rs"
| "client_logged rs e (C_SubmitEmplace t snapshot entry) \<longleftrightarrow>
     snap_id snapshot \<in> log_ids rs \<and> last_transition rs (snap_id snapshot) = None"
| "client_logged rs e (C_RestoreJournal t submission) \<longleftrightarrow>
     sub_id submission \<in> log_ids rs \<and> find_record (sub_id submission) e = None"
| "client_logged rs e (C_RestoreEmplace t submission) \<longleftrightarrow>
     sub_id submission \<in> log_ids rs \<and> find_record (sub_id submission) e = None \<and>
     log_state rs (sub_id submission) = Ready"
| "client_logged rs e _ \<longleftrightarrow> True"

definition registry_logged :: "wal_record list \<Rightarrow> ('t, 'j) engine \<Rightarrow> bool" where
  "registry_logged rs e \<longleftrightarrow> log_wf {} rs \<and> (\<forall>i \<in> known_ids rs. i < en_next_job_id e) \<and>
     (\<forall>i rec. rec_of e i = Some rec \<longrightarrow> i \<in> log_ids rs \<and> logged rs i rec)"

lemma registry_loggedD:
  assumes "registry_logged rs e"
  shows "log_wf {} rs" "i \<in> known_ids rs \<Longrightarrow> i < en_next_job_id e"
    "rec_of e i = Some rec \<Longrightarrow> i \<in> log_ids rs" "rec_of e i = Some rec \<Longrightarrow> logged rs i rec"
  using assms by (auto simp: registry_logged_def)

lemma registry_logged_frame:
  assumes "registry_logged rs e" "rec_of e' = rec_of e" "en_next_job_id e \<le> en_next_job_id e'"
  shows "registry_logged rs e'"
  using assms by (auto simp: registry_logged_def)

text \<open>Adding a transition of a job that is in the log.\<close>

lemma extends_wf: "extends rs rs' i \<Longrightarrow> i \<in> log_ids rs \<Longrightarrow> log_wf {} rs \<Longrightarrow> log_wf {} rs'"
  by (auto simp: extends_def log_wf_append)

lemma extends_known: "extends rs rs' i \<Longrightarrow> i \<in> log_ids rs \<Longrightarrow> known_ids rs' = known_ids rs"
  by (auto simp: extends_def) (auto simp: known_ids_def)

lemma client_logged_extends:
  assumes "extends rs rs' i" "i \<in> log_ids rs" "client_logged rs e c" "\<And>k. find_record k e' = find_record k e"
    "\<And>t snapshot entry. c = C_SubmitEmplace t snapshot entry \<Longrightarrow> snap_id snapshot \<noteq> i"
    "\<And>t submission. c = C_RestoreEmplace t submission \<Longrightarrow> sub_id submission \<noteq> i"
  shows "client_logged rs' e' c"
  using assms(3-6) extends_ids [OF assms(1)] extends_known [OF assms(1,2)] extends_other [OF assms(1)]
  by (cases c) (auto simp: log_state_def)

section \<open>One step of the system\<close>

text \<open>The journal of the engine holds the log \<open>rs\<close>, which accounts for the registry and the pending calls.\<close>

definition log_inv :: "('j \<Rightarrow> wal_record list \<Rightarrow> bool) \<Rightarrow> wal_record list \<Rightarrow> ('t, 'j) engine \<Rightarrow> 't client list \<Rightarrow> bool" where
  "log_inv holds rs e cs \<longleftrightarrow> (\<exists>j. en_journal e = Some j \<and> holds j rs) \<and> registry_logged rs e \<and>
     (\<forall>c \<in> set cs. client_logged rs e c)"

lemma client_logged_cong:
  "(\<And>k. find_record k e' = find_record k e) \<Longrightarrow> client_logged rs e' c = client_logged rs e c"
  by (cases c) simp_all

lemma log_inv_quiet:
  assumes "log_inv holds rs e cs" "en_journal e' = en_journal e" "rec_of e' = rec_of e"
    "\<And>k. find_record k e' = find_record k e" "en_next_job_id e \<le> en_next_job_id e'"
    "\<And>c. c \<in> set cs' \<Longrightarrow> c \<in> set cs \<or> client_logged rs e' c"
  shows "log_inv holds rs e' cs'"
proof -
  have "client_logged rs e' c" if "c \<in> set cs'" for c
    using assms(6) [OF that] assms(1) client_logged_cong [OF assms(4), of rs c] unfolding log_inv_def by blast
  then show ?thesis
    using assms(1,2) registry_logged_frame [of rs e e', OF _ assms(3,5)] unfolding log_inv_def by simp
qed

text \<open>A reserved identifier is not registered.\<close>

lemma tally_count: "c \<in> set cs \<Longrightarrow> i \<in># f c \<Longrightarrow> i \<in># tally f cs"
  by (induction cs) auto

lemma ids_ok_apart:
  assumes "ids_ok e cs" "c \<in> set cs" "i \<in># client_reserved c"
  shows "find_record i e = None" "i < en_next_job_id e"
  using assms tally_count [of c cs i client_reserved] by (auto simp: ids_ok_def)

lemma ids_ok_distinct:
  assumes "ids_ok e (b @ c # a)" "i \<in># client_reserved c" "c' \<in> set (b @ a)"
  shows "i \<notin># client_reserved c'"
proof
  assume "i \<in># client_reserved c'"
  then have "i \<in># tally client_reserved (b @ a)" using assms(3) tally_count [of c' "b @ a" i client_reserved] by simp
  then have "0 < count (tally client_reserved b) i + count (tally client_reserved a) i" by auto
  moreover have "0 < count (client_reserved c) i" using assms(2) by simp
  moreover have "count (tally client_reserved b) i + (count (client_reserved c) i + count (tally client_reserved a) i) \<le> 1"
    using assms(1) by (auto simp: ids_ok_def add.assoc dest: spec [of _ i])
  ultimately show False by linarith
qed

context log_journal
begin

lemma section_log_inv:
  assumes "log_inv holds rs e cs" "records_ok e" "find_record i e = Some r" "ids_ok e cs"
    "with_record r f e = (x, e')" "keeps_log holds f (en_store e ! r)"
    "\<And>rec' j'. f (en_store e ! r, en_journal e) = (x, rec', j') \<Longrightarrow> section_ok (en_store e ! r) rec'"
  shows "\<exists>rs'. log_inv holds rs' e' cs \<and> extends rs rs' i \<and> records_ok e' \<and> ids_ok e' cs \<and>
    (\<forall>k. find_record k e' = find_record k e)"
proof -
  let ?rec = "en_store e ! r"
  obtain j where j: "en_journal e = Some j" "holds j rs" using assms(1) by (auto simp: log_inv_def)
  obtain rec' j' where run: "f (?rec, Some j) = (x, rec', j')"
    using assms(5) j(1) by (auto simp: with_record_def split: prod.splits)
  have reg: "registry_ok e" using assms(2) by (simp add: records_ok_def)
  have id: "snap_id (jr_snapshot ?rec) = i" using registry_okD(2) [OF reg assms(3)] .
  have rec: "rec_of e i = Some ?rec" using assms(3) by (rule rec_of_find)
  note log = registry_loggedD [of rs e, OF conjunct1 [OF conjunct2 [OF assms(1) [unfolded log_inv_def]]]]
  obtain j1 rs' where new: "j' = Some j1" "holds j1 rs'" "extends rs rs' i" "logged rs' i rec'"
    using assms(6) j(2) run log(4) [OF rec] unfolding keeps_log_def id by blast
  have sec: "section_ok ?rec rec'" using assms(7) run j(1) by simp
  obtain e1 where e1: "with_record r f e = (x, e1)" "registry_ok e1" "rec_of e1 = (rec_of e)(i \<mapsto> rec')"
      "\<forall>k. find_record k e1 = find_record k e" "en_next_job_id e1 = en_next_job_id e" "en_journal e1 = j'"
    using with_record_view [of e i r f x rec' j', OF reg assms(3) _ sec] run j(1) by auto
  then have e': "registry_ok e'" "rec_of e' = (rec_of e)(i \<mapsto> rec')" "\<And>k. find_record k e' = find_record k e"
      "en_next_job_id e' = en_next_job_id e" "en_journal e' = Some j1"
    using assms(5) new(1) by auto
  have i: "i \<in> log_ids rs" by (rule log(3) [OF rec])
  have "registry_logged rs' e'"
    unfolding registry_logged_def
  proof (intro conjI allI impI ballI)
    show "log_wf {} rs'" using extends_wf [OF new(3) i log(1)] .
    show "k < en_next_job_id e'" if "k \<in> known_ids rs'" for k
      using that log(2) extends_known [OF new(3) i] e'(4) by simp
    show "k \<in> log_ids rs'" if "rec_of e' k = Some rc" for k rc
      using that log(3) i e'(2) extends_ids [OF new(3)] by (auto split: if_splits)
    show "logged rs' k rc" if "rec_of e' k = Some rc" for k rc
      using that log(4) [of k rc] new(4) e'(2) logged_cong [OF extends_other [OF new(3)], of k rc]
      by (cases "k = i") auto
  qed
  moreover have "client_logged rs' e' c" if c: "c \<in> set cs" for c
  proof (rule client_logged_extends [OF new(3) i _ e'(3)])
    show "client_logged rs e c" using assms(1) c by (simp add: log_inv_def)
    show "snap_id snapshot \<noteq> i" if "c = C_SubmitEmplace t snapshot entry" for t snapshot entry
      using ids_ok_apart(1) [OF assms(4) c, of "snap_id snapshot"] that assms(3) by auto
    show "sub_id submission \<noteq> i" if "c = C_RestoreEmplace t submission" for t submission
      using that assms(1,3) c by (auto simp: log_inv_def)
  qed
  moreover have "records_ok e'" using e'(1,2) assms(2) sec by (auto simp: records_ok_def section_ok_def)
  ultimately show ?thesis
    using new e' assms(4) ids_ok_frame [of e' e cs] by (intro exI [of _ rs']) (auto simp: log_inv_def)
qed

lemma pending_log_inv:
  "log_inv holds rs e cs \<Longrightarrow> records_ok e \<Longrightarrow> ids_ok e cs \<Longrightarrow>
     \<exists>rs'. log_inv holds (rs @ rs') (cancel_pending jo now pending e) cs"
proof (induction pending arbitrary: e rs)
  case Nil
  then show ?case by (intro exI [of _ "[]"]) (simp add: cancel_pending_def)
next
  case (Cons entry pending)
  have step: "cancel_pending jo now (entry # pending) e =
      cancel_pending jo now pending (cancel_pending_entry jo now entry e)"
    by (simp add: cancel_pending_def)
  show ?case
  proof (cases "find_record (se_id entry) e")
    case None
    then show ?thesis using Cons by (simp add: step cancel_pending_entry_def)
  next
    case (Some r)
    obtain e1 where w: "with_record r (pending_section jo now) e = ((), e1)" by (metis surj_pair unit.exhaust)
    have pub: "published_ok (en_store e ! r)"
      using Cons.prems(2) rec_of_find [OF Some] by (simp add: records_ok_def)
    obtain rs1 where rs1: "log_inv holds rs1 e1 cs" "extends rs rs1 (se_id entry)" "records_ok e1" "ids_ok e1 cs"
      using section_log_inv [OF Cons.prems(1,2) Some Cons.prems(3) w pending_keeps_log] pending.sec_ok [OF pub TrueI]
      by blast
    obtain rs2 where "log_inv holds (rs1 @ rs2) (cancel_pending jo now pending e1) cs"
      using Cons.IH [OF rs1(1,3,4)] by blast
    then show ?thesis using rs1(2) Some w
      by (auto simp: step cancel_pending_entry_def extends_def intro: exI [of _ rs2])
  qed
qed

lemma section_grows:
  assumes "log_inv holds rs e cs" "records_ok e" "find_record i e = Some r" "ids_ok e cs"
    "with_record r f e = (x, e')" "keeps_log holds f (en_store e ! r)"
    "\<And>rec' j'. f (en_store e ! r, en_journal e) = (x, rec', j') \<Longrightarrow> section_ok (en_store e ! r) rec'"
  shows "\<exists>rs'. log_inv holds (rs @ rs') e' cs"
proof -
  obtain rs1 where "log_inv holds rs1 e' cs" "extends rs rs1 i"
    using section_log_inv [OF assms(1-6)] assms(7) by blast
  then show ?thesis by (metis append_Nil2 extends_def)
qed

lemma worker_step_log:
  assumes "worker_step jo (e, w) (e', w')" "engine_inv e (u @ w # v) cs" "log_inv holds rs e cs"
  shows "\<exists>rs'. log_inv holds (rs @ rs') e' cs"
proof -
  note p = inv_parts [OF assms(2)]
  have ok: "records_ok e" "ids_ok e cs" using assms(2) by (auto simp: engine_inv_def core_def records_ok_def)
  have quiet: "\<exists>rs'. log_inv holds (rs @ rs') e1 cs" if "en_journal e1 = en_journal e" "rec_of e1 = rec_of e"
      "\<And>k. find_record k e1 = find_record k e" "en_next_job_id e1 = en_next_job_id e" for e1
    using log_inv_quiet [OF assms(3) that(1-3), of cs] that(4) by (intro exI [of _ "[]"]) simp
  have locked: ?thesis if "find_record i e = Some r" "with_record r f e = (x, e')" "keeps_log holds f (en_store e ! r)"
      "\<And>rec' j'. f (en_store e ! r, en_journal e) = (x, rec', j') \<Longrightarrow> section_ok (en_store e ! r) rec'" for i r f x
    by (rule section_grows [OF assms(3) ok(1) that(1) ok(2) that(2-4)])
  have pub: "published_ok (en_store e ! r)" if "find_record i e = Some r" for i r
    using section_premises(1) [OF p(1) that] .
  show ?thesis
    using assms(1)
  proof (cases rule: worker_step.cases)
    case (start_ok now r d)
    then have r: "find_record (se_id (dis_entry d)) e = Some r" using p(3) by simp
    show ?thesis using start_ok start.sec_ok [OF pub [OF r] TrueI]
      by (intro locked [OF r _ start_keeps_log [OF pub [OF r]], of now True]) (simp_all add: worker_start_def, blast)
  next
    case (start_skip now r d)
    then have r: "find_record (se_id (dis_entry d)) e = Some r" using p(3) by simp
    show ?thesis using start_skip start.sec_ok [OF pub [OF r] TrueI]
      by (intro locked [OF r _ start_keeps_log [OF pub [OF r]], of now False]) (simp_all add: worker_start_def, blast)
  next
    case (run d r t outcome)
    then have r: "find_record (se_id (dis_entry d)) e = Some r" using p(3) by simp
    let ?f = "\<lambda>l. ((), (fst l)\<lparr>jr_task := t\<rparr>, snd l)"
    have "keeps_log holds ?f (en_store e ! r)"
      by (rule keeps_logI) (auto simp: extends_def logged_task)
    then show ?thesis using run pub [OF r]
      by (intro locked [OF r, of ?f "()"]) (auto simp: with_record_def set_task_def section_ok_def)
  next
    case (record_yield now result r d)
    then have r: "find_record (se_id (dis_entry d)) e = Some r" using p(3) by simp
    have st: "rec_state (en_store e ! r) = Running"
      using section_premises(3) [OF p(1) r] record_yield by (auto split: if_splits)
    show ?thesis using record_yield record_.sec_ok [OF pub [OF r] st]
      by (intro locked [OF r _ record_keeps_log [OF pub [OF r] st], of now result True]) (simp_all add: worker_record_def, blast)
  next
    case (record_done now result r d)
    then have r: "find_record (se_id (dis_entry d)) e = Some r" using p(3) by simp
    have st: "rec_state (en_store e ! r) = Running"
      using section_premises(3) [OF p(1) r] record_done by (auto split: if_splits)
    show ?thesis using record_done record_.sec_ok [OF pub [OF r] st]
      by (intro locked [OF r _ record_keeps_log [OF pub [OF r] st], of now result False]) (simp_all add: worker_record_def, blast)
  qed (auto intro!: quiet simp: worker_requeue_def)
qed

lemma log_inv_clients:
  "log_inv holds rs e cs \<Longrightarrow> (\<And>c. c \<in> set cs' \<Longrightarrow> c \<in> set cs \<or> client_logged rs e c) \<Longrightarrow> log_inv holds rs e cs'"
  by (auto simp: log_inv_def)

lemma client_logged_submission:
  assumes "client_logged rs e c" "sub_id sub \<notin># client_reserved c" "\<And>k. find_record k e' = find_record k e"
  shows "client_logged (rs @ [SubmissionRecord now sub]) e' c"
  using assms by (cases c) (auto simp: submissions_append log_state_def)

lemma submit_journal_cases:
  assumes "submit_journal jo snapshot options e = (err, e')" "en_journal e = Some j"
  obtains "err \<noteq> None" "e' = e"
  | sub j' where "append_submission jo sub j = (err, j')" "e' = e\<lparr>en_journal := Some j'\<rparr>" "sub_id sub = snap_id snapshot"
      "sub_priority sub = opt_priority options"
  using assms by (auto simp: submit_journal_def split: option.splits if_splits prod.splits)

lemma submit_journal_log:
  assumes "submit_journal jo (submit_snapshot now i sequence options) options e = (err, e')"
    "engine_inv e ws (b @ c # a)" "log_inv holds rs e (b @ c # a)" "c = C_SubmitJournal t options i sequence"
  shows "\<exists>rs'. log_inv holds (rs @ rs') e' (b @ a) \<and>
    (err = None \<longrightarrow> i \<in> log_ids (rs @ rs') \<and> last_transition (rs @ rs') i = None)"
proof -
  note p = inv_client_parts [OF assms(2)]
  have c: "int32_range (opt_priority options)" "i \<notin> known_ids rs"
    using assms(3,4) by (auto simp: log_inv_def)
  have below: "i < en_next_job_id e"
    using ids_ok_apart(2) [OF p(4), of c i] assms(4) by simp
  obtain j where j: "en_journal e = Some j" "holds j rs" using assms(3) by (auto simp: log_inv_def)
  note frame = journal_frame [OF disjI1 [OF assms(1)]]
  have same: "rec_of e' = rec_of e" "\<And>k. find_record k e' = find_record k e" "en_next_job_id e' = en_next_job_id e"
    using frame rec_of_cong [OF frame(1,2)] by (simp_all add: find_record_def)
  have kept: "log_inv holds rs e' (b @ a)" if "\<exists>j'. en_journal e' = Some j' \<and> holds j' rs"
  proof -
    have "log_inv holds rs (e'\<lparr>en_journal := en_journal e\<rparr>) (b @ a)"
      by (rule log_inv_quiet [OF assms(3)])
        (use same in \<open>auto simp: rec_of_def find_record_def fun_eq_iff\<close>)
    then show ?thesis using that same(3)
      by (auto simp: log_inv_def registry_logged_def rec_of_def find_record_def client_logged_cong [of e' "e'\<lparr>en_journal := en_journal e\<rparr>"])
  qed
  from assms(1) j(1) show ?thesis
  proof (cases rule: submit_journal_cases)
    case 1
    then show ?thesis using kept j by (intro exI [of _ "[]"]) auto
  next
    case (2 sub j')
    then have sub: "append_submission jo sub j = (err, j')" "en_journal e' = Some j'" "sub_id sub = i"
        "int32_range (sub_priority sub)"
      using c(1) by (simp_all add: submit_snapshot_def)
    from submission_appends [OF j(2) sub(4,1)] obtain clock where
      "holds j' (rs @ [SubmissionRecord clock sub]) \<or> err \<noteq> None \<and> holds j' rs" by blast
    then show ?thesis
    proof
      assume "err \<noteq> None \<and> holds j' rs"
      then show ?thesis using kept sub(2) by (intro exI [of _ "[]"]) auto
    next
      assume new: "holds j' (rs @ [SubmissionRecord clock sub])"
      have "registry_logged (rs @ [SubmissionRecord clock sub]) e'"
        using assms(3) sub(3) c(2) below same
        by (auto simp: log_inv_def registry_logged_def log_wf_append known_ids_def submissions_append transitions_append
            logged_cong [of "rs @ [SubmissionRecord clock sub]" _ rs])
      moreover have "client_logged (rs @ [SubmissionRecord clock sub]) e' c'" if "c' \<in> set (b @ a)" for c'
        using client_logged_submission [OF _ _ same(2), of rs c' sub clock] ids_ok_distinct [OF p(4), of i c'] that
          assms(3,4) sub(3) by (auto simp: log_inv_def)
      ultimately show ?thesis using new sub(2,3) last_transition_unknown [OF c(2)]
        by (intro exI [of _ "[SubmissionRecord clock sub]"]) (auto simp: log_inv_def submissions_append)
    qed
  qed
qed

lemma restore_journal_log:
  assumes "restore_journal jo submission e = (err, e')" "engine_inv e ws (b @ c # a)"
    "log_inv holds rs e (b @ c # a)" "c = C_RestoreJournal t submission"
  shows "\<exists>rs'. log_inv holds (rs @ rs') e' (b @ a) \<and>
    (err = None \<longrightarrow> client_logged (rs @ rs') e' (C_RestoreEmplace t submission))"
proof -
  note p = inv_client_parts [OF assms(2)]
  let ?i = "sub_id submission"
  let ?t = "\<lparr>tr_id = ?i, tr_state = Ready, tr_work_units_consumed = 0, tr_message = ''recovered after restart''\<rparr>"
  have c: "?i \<in> log_ids rs" "find_record ?i e = None" using assms(3,4) by (auto simp: log_inv_def)
  obtain j where j: "en_journal e = Some j" "holds j rs" using assms(3) by (auto simp: log_inv_def)
  obtain j' where run: "append_transition jo ?t j = (err, j')" "e' = e\<lparr>en_journal := Some j'\<rparr>"
    using assms(1) j(1) by (auto simp: restore_journal_def split: prod.splits)
  have same: "rec_of e' = rec_of e" "\<And>k. find_record k e' = find_record k e" "en_next_job_id e' = en_next_job_id e"
    using run(2) by (auto simp: rec_of_def find_record_def)
  have alone: "\<not> submitting c'" "\<not> restoring c'" if "c' \<in> set (b @ a)" for c'
    using p(4) that assms(4) by (auto simp: ids_ok_def list_ex_iff filter_empty_conv)
  from transition_appends [OF j(2) run(1)] obtain clock where
    "holds j' (rs @ [TransitionRecord clock ?t]) \<or> err \<noteq> None \<and> holds j' rs" by blast
  then obtain rs' where rs': "holds j' (rs @ rs')" "extends rs (rs @ rs') ?i"
      "err = None \<longrightarrow> log_state (rs @ rs') ?i = Ready"
    by (auto simp: extends_def log_state_def
        intro: that [of "[]"] that [of "[TransitionRecord clock ?t]"])
  have reg: "registry_logged rs e" using assms(3) by (simp add: log_inv_def)
  have "registry_logged (rs @ rs') e'"
    unfolding registry_logged_def
  proof (intro conjI allI impI ballI)
    show "log_wf {} (rs @ rs')" using extends_wf [OF rs'(2) c(1)] registry_loggedD(1) [OF reg] .
    show "k < en_next_job_id e'" if "k \<in> known_ids (rs @ rs')" for k
      using that registry_loggedD(2) [OF reg] extends_known [OF rs'(2) c(1)] same(3) by simp
    fix k rc assume k: "rec_of e' k = Some rc"
    show "k \<in> log_ids (rs @ rs')" using k registry_loggedD(3) [OF reg] same(1) extends_ids [OF rs'(2)] by simp
    have "k \<noteq> ?i" using k c(2) same(1) rec_of_None [of e ?i] by auto
    then have "logged (rs @ rs') k rc = logged rs k rc" by (intro logged_cong extends_other [OF rs'(2)])
    then show "logged (rs @ rs') k rc" using k registry_loggedD(4) [OF reg, of k rc] same(1) by simp
  qed
  moreover have "client_logged (rs @ rs') e' c'" if c': "c' \<in> set (b @ a)" for c'
  proof (rule client_logged_extends [OF rs'(2) c(1) _ same(2)])
    show "client_logged rs e c'" using assms(3) c' by (auto simp: log_inv_def)
    show "snap_id snapshot \<noteq> ?i" if "c' = C_SubmitEmplace u snapshot entry" for u snapshot entry
      using alone(1) [OF c'] that by simp
    show "sub_id sub \<noteq> ?i" if "c' = C_RestoreEmplace u sub" for u sub
      using alone(2) [OF c'] that by simp
  qed
  ultimately show ?thesis
    using rs' run(2) c same(2) extends_ids [OF rs'(2)] by (intro exI [of _ rs']) (auto simp: log_inv_def)
qed

lemma emplace_log:
  assumes "registry_emplace i rec e = (x, r, e')" "engine_inv e ws (b @ c # a)" "log_inv holds rs e (b @ c # a)"
    "submitting c \<or> restoring c" "snap_id (jr_snapshot rec) = i" "se_id (jr_entry rec) = i"
    "i \<in> log_ids rs" "find_record i e = None \<Longrightarrow> logged rs i rec"
  shows "log_inv holds rs e' (b @ a)"
proof -
  note p = inv_client_parts [OF assms(2)]
  have reg: "registry_ok e" using coreD(1) [OF p(1)] .
  have alone: "\<not> restoring c'" if "c' \<in> set (b @ a)" for c'
    using p(4) that assms(4) by (auto simp: ids_ok_def list_ex_iff filter_empty_conv)
  have e': "en_journal e' = en_journal e" "en_next_job_id e' = en_next_job_id e"
    using assms(1) by (auto simp: registry_emplace_def Let_def split: prod.splits)
  have "registry_logged rs e'"
  proof (cases "find_record i e")
    case None
    then have "rec_of e' = (rec_of e)(i \<mapsto> rec)" using registry_emplace_new [OF reg None assms(5,6,1)] by simp
    then show ?thesis using assms(3,7) assms(8) [OF None] e'(2) by (auto simp: log_inv_def registry_logged_def)
  next
    case (Some q)
    then have "rec_of e' = rec_of e" using registry_emplace_old [OF reg _ assms(1)] by simp
    then show ?thesis using assms(3) e'(2) by (auto simp: log_inv_def registry_logged_def)
  qed
  moreover have "client_logged rs e' c'" if "c' \<in> set (b @ a)" for c'
  proof -
    have "client_logged rs e c'" using assms(3) that by (auto simp: log_inv_def)
    then show ?thesis using alone [OF that] by (cases c') simp_all
  qed
  ultimately show ?thesis using assms(3) e'(1) by (simp add: log_inv_def)
qed

lemma client_step_log:
  assumes "client_step jo (e, c) (e', n)" "engine_inv e ws (b @ c # a)" "log_inv holds rs e (b @ c # a)"
  shows "\<exists>rs'. log_inv holds (rs @ rs') e' (b @ continuation n @ a)"
proof -
  note p = inv_client_parts [OF assms(2)]
  have ok: "records_ok e" "ids_ok e (b @ c # a)" using assms(2) by (auto simp: engine_inv_def core_def records_ok_def)
  have c: "client_logged rs e c" and reg: "registry_logged rs e" using assms(3) by (auto simp: log_inv_def)
  have quiet: "\<exists>rs'. log_inv holds (rs @ rs') e1 (b @ continuation n1 @ a)"
    if "en_journal e1 = en_journal e" "rec_of e1 = rec_of e" "\<And>k. find_record k e1 = find_record k e"
      "en_next_job_id e \<le> en_next_job_id e1" "\<And>c'. n1 = Some c' \<Longrightarrow> client_logged rs e1 c'" for e1 n1
  proof -
    have "log_inv holds rs e1 (b @ continuation n1 @ a)"
      by (rule log_inv_quiet [OF assms(3) that(1-4)]) (use that(5) in \<open>auto split: option.splits\<close>)
    then show ?thesis by (intro exI [of _ "[]"]) simp
  qed
  have grown: "\<exists>rs'. log_inv holds (rs @ rs') e1 (b @ continuation n1 @ a)"
    if "log_inv holds (rs @ rs1) e1 (b @ c # a)" "n1 = None \<or> n1 = Some C_Join" for e1 n1 rs1
  proof -
    have "log_inv holds (rs @ rs1) e1 (b @ continuation n1 @ a)"
      by (rule log_inv_clients [OF that(1)]) (use that(2) in auto)
    then show ?thesis by blast
  qed
  have pub: "published_ok (en_store e ! r)" if "find_record i e = Some r" for i r
    using section_premises(1) [OF p(1) that] .
  show ?thesis
    using assms(1)
  proof (cases rule: client_step.cases)
    case (submit_id i t options)
    have "en_next_job_id e < en_next_job_id e + 1" by (rule u64_less_Suc [OF submit_id(3)])
    then show ?thesis using submit_id c registry_loggedD(2) [OF reg, of i]
      by (intro quiet) (auto simp: take_job_id_def rec_of_def find_record_def)
  next
    case (submit_seq sequence t options i)
    then show ?thesis using c by (intro quiet) (auto simp: take_sequence_def rec_of_def find_record_def)
  next
    case (submit_journal_ok snapshot now i sequence options t)
    then obtain rs' where "log_inv holds (rs @ rs') e' (b @ a)" "i \<in> log_ids (rs @ rs')" "last_transition (rs @ rs') i = None"
      using submit_journal_log [OF _ assms(2,3)] by blast
    then show ?thesis using submit_journal_ok by (intro exI [of _ rs']) (auto simp: log_inv_def submit_snapshot_def)
  next
    case (submit_journal_throw now i sequence options error t)
    then show ?thesis using submit_journal_log [OF _ assms(2,3)] by fastforce
  next
    case (submit_emplace snapshot entry t inserted r)
    then have "log_inv holds rs e' (b @ a)" using c p(3)
      by (intro emplace_log [OF _ assms(2,3), of "snap_id snapshot" "JobRecord snapshot entry t" inserted r])
        (auto simp: JobRecord_def logged_def log_state_def)
    then show ?thesis using submit_emplace by (intro exI [of _ "[]"]) (auto simp: log_inv_def)
  next
    case (restore_journal_ok submission t)
    then obtain rs' where "log_inv holds (rs @ rs') e' (b @ a)" "client_logged (rs @ rs') e' (C_RestoreEmplace t submission)"
      using restore_journal_log [OF _ assms(2,3)] by blast
    then show ?thesis using restore_journal_ok by (intro exI [of _ rs']) (auto simp: log_inv_def)
  next
    case (restore_journal_throw submission error t)
    then show ?thesis using restore_journal_log [OF _ assms(2,3)] by fastforce
  next
    case (restore_emplace_ok submission now t r)
    then have "log_inv holds rs e' (b @ a)" using c
      by (intro emplace_log [OF _ assms(2,3), of "sub_id submission"
            "JobRecord (restore_snapshot now submission) (restore_entry submission) t" True r])
        (auto simp: JobRecord_def logged_def restore_snapshot_def restore_entry_def)
    then show ?thesis using restore_emplace_ok by (intro exI [of _ "[]"]) (auto simp: log_inv_def)
  next
    case (restore_emplace_throw submission now t r)
    then have "log_inv holds rs e' (b @ a)" using c
      by (intro emplace_log [OF _ assms(2,3), of "sub_id submission"
            "JobRecord (restore_snapshot now submission) (restore_entry submission) t" False r])
        (auto simp: JobRecord_def logged_def restore_snapshot_def restore_entry_def)
    then show ?thesis using restore_emplace_throw by (intro exI [of _ "[]"]) (auto simp: log_inv_def)
  next
    case (finish r entry message now)
    then have r: "find_record (se_id entry) e = Some r" using p(3) by simp
    obtain e1 where w: "with_record r (finish_section jo now Cancelled message) e = ((), e1)"
      by (metis surj_pair unit.exhaust)
    have "\<exists>rs'. log_inv holds (rs @ rs') e1 (b @ c # a)"
      using finish.sec_ok [OF pub [OF r] TrueI]
      by (intro section_grows [OF assms(3) ok(1) r ok(2) w finish_keeps_log]) blast
    then show ?thesis using finish grown [of _ e1 None] by (auto simp: finish_record_def w)
  next
    case (cancel now r x)
    then obtain i where r: "find_record i e = Some r" using p(3) by auto
    have "\<exists>rs'. log_inv holds (rs @ rs') e' (b @ c # a)"
      using cancel.sec_ok [OF pub [OF r] TrueI] cancel
      by (intro section_grows [OF assms(3) ok(1) r ok(2) _ cancel_keeps_log, of now x])
        (simp_all add: cancel_record_def, blast)
    then show ?thesis using cancel grown [of _ e' None] by auto
  next
    case (cancel_pending pending now)
    then show ?thesis using pending_log_inv [OF assms(3) ok, of now pending] grown [of _ e' "Some C_Join"] by auto
  qed (rule quiet; auto dest!: engine_push_parts shutdown_close_parts
      simp: advance_job_id_def advance_sequence_def shutdown_stop_accepting_def advance_counter_max rec_of_def find_record_def)+
qed

end

end
