(* ===== verification/Kronos_Crash.thy ===== *)
theory Kronos_Crash
  imports Kronos_Write_Ahead
begin

text \<open>
  Runs of the engine on a write-ahead log, and what recovery finds after a crash: the jobs as the engine
  had them in memory.
\<close>

section \<open>Runs\<close>

text \<open>
  The calls the environment makes: priorities are C++ \<open>int\<close> values, and \<open>restore\<close> is called only for a
  submission that the log holds and that is not registered yet.
\<close>

definition calls_ok :: "('j \<Rightarrow> wal_record list \<Rightarrow> bool) \<Rightarrow> ('t, 'j) system \<Rightarrow> bool" where
  "calls_ok holds s \<longleftrightarrow>
     (\<forall>t options. C_SubmitId t options \<in> set (sys_clients s) \<longrightarrow> int32_range (opt_priority options)) \<and>
     (\<forall>t submission. C_RestoreJournal t submission \<in> set (sys_clients s) \<longrightarrow>
        find_record (sub_id submission) (sys_engine s) = None \<and>
        (\<forall>j rs. en_journal (sys_engine s) = Some j \<longrightarrow> holds j rs \<longrightarrow> sub_id submission \<in> log_ids rs))"

definition durable_step :: "'j journal_ops \<Rightarrow> ('j \<Rightarrow> wal_record list \<Rightarrow> bool) \<Rightarrow> ('t, 'j) system \<Rightarrow> ('t, 'j) system \<Rightarrow> bool" where
  "durable_step jo holds s s' \<longleftrightarrow> step jo s s' \<and> calls_ok holds s'"

abbreviation sys_log_inv :: "('j \<Rightarrow> wal_record list \<Rightarrow> bool) \<Rightarrow> wal_record list \<Rightarrow> ('t, 'j) system \<Rightarrow> bool" where
  "sys_log_inv holds rs s \<equiv> log_inv holds rs (sys_engine s) (sys_clients s)"

context log_journal
begin

lemma durable_step_log:
  assumes "durable_step jo holds s s'" "sys_inv s" "sys_log_inv holds rs s"
  shows "\<exists>rs'. sys_log_inv holds (rs @ rs') s'"
proof -
  have step: "step jo s s'" and calls: "calls_ok holds s'" using assms(1) by (simp_all add: durable_step_def)
  have call: "\<exists>rs'. sys_log_inv holds (rs @ rs') s'"
    if "sys_engine s' = sys_engine s" "\<And>c. c \<in> set (sys_clients s') \<Longrightarrow> c \<in> set (sys_clients s) \<or> client_logged rs (sys_engine s) c"
    using log_inv_clients [OF assms(3) that(2)] that(1) by (intro exI [of _ "[]"]) simp
  from step show ?thesis
  proof cases
    case (worker m e' w')
    obtain u v where "sys_workers s = u @ sys_workers s ! m # v" using worker(2) by (metis id_take_nth_drop)
    then have "engine_inv (sys_engine s) (u @ sys_workers s ! m # v) (sys_clients s)" using assms(2) by simp
    then show ?thesis using worker_step_log [OF worker(3)] worker(1) assms(3) by simp
  next
    case (client before c after e' cont)
    then show ?thesis using client_step_log [OF client(3)] assms(2,3) by simp
  next
    case (call_submit task options t)
    then have "int32_range (opt_priority options)" using calls by (auto simp: calls_ok_def)
    then show ?thesis using call_submit by (intro call) auto
  next
    case (call_restore task submission t)
    obtain j where "en_journal (sys_engine s) = Some j" "holds j rs" using assms(3) by (auto simp: log_inv_def)
    then have "client_logged rs (sys_engine s) (C_RestoreJournal t submission)"
      using calls call_restore(1) by (auto simp: calls_ok_def)
    then show ?thesis using call_restore by (intro call) auto
  qed (rule call; auto)+
qed

lemma durable_run_log:
  assumes "(durable_step jo holds)\<^sup>*\<^sup>* s s'" "sys_inv s" "sys_log_inv holds rs s"
  shows "\<exists>rs'. sys_log_inv holds (rs @ rs') s'"
proof -
  have "sys_inv s' \<and> (\<exists>rs'. sys_log_inv holds (rs @ rs') s')"
    using assms
  proof (induction rule: rtranclp_induct)
    case base
    then show ?case by (auto intro: exI [of _ "[]"])
  next
    case (step y z)
    then obtain rs1 where "sys_inv y" "sys_log_inv holds (rs @ rs1) y" by blast
    then show ?case using durable_step_log [OF step(2)] step_inv step(2)
      by (metis append.assoc durable_step_def)
  qed
  then show ?thesis by blast
qed

end

section \<open>Recovery after a crash\<close>

lemma logged_job_of_log:
  assumes "logged rs i rec" "sub_id sub = i"
  shows "wal_failed rec \<or> rj_state (job_of_log rs sub) = rec_state rec \<and>
    (is_terminal (rec_state rec) \<longrightarrow> rj_message (job_of_log rs sub) = snap_message (jr_snapshot rec) \<and>
       rj_work_units_consumed (job_of_log rs sub) = snap_work_units_consumed (jr_snapshot rec))"
  using assms by (auto simp: logged_def log_state_def job_of_log_def fresh_job_def split: option.splits)

lemma crash_log:
  assumes "reachable wal_ops s0" "sys_clients s0 = []" "\<forall>i. find_record i (sys_engine s0) = None"
    "en_journal (sys_engine s0) = Some w0" "wal_holds w0 rs0" "log_wf {} rs0"
    "\<forall>i \<in> known_ids rs0. i < en_next_job_id (sys_engine s0)" "(durable_step wal_ops wal_holds)\<^sup>*\<^sup>* s0 s"
  obtains w rs where "en_journal (sys_engine s) = Some w" "wm_file w = log_text rs" "log_ok rs"
    "\<And>i rec. rec_of (sys_engine s) i = Some rec \<Longrightarrow>
       \<exists>sub \<in> set (submissions rs). sub_id sub = i \<and>
         (wal_failed rec \<or> rj_state (job_of_log rs sub) = rec_state rec \<and>
            (is_terminal (rec_state rec) \<longrightarrow> rj_message (job_of_log rs sub) = snap_message (jr_snapshot rec) \<and>
               rj_work_units_consumed (job_of_log rs sub) = snap_work_units_consumed (jr_snapshot rec)))"
proof -
  have "sys_log_inv wal_holds rs0 s0"
    using assms(2-7) by (auto simp: log_inv_def registry_logged_def rec_of_def)
  then obtain rs' where "sys_log_inv wal_holds (rs0 @ rs') s"
    using wal.durable_run_log [OF assms(8) reachable_inv [OF assms(1)]] by blast
  then obtain rs where inv: "sys_log_inv wal_holds rs s" by blast
  then obtain w where w: "en_journal (sys_engine s) = Some w" "wm_file w = log_text rs" "list_all record_ok rs"
    by (auto simp: log_inv_def wal_holds_def)
  have reg: "registry_logged rs (sys_engine s)" using inv by (simp add: log_inv_def)
  have "log_ok rs" using w(3) registry_loggedD(1) [OF reg] by (simp add: log_ok_def)
  moreover have "\<exists>sub \<in> set (submissions rs). sub_id sub = i \<and>
      (wal_failed rec \<or> rj_state (job_of_log rs sub) = rec_state rec \<and>
         (is_terminal (rec_state rec) \<longrightarrow> rj_message (job_of_log rs sub) = snap_message (jr_snapshot rec) \<and>
            rj_work_units_consumed (job_of_log rs sub) = snap_work_units_consumed (jr_snapshot rec)))"
    if i: "rec_of (sys_engine s) i = Some rec" for i rec
    using registry_loggedD(3) [OF reg i] logged_job_of_log [OF registry_loggedD(4) [OF reg i]] by fastforce
  ultimately show thesis using that w(1,2) by blast
qed

text \<open>
  C2 (a crash loses nothing).  Run the engine on a write-ahead log from a state without jobs whose job counter
  is above every ID in the log, through any interleaving of its threads, and stop it anywhere, also in
  the middle of an append (the torn bytes \<open>torn\<close>).  Recovering the log then succeeds, and reports every job that
  was registered in memory, in the state it had there, and for a finished job with the message and
  work of its result.  The only exception are jobs that the engine itself failed because the log threw.
\<close>

theorem crash_loses_nothing:
  assumes "reachable wal_ops s0" "sys_clients s0 = []" "\<forall>i. find_record i (sys_engine s0) = None"
    "en_journal (sys_engine s0) = Some w0" "wal_holds w0 rs0" "log_wf {} rs0"
    "\<forall>i \<in> known_ids rs0. i < en_next_job_id (sys_engine s0)"
    "(durable_step wal_ops wal_holds)\<^sup>*\<^sup>* s0 s" "CHR 0x0A \<notin> set torn"
  shows "\<exists>w report. en_journal (sys_engine s) = Some w \<and>
    wal_recover path True None None (wm_file w @ torn) = (wm_file w, Inr report) \<and>
    (\<forall>i rec. rec_of (sys_engine s) i = Some rec \<longrightarrow>
       (\<exists>job \<in> set (rep_jobs report). sub_id (rj_submission job) = i \<and>
          (wal_failed rec \<or> rj_state job = rec_state rec \<and>
             (is_terminal (rec_state rec) \<longrightarrow> rj_message job = snap_message (jr_snapshot rec) \<and>
                rj_work_units_consumed job = snap_work_units_consumed (jr_snapshot rec)))))"
proof -
  obtain w rs where w: "en_journal (sys_engine s) = Some w" "wm_file w = log_text rs" "log_ok rs"
    and jobs: "\<And>i rec. rec_of (sys_engine s) i = Some rec \<Longrightarrow>
       \<exists>sub \<in> set (submissions rs). sub_id sub = i \<and>
         (wal_failed rec \<or> rj_state (job_of_log rs sub) = rec_state rec \<and>
            (is_terminal (rec_state rec) \<longrightarrow> rj_message (job_of_log rs sub) = snap_message (jr_snapshot rec) \<and>
               rj_work_units_consumed (job_of_log rs sub) = snap_work_units_consumed (jr_snapshot rec)))"
    using crash_log [OF assms(1-8)] by blast
  have rec: "wal_recover path True None None (wm_file w @ torn) = (wm_file w, Inr (log_report rs (torn \<noteq> [])))"
    using recover_log_text [OF w(3) assms(9), of path] by (simp add: w(2))
  have "rj_submission (job_of_log rs sub) = sub" for sub
    by (simp add: job_of_log_def fresh_job_def split: option.splits)
  then have "\<exists>job \<in> set (rep_jobs (log_report rs (torn \<noteq> []))). sub_id (rj_submission job) = i \<and>
      (wal_failed rec \<or> rj_state job = rec_state rec \<and>
         (is_terminal (rec_state rec) \<longrightarrow> rj_message job = snap_message (jr_snapshot rec) \<and>
            rj_work_units_consumed job = snap_work_units_consumed (jr_snapshot rec)))"
    if "rec_of (sys_engine s) i = Some rec" for i rec
    using jobs [OF that] by (auto simp: log_report_def)
  then show ?thesis using w(1) rec by blast
qed

text \<open>An engine on an empty log, and the run in which one job is submitted up to its registration.\<close>

definition durable_wal :: "string \<Rightarrow> wal_manager" where
  "durable_wal contents = \<lparr>wm_path = ''wal'', wm_file = contents, wm_answers = [],
     wm_later = \<lparr>ans_writes = [], ans_fsync = None, ans_now = 1700000000000\<rparr>\<rparr>"

definition durable_options :: submission_options where
  "durable_options = \<lparr>opt_name = ''demo'', opt_priority = 0, opt_estimated_work_units = 5,
     opt_durable_spec = Some \<lparr>spec_type = ''prime'', spec_payload = ''6''\<rparr>\<rparr>"

definition durable_engine :: "'t job_record list \<Rightarrow> u64 \<Rightarrow> u64 \<Rightarrow> string \<Rightarrow> ('t, wal_manager) engine" where
  "durable_engine store i sequence contents =
     \<lparr>en_queue = \<lparr>tq_scheduler = FifoS [], tq_config = \<lparr>cfg_kind = Fifo, cfg_quantum = 100\<rparr>, tq_closed = False\<rparr>,
      en_worker_count = 1, en_store = store, en_records = (if store = [] then [] else [(1, 0)]),
      en_next_job_id = i, en_next_sequence = sequence, en_accepting = True, en_journal = Some (durable_wal contents)\<rparr>"

definition durable_system :: "'t job_record list \<Rightarrow> u64 \<Rightarrow> u64 \<Rightarrow> string \<Rightarrow> 't client list \<Rightarrow> ('t, wal_manager) system" where
  "durable_system store i sequence contents cs =
     \<lparr>sys_engine = durable_engine store i sequence contents, sys_workers = [W_Pop], sys_clients = cs\<rparr>"

lemma durable_initial: "reachable wal_ops (durable_system [] 1 0 [] [])"
proof -
  have "initial able_platform \<lparr>ec_worker_count = 1, ec_scheduler = \<lparr>cfg_kind = Fifo, cfg_quantum = 100\<rparr>,
      ec_journal = Some (durable_wal [])\<rparr> (durable_system [] 1 0 [] [])"
    by (simp add: initial_def durable_system_def durable_engine_def TaskEngine_Inr_iff TaskQueue_def resolved_worker_count_def)
  then show ?thesis unfolding reachable_def by blast
qed

lemma durable_append:
  "\<exists>contents. submit_journal wal_ops (submit_snapshot 10 1 0 durable_options) durable_options (durable_engine [] 2 1 []) =
     (None, durable_engine [] 2 1 contents)"
proof -
  let ?line = "with_checksum (submission_prefix 1700000000000 \<lparr>sub_id = 1, sub_submission_sequence = 0, sub_name = ''demo'',
    sub_priority = 0, sub_estimated_work_units = 5, sub_task = \<lparr>spec_type = ''prime'', spec_payload = ''6''\<rparr>\<rparr>)"
  have "write_loop [Wrote (length ?line)] ?line [] = (?line, Appended)"
    using write_loop_all [of "[]" ?line "length ?line" "[]"] by simp
  then show ?thesis
    by (simp add: submit_journal_def durable_engine_def durable_wal_def durable_options_def submit_snapshot_def wal_ops_def
        manager_append_submission_def next_answer_def wal_append_submission_def wal_append_def)
qed

lemma durable_run:
  fixes t :: 't
  shows "\<exists>contents. (durable_step wal_ops wal_holds)\<^sup>*\<^sup>* (durable_system [] 1 0 [] [])
     (durable_system [JobRecord (submit_snapshot 10 1 0 durable_options) (submit_entry 1 0 durable_options) t] 2 1 contents
        [C_Push 0 (submit_entry 1 0 durable_options) ''submission raced with engine shutdown''])"
proof -
  obtain contents where app: "submit_journal wal_ops (submit_snapshot 10 1 0 durable_options) durable_options
      (durable_engine [] 2 1 [] :: ('t, wal_manager) engine) = (None, durable_engine [] 2 1 contents)" using durable_append by blast
  let ?rec = "JobRecord (submit_snapshot 10 1 0 durable_options) (submit_entry 1 0 durable_options) t"
  let ?s0 = "durable_system [] 1 0 [] []" and ?s1 = "durable_system [] 1 0 [] [C_SubmitId t durable_options]"
  let ?s2 = "durable_system [] 2 0 [] [C_SubmitSeq t durable_options 1]"
  let ?s3 = "durable_system [] 2 1 [] [C_SubmitJournal t durable_options 1 0]"
  let ?s4 = "durable_system [] 2 1 contents
    [C_SubmitEmplace t (submit_snapshot 10 1 0 durable_options) (submit_entry 1 0 durable_options)]"
  let ?s5 = "durable_system [?rec] 2 1 contents [C_Push 0 (submit_entry 1 0 durable_options) ''submission raced with engine shutdown'']"
  have "step wal_ops ?s0 ?s1"
    using step.call_submit [of "Some t" durable_options ?s0 t wal_ops]
    by (simp add: durable_system_def durable_engine_def submit_check_def durable_options_def)
  moreover have "step wal_ops ?s1 ?s2"
    by (rule client_stepI [OF client_step.submit_id])
      (simp_all add: durable_system_def durable_engine_def take_job_id_def)
  moreover have "step wal_ops ?s2 ?s3"
    by (rule client_stepI [OF client_step.submit_seq])
      (simp_all add: durable_system_def durable_engine_def take_sequence_def)
  moreover have "step wal_ops ?s3 ?s4"
    by (rule client_stepI [OF client_step.submit_journal_ok [OF refl app]]) (simp_all add: durable_system_def)
  moreover have "step wal_ops ?s4 ?s5"
    by (rule client_stepI [OF client_step.submit_emplace])
      (simp_all add: durable_system_def durable_engine_def registry_emplace_def hm_emplace_def submit_snapshot_def)
  moreover have "calls_ok wal_holds s" if "s \<in> {?s1, ?s2, ?s3, ?s4, ?s5}" for s
    using that by (auto simp: calls_ok_def durable_system_def durable_options_def in_range_def)
  ultimately have "durable_step wal_ops wal_holds ?s0 ?s1" "durable_step wal_ops wal_holds ?s1 ?s2"
    "durable_step wal_ops wal_holds ?s2 ?s3" "durable_step wal_ops wal_holds ?s3 ?s4" "durable_step wal_ops wal_holds ?s4 ?s5"
    by (simp_all add: durable_step_def)
  then have "(durable_step wal_ops wal_holds)\<^sup>*\<^sup>* ?s0 ?s5"
    by (meson converse_rtranclp_into_rtranclp rtranclp.rtrancl_refl)
  then show ?thesis by blast
qed

theorem crash_loses_nothing_witness:
  "\<exists>(s :: (unit, wal_manager) system) w report. (durable_step wal_ops wal_holds)\<^sup>*\<^sup>* (durable_system [] 1 0 [] []) s \<and>
     en_journal (sys_engine s) = Some w \<and>
     wal_recover ''wal'' True None None (wm_file w @ ''K1|T|17'') = (wm_file w, Inr report) \<and>
     (\<exists>job \<in> set (rep_jobs report). sub_id (rj_submission job) = 1 \<and> rj_state job = Ready)"
proof -
  let ?s0 = "durable_system [] 1 0 [] [] :: (unit, wal_manager) system"
  let ?rec = "JobRecord (submit_snapshot 10 1 0 durable_options) (submit_entry 1 0 durable_options) ()"
  obtain contents where run: "(durable_step wal_ops wal_holds)\<^sup>*\<^sup>* ?s0 (durable_system [?rec] 2 1 contents
      [C_Push 0 (submit_entry 1 0 durable_options) ''submission raced with engine shutdown''])"
    using durable_run [of "()"] by blast
  have start: "sys_clients ?s0 = []" "\<forall>i. find_record i (sys_engine ?s0) = None"
      "en_journal (sys_engine ?s0) = Some (durable_wal [])" "wal_holds (durable_wal []) []" "log_wf {} []"
      "\<forall>i \<in> known_ids []. i < en_next_job_id (sys_engine ?s0)" "CHR 0x0A \<notin> set ''K1|T|17''"
    by (simp_all add: durable_system_def durable_engine_def find_record_def wal_holds_def durable_wal_def
        answer_atomic_def in_range_def known_ids_def)
  have rec: "rec_of (durable_engine [?rec] 2 1 contents) 1 = Some ?rec" "rec_state ?rec = Ready" "\<not> wal_failed ?rec"
    by (simp_all add: rec_of_def durable_engine_def find_record_def hm_find_def JobRecord_def submit_snapshot_def wal_failed_def)
  from crash_loses_nothing [OF durable_initial start(1-6) run start(7), of "''wal''"]
  show ?thesis using run rec by (fastforce simp: durable_system_def)
qed

end
