(* ===== verification/Kronos_Protocol.thy ===== *)
theory Kronos_Protocol
  imports Kronos_Text
begin

text \<open>
  The wire protocol of \<open>src/protocol.cpp\<close>: one message is one line of tab-separated fields, the
  payload fields in hexadecimal; and the tokenizer of the shell's command lines.  The theorems
  show that decoding inverts encoding for every message that can be encoded, that the decoder accepts exactly
  the texts of a grammar stated without it, that an encoded
  message is a single line (so the newline framing of the FIFOs is safe), and that any list of
  non-empty tokens can be written as a command line that the tokenizer reads back.
\<close>

record protocol_message =
  msg_request_id :: u64
  msg_kind :: string
  msg_fields :: "string list"

definition protocol_version :: string where
  "protocol_version = ''KIPC1''"

abbreviation tab :: char where "tab \<equiv> CHR 0x09"
abbreviation newline :: char where "newline \<equiv> CHR 0x0A"
abbreviation carriage_return :: char where "carriage_return \<equiv> CHR 0x0D"

definition protocol_hex_encode :: "string \<Rightarrow> string" where
  "protocol_hex_encode s = hex_encode s"

definition protocol_hex_decode :: "string \<Rightarrow> string result" where
  "protocol_hex_decode s =
     hex_decode (invalid_argument ''protocol field has odd-length hex encoding'')
       (invalid_argument ''protocol field has invalid hex encoding'') s"

definition split_tabs :: "string \<Rightarrow> string list" where
  "split_tabs s = split_on tab s"

fun encode_fields :: "string list \<Rightarrow> string" where
  "encode_fields [] = []"
| "encode_fields (f # fs) = [tab] @ protocol_hex_encode f @ encode_fields fs"

definition encode_message :: "protocol_message \<Rightarrow> string result" where
  "encode_message message =
     (if msg_kind message = [] \<or> set (msg_kind message) \<inter> {tab, carriage_return, newline} \<noteq> {}
      then Inl (invalid_argument ''protocol message kind is invalid'')
      else Inr (protocol_version @ [tab] @ u64_to_string (msg_request_id message) @ [tab] @
                msg_kind message @ encode_fields (msg_fields message) @ [newline]))"

definition remove_trailing :: "char \<Rightarrow> string \<Rightarrow> string" where
  "remove_trailing c s = (if s \<noteq> [] \<and> last s = c then butlast s else s)"

fun decode_fields :: "string list \<Rightarrow> string list result" where
  "decode_fields [] = Inr []"
| "decode_fields (f # fs) =
     (case protocol_hex_decode f of
        Inl e \<Rightarrow> Inl e
      | Inr d \<Rightarrow> map_sum (\<lambda>e. e) (Cons d) (decode_fields fs))"

definition decode_message :: "string \<Rightarrow> protocol_message result" where
  "decode_message encoded_line =
     (let line = remove_trailing carriage_return (remove_trailing newline encoded_line);
          parts = split_tabs line in
      if length parts < 3 \<or> parts ! 0 \<noteq> protocol_version \<or> parts ! 2 = []
      then Inl (invalid_argument ''invalid IPC protocol message'')
      else case parse_u64 (parts ! 1) of
             None \<Rightarrow> Inl (invalid_argument ''invalid IPC request ID'')
           | Some request_id \<Rightarrow>
               (case decode_fields (drop 3 parts) of
                  Inl e \<Rightarrow> Inl e
                | Inr ds \<Rightarrow>
                    Inr \<lparr>msg_request_id = request_id, msg_kind = parts ! 2, msg_fields = ds\<rparr>))"

section \<open>The command tokenizer\<close>

record tokenizer =
  tk_tokens :: "string list"
  tk_current :: string
  tk_quote :: char
  tk_escaped :: bool

text \<open>\<open>std::isspace\<close> in the "C" locale: blank, tab, newline, vertical tab, form feed, return.\<close>

definition is_space :: "char \<Rightarrow> bool" where
  "is_space c \<longleftrightarrow> c \<in> {CHR '' '', CHR 0x09, CHR 0x0A, CHR 0x0B, CHR 0x0C, CHR 0x0D}"

definition tokenize_step :: "tokenizer \<Rightarrow> char \<Rightarrow> tokenizer" where
  "tokenize_step st c =
     (if tk_escaped st then st\<lparr>tk_current := tk_current st @ [c], tk_escaped := False\<rparr>
      else if c = CHR 0x5C then st\<lparr>tk_escaped := True\<rparr>
      else if tk_quote st \<noteq> CHR 0x00 then
        (if c = tk_quote st then st\<lparr>tk_quote := CHR 0x00\<rparr>
         else st\<lparr>tk_current := tk_current st @ [c]\<rparr>)
      else if c = CHR 0x27 \<or> c = CHR 0x22 then st\<lparr>tk_quote := c\<rparr>
      else if is_space c then
        (if tk_current st \<noteq> []
         then st\<lparr>tk_tokens := tk_tokens st @ [tk_current st], tk_current := []\<rparr> else st)
      else st\<lparr>tk_current := tk_current st @ [c]\<rparr>)"

definition tokenize_command :: "string \<Rightarrow> string list result" where
  "tokenize_command command_line =
     (let st = foldl tokenize_step
                 \<lparr>tk_tokens = [], tk_current = [], tk_quote = CHR 0x00, tk_escaped = False\<rparr> command_line in
      if tk_escaped st \<or> tk_quote st \<noteq> CHR 0x00
      then Inl (invalid_argument ''unfinished escape or quote in command'')
      else Inr (if tk_current st \<noteq> [] then tk_tokens st @ [tk_current st] else tk_tokens st))"

section \<open>Message round trip\<close>

lemma protocol_hex_decode_encode: "protocol_hex_decode (protocol_hex_encode s) = Inr s"
  by (simp add: protocol_hex_decode_def protocol_hex_encode_def text_simps)

lemma decode_fields_encode: "decode_fields (map protocol_hex_encode fs) = Inr fs"
  by (induction fs) (simp_all add: protocol_hex_decode_encode)

lemma protocol_version_plain [simp]: "c \<in> separators \<Longrightarrow> c \<notin> set protocol_version"
  by (auto simp: protocol_version_def separators_def)

lemma tab_separator [simp]: "tab \<in> separators" "newline \<in> separators" "carriage_return \<in> separators"
  by (simp_all add: separators_def)

text \<open>The line without its newline, as a join of fields.\<close>

definition message_fields :: "protocol_message \<Rightarrow> string list" where
  "message_fields m = protocol_version # u64_to_string (msg_request_id m) # msg_kind m #
     map protocol_hex_encode (msg_fields m)"

lemma encode_fields_join: "k @ encode_fields fs = join_with tab (k # map protocol_hex_encode fs)"
proof (induction fs arbitrary: k)
  case (Cons f fs)
  then show ?case by simp
qed simp

lemma encode_message_Inr:
  assumes "encode_message m = Inr s"
  shows "s = join_with tab (message_fields m) @ [newline]"
    and "msg_kind m \<noteq> []" and "set (msg_kind m) \<inter> {tab, carriage_return, newline} = {}"
  using assms by (auto simp: encode_message_def message_fields_def encode_fields_join split: if_splits)

lemma message_fields_plain:
  assumes "set (msg_kind m) \<inter> {tab, carriage_return, newline} = {}" and "f \<in> set (message_fields m)"
    and "c \<in> {tab, carriage_return, newline}"
  shows "c \<notin> set f"
proof -
  have "c \<in> separators" using assms(3) by auto
  with assms show ?thesis
    by (auto simp: message_fields_def protocol_hex_encode_def
        dest: u64_field.no_separator hex_field.no_separator)
qed

lemma encoded_line_plain:
  assumes "set (msg_kind m) \<inter> {tab, carriage_return, newline} = {}"
  shows "newline \<notin> set (join_with tab (message_fields m))"
    and "carriage_return \<notin> set (join_with tab (message_fields m))"
  using set_join_with [of tab "message_fields m"] message_fields_plain [OF assms] by fastforce+

lemma decode_of_fields:
  assumes "set (msg_kind m) \<inter> {tab, carriage_return, newline} = {}" and "msg_kind m \<noteq> []"
  shows "decode_message (join_with tab (message_fields m) @ [newline]) = Inr m"
proof -
  let ?line = "join_with tab (message_fields m)"
  have "remove_trailing newline (?line @ [newline]) = ?line"
    by (simp add: remove_trailing_def)
  moreover have "remove_trailing carriage_return ?line = ?line"
    using encoded_line_plain [OF assms(1)] by (auto simp: remove_trailing_def dest: last_in_set)
  moreover have "split_tabs ?line = message_fields m"
    unfolding split_tabs_def using message_fields_plain [OF assms(1)]
    by (intro split_join) (auto simp: message_fields_def)
  ultimately have "decode_message (?line @ [newline]) =
      (case parse_u64 (message_fields m ! 1) of
         None \<Rightarrow> Inl (invalid_argument ''invalid IPC request ID'')
       | Some rid \<Rightarrow> (case decode_fields (drop 3 (message_fields m)) of
           Inl e \<Rightarrow> Inl e
         | Inr ds \<Rightarrow> Inr \<lparr>msg_request_id = rid, msg_kind = message_fields m ! 2, msg_fields = ds\<rparr>))"
    using assms(2) by (simp only: decode_message_def Let_def) (simp add: message_fields_def)
  then show ?thesis
    by (simp add: message_fields_def u64_field.dec_enc decode_fields_encode)
qed

text \<open>C33 (wire round trip).  Every message that \<open>encode_message\<close> accepts, whatever bytes its fields
  hold, is decoded by \<open>decode_message\<close> to the same request id, kind and fields; and the encoded
  text is exactly one line, with its only newline at the end.\<close>

theorem message_round_trip:
  assumes "encode_message m = Inr s"
  shows "decode_message s = Inr m \<and> s \<noteq> [] \<and> last s = newline \<and> newline \<notin> set (butlast s)"
  using encode_message_Inr [OF assms] decode_of_fields encoded_line_plain(1) by simp

theorem message_round_trip_witness:
  "\<exists>s. encode_message \<lparr>msg_request_id = 17, msg_kind = ''OK'', msg_fields = [[tab, newline], []]\<rparr> = Inr s \<and>
     decode_message s = Inr \<lparr>msg_request_id = 17, msg_kind = ''OK'', msg_fields = [[tab, newline], []]\<rparr>"
proof -
  let ?m = "\<lparr>msg_request_id = 17, msg_kind = ''OK'', msg_fields = [[tab, newline], []]\<rparr>"
  obtain s where s: "encode_message ?m = Inr s" by (simp add: encode_message_def)
  then show ?thesis using message_round_trip [OF s] by blast
qed

lemma protocol_hex_decode_error: "protocol_hex_decode s = Inl e \<Longrightarrow> \<exists>w. e = invalid_argument w"
proof -
  have "hex_decode_loop bad t = Inl e \<Longrightarrow> e = bad" for bad t
  proof (induction bad t rule: hex_decode_loop.induct)
    case (3 bad h l cs)
    then show ?case by (cases "hex_decode_loop bad cs") (auto split: if_splits)
  qed auto
  then show "protocol_hex_decode s = Inl e \<Longrightarrow> \<exists>w. e = invalid_argument w"
    by (auto simp: protocol_hex_decode_def hex_decode_def split: if_splits)
qed

lemma decode_fields_error: "decode_fields fs = Inl e \<Longrightarrow> \<exists>w. e = invalid_argument w"
proof (induction fs)
  case (Cons f fs)
  then show ?case
    by (cases "decode_fields fs") (auto split: sum.splits dest: protocol_hex_decode_error)
qed simp

text \<open>
  The grammar of a protocol line, stated without the decoder.  \<open>terminated_line s line\<close>: the text \<open>s\<close>
  is \<open>line\<close> with an optional carriage return and an optional newline after it (both taken off when
  they are there).
\<close>

definition terminated_line :: "string \<Rightarrow> string \<Rightarrow> bool" where
  "terminated_line s line \<longleftrightarrow>
     s = line @ [carriage_return, newline] \<or>
     s = line @ [newline] \<and> (\<forall>u. line \<noteq> u @ [carriage_return]) \<or>
     s = line @ [carriage_return] \<or>
     s = line \<and> (\<forall>u. line \<noteq> u @ [carriage_return] \<and> line \<noteq> u @ [newline])"

definition message_text :: "string \<Rightarrow> protocol_message \<Rightarrow> bool" where
  "message_text s m \<longleftrightarrow>
     (\<exists>line zeros payload.
        terminated_line s line \<and>
        line = join_with tab (''KIPC1'' # (replicate zeros CHR ''0'' @ u64_to_string (msg_request_id m)) #
          msg_kind m # payload) \<and>
        msg_kind m \<noteq> [] \<and> tab \<notin> set (msg_kind m) \<and> list_all2 hex_denotes payload (msg_fields m))"

lemma remove_trailing_Nil [simp]: "remove_trailing c [] = []"
  by (simp add: remove_trailing_def)

lemma terminated_line_iff:
  "terminated_line s line \<longleftrightarrow> line = remove_trailing carriage_return (remove_trailing newline s)"
proof (cases s rule: rev_cases)
  case Nil
  then show ?thesis by (auto simp: terminated_line_def)
next
  case (snoc t d)
  show ?thesis
  proof (cases "d = newline")
    case True
    then show ?thesis using snoc
      by (cases t rule: rev_cases) (auto simp: terminated_line_def remove_trailing_def butlast_append)
  next
    case False
    then show ?thesis using snoc by (auto simp: terminated_line_def remove_trailing_def)
  qed
qed

lemma protocol_hex_decode_iff: "protocol_hex_decode f = Inr d \<longleftrightarrow> hex_denotes f d"
  by (simp add: protocol_hex_decode_def hex_decode_iff)

lemma decode_fields_iff: "decode_fields fs = Inr ds \<longleftrightarrow> list_all2 hex_denotes fs ds"
proof (induction fs arbitrary: ds)
  case (Cons f fs)
  show ?case
    using Cons by (cases "protocol_hex_decode f"; cases "decode_fields fs")
      (auto simp: list_all2_Cons1 protocol_hex_decode_iff [symmetric])
qed auto

lemma length_ge_3: "\<not> length xs < 3 \<longleftrightarrow> (\<exists>a b c ys. xs = a # b # c # ys)"
  by (cases xs; cases "tl xs"; cases "tl (tl xs)") auto

lemma decode_message_Inr_iff:
  "decode_message s = Inr m \<longleftrightarrow>
     (\<exists>id_text payload.
        split_tabs (remove_trailing carriage_return (remove_trailing newline s)) =
          protocol_version # id_text # msg_kind m # payload \<and>
        msg_kind m \<noteq> [] \<and> parse_u64 id_text = Some (msg_request_id m) \<and>
        decode_fields payload = Inr (msg_fields m))"
proof -
  define parts where "parts = split_tabs (remove_trailing carriage_return (remove_trailing newline s))"
  show ?thesis
    unfolding decode_message_def Let_def parts_def [symmetric]
    by (cases m) (auto simp: length_ge_3 split: option.splits sum.splits)
qed

lemma decode_message_iff: "decode_message s = Inr m \<longleftrightarrow> message_text s m"
proof -
  have split: "split_tabs line = protocol_version # id_text # msg_kind m # payload \<longleftrightarrow>
      line = join_with tab (''KIPC1'' # id_text # msg_kind m # payload) \<and> tab \<notin> set (msg_kind m)"
    if "parse_u64 id_text = Some (msg_request_id m)" "list_all2 hex_denotes payload (msg_fields m)"
    for line id_text payload
  proof -
    have "tab \<notin> set id_text" using that(1) digit_not_separator [of tab]
      by (auto simp: parse_u64_Some_iff)
    moreover have "\<forall>f \<in> set payload. tab \<notin> set f"
      using that(2) hex_denotes_plain [of _ _ tab]
      by (metis in_set_conv_nth list_all2_conv_all_nth tab_separator(1))
    ultimately show ?thesis
      unfolding split_tabs_def by (subst split_on_eq_iff) (auto simp: protocol_version_def)
  qed
  show ?thesis
    unfolding decode_message_Inr_iff message_text_def terminated_line_iff decode_fields_iff
    using split by (metis parse_u64_iff)
qed

text \<open>C34 (what a well-formed line is).  \<open>decode_message\<close> returns a message exactly for the texts of
  the grammar \<open>message_text\<close>: a line, with an optional carriage return and an optional newline at
  its end, of tab-separated fields, which are \<open>KIPC1\<close>, a decimal request id below \<open>2^64\<close> (leading
  zeros allowed), a non-empty kind, and payload fields of hexadecimal digits, two per byte in either
  case; the message returned is the one the text denotes, and a text denotes no other.  For every
  other text it throws \<open>std::invalid_argument\<close>.\<close>

theorem decode_message_strict:
  "case decode_message s of
     Inl e \<Rightarrow> (\<exists>w. e = invalid_argument w) \<and> (\<forall>m. \<not> message_text s m)
   | Inr m \<Rightarrow> (\<forall>m'. message_text s m' \<longleftrightarrow> m' = m)"
proof (cases "decode_message s")
  case (Inl e)
  then have "\<exists>w. e = invalid_argument w"
    by (auto simp: decode_message_def Let_def split: if_splits option.splits sum.splits
        dest: decode_fields_error)
  with Inl show ?thesis by (simp add: decode_message_iff [symmetric])
next
  case (Inr m)
  then show ?thesis by (auto simp: decode_message_iff [symmetric])
qed

theorem decode_message_strict_witness:
  "(\<forall>m. message_text (''KIPC1'' @ [tab] @ ''007'' @ [tab] @ ''OK'' @ [tab] @ ''4a4B'' @ [newline]) m \<longleftrightarrow>
      m = \<lparr>msg_request_id = 7, msg_kind = ''OK'', msg_fields = [''JK'']\<rparr>) \<and>
   (\<forall>m. \<not> message_text (''KIPC1'' @ [tab] @ ''7'' @ [tab] @ ''OK'' @ [tab] @ ''4g'' @ [newline]) m)"
proof -
  have parts: "split_tabs (remove_trailing carriage_return (remove_trailing newline
      (''KIPC1'' @ [tab] @ a @ [tab] @ ''OK'' @ [tab] @ b @ [newline]))) = [''KIPC1'', a, ''OK'', b]"
    if "tab \<notin> set a" "tab \<notin> set b" "b \<noteq> []" "last b \<noteq> carriage_return" for a b
  proof -
    have "remove_trailing carriage_return (remove_trailing newline
        (''KIPC1'' @ [tab] @ a @ [tab] @ ''OK'' @ [tab] @ b @ [newline])) =
        join_with tab [''KIPC1'', a, ''OK'', b]"
      using that by (simp add: remove_trailing_def butlast_append)
    then show ?thesis unfolding split_tabs_def using that by (subst split_on_eq_iff) auto
  qed
  have line_parts:
    "split_tabs (remove_trailing carriage_return (remove_trailing newline
      (''KIPC1'' @ [tab] @ ''007'' @ [tab] @ ''OK'' @ [tab] @ ''4a4B'' @ [newline]))) =
      [''KIPC1'', ''007'', ''OK'', ''4a4B'']"
    "split_tabs (remove_trailing carriage_return (remove_trailing newline
      (''KIPC1'' @ [tab] @ ''7'' @ [tab] @ ''OK'' @ [tab] @ ''4g'' @ [newline]))) =
      [''KIPC1'', ''7'', ''OK'', ''4g'']"
    by (rule parts; simp)+
  have ids: "parse_u64 ''007'' = Some 7" "parse_u64 ''7'' = Some 7"
    by (simp_all add: parse_u64_def from_chars_u64_def digits_value_def is_digit_def)
  have hex: "protocol_hex_decode ''4a4B'' = Inr ''JK''"
    by (simp add: protocol_hex_decode_iff hex_digit_code)
  have bad: "protocol_hex_decode ''4g'' = Inl (invalid_argument ''protocol field has invalid hex encoding'')"
    by (simp add: protocol_hex_decode_def hex_decode_def hex_value_def less_eq_char_def)
  have "decode_message (''KIPC1'' @ [tab] @ ''007'' @ [tab] @ ''OK'' @ [tab] @ ''4a4B'' @ [newline]) =
      Inr \<lparr>msg_request_id = 7, msg_kind = ''OK'', msg_fields = [''JK'']\<rparr>"
    unfolding decode_message_def Let_def line_parts
    by (simp add: protocol_version_def ids hex)
  moreover have "decode_message (''KIPC1'' @ [tab] @ ''7'' @ [tab] @ ''OK'' @ [tab] @ ''4g'' @ [newline]) =
      Inl (invalid_argument ''protocol field has invalid hex encoding'')"
    unfolding decode_message_def Let_def line_parts
    by (simp add: protocol_version_def ids bad)
  ultimately show ?thesis
    using decode_message_strict [of "''KIPC1'' @ [tab] @ ''007'' @ [tab] @ ''OK'' @ [tab] @ ''4a4B'' @ [newline]"]
      decode_message_strict [of "''KIPC1'' @ [tab] @ ''7'' @ [tab] @ ''OK'' @ [tab] @ ''4g'' @ [newline]"]
    by simp
qed


section \<open>Tokens of a command line\<close>

text \<open>A token written with every character escaped, and a command line of such tokens.\<close>

definition escape_token :: "string \<Rightarrow> string" where
  "escape_token t = concat (map (\<lambda>c. [CHR 0x5C, c]) t)"

definition command_line_of :: "string list \<Rightarrow> string" where
  "command_line_of ts = concat (map (\<lambda>t. escape_token t @ '' '') ts)"

abbreviation tokenizer_at :: "string list \<Rightarrow> string \<Rightarrow> tokenizer" where
  "tokenizer_at toks cur \<equiv> \<lparr>tk_tokens = toks, tk_current = cur, tk_quote = CHR 0x00, tk_escaped = False\<rparr>"

lemma tokenize_escaped:
  "foldl tokenize_step (tokenizer_at toks cur) (escape_token t) = tokenizer_at toks (cur @ t)"
  by (induction t arbitrary: cur) (simp_all add: escape_token_def tokenize_step_def)

lemma tokenize_line:
  "[] \<notin> set ts \<Longrightarrow>
     foldl tokenize_step (tokenizer_at toks []) (command_line_of ts) = tokenizer_at (toks @ ts) []"
proof (induction ts arbitrary: toks)
  case (Cons t ts)
  have "foldl tokenize_step (tokenizer_at toks []) (escape_token t @ '' '') = tokenizer_at (toks @ [t]) []"
    using Cons.prems by (auto simp: tokenize_escaped tokenize_step_def is_space_def)
  with Cons show ?case by (simp add: command_line_of_def)
qed (simp add: command_line_of_def)

text \<open>C35 (every token list can be typed).  For any list of non-empty tokens, the line that writes each
  token with its characters escaped and separated by blanks is tokenized back to that list.\<close>

theorem tokenize_round_trip:
  assumes "[] \<notin> set ts"
  shows "tokenize_command (command_line_of ts) = Inr ts"
  using tokenize_line [OF assms, of "[]"] by (simp add: tokenize_command_def)

theorem tokenize_round_trip_witness:
  "[] \<notin> set [''submit'', ''a b''] \<and>
   tokenize_command (command_line_of [''submit'', ''a b'']) = Inr [''submit'', ''a b'']"
proof -
  have "[] \<notin> set [''submit'', ''a b'']" by simp
  then show ?thesis using tokenize_round_trip by blast
qed

lemma tokenize_step_tokens:
  "[] \<notin> set (tk_tokens st) \<Longrightarrow> [] \<notin> set (tk_tokens (tokenize_step st c))"
  by (auto simp: tokenize_step_def)

lemma tokenize_fold_tokens:
  "[] \<notin> set (tk_tokens st) \<Longrightarrow> [] \<notin> set (tk_tokens (foldl tokenize_step st s))"
  by (induction s arbitrary: st) (simp_all add: tokenize_step_tokens)

text \<open>
  The number of characters that a token list holds; the tokenizer never invents characters.
\<close>

lemma tokenize_step_size:
  "length (concat (tk_tokens (tokenize_step st c))) + length (tk_current (tokenize_step st c)) \<le>
   length (concat (tk_tokens st)) + length (tk_current st) + 1"
  by (auto simp: tokenize_step_def)

lemma tokenize_fold_size:
  "length (concat (tk_tokens (foldl tokenize_step st s))) + length (tk_current (foldl tokenize_step st s))
   \<le> length (concat (tk_tokens st)) + length (tk_current st) + length s"
proof (induction s arbitrary: st)
  case (Cons c s)
  show ?case using Cons [of "tokenize_step st c"] tokenize_step_size [of st c] by simp
qed simp

text \<open>Tokenizer output.  Whatever the line, the tokenizer either throws
  \<open>std::invalid_argument\<close> or returns tokens none of which is empty (so an empty quoted argument
  leaves no token) and which together hold no more characters than the line.\<close>

theorem tokenize_command_tokens:
  "case tokenize_command s of
     Inl e \<Rightarrow> e = invalid_argument ''unfinished escape or quote in command''
   | Inr ts \<Rightarrow> [] \<notin> set ts \<and> length (concat ts) \<le> length s"
  using tokenize_fold_tokens [of "tokenizer_at [] []" s] tokenize_fold_size [of "tokenizer_at [] []" s]
  by (auto simp: tokenize_command_def Let_def)

end
