(* ===== verification/Kronos_Transport.thy ===== *)
theory Kronos_Transport
  imports Kronos_Protocol
begin

text \<open>
  Sending and receiving lines over a FIFO, \<open>receive_line\<close>, \<open>send_line\<close> and \<open>Transport\<close> of \<open>src/fifo.cpp\<close>.

  The operating system is an argument: the results of the successive \<open>::read\<close>, \<open>::write\<close> and \<open>::poll\<close>
  calls, as lists.  \<open>receive_line\<close> gives back the \<open>::read\<close> results that it has not used, so that several
  calls can be run over one list; \<open>send_line\<close> appends to the bytes that have entered the FIFO.  A loop
  whose list is used up has not returned (\<open>Blocked\<close>).

  The theorems show that no byte is lost, repeated or reordered by the framing whatever the chunks
  in which the bytes arrive, so that the messages received are the messages sent, in order; that
  \<open>send_line\<close> writes the whole message or throws; and when the loops end.
\<close>

section \<open>Results of system calls\<close>

datatype 'a outcome = Ret 'a | Raise exn | Blocked

datatype poll_result = PollReady | PollReadyError | PollTimeout | PollInterrupted | PollError string

datatype read_result = ReadBytes string | ReadEof | ReadInterrupted | ReadWouldBlock | ReadError string

datatype send_result = SentBytes nat | SentNothing string | SendInterrupted | SendWouldBlock | SendError string

definition max_message_size :: nat where
  "max_message_size = 1024 * 1024"

text \<open>The value given to \<open>::poll\<close>; its result is a list of answers that ends the loop on \<open>EINTR\<close>.\<close>

definition bounded_timeout :: "int \<Rightarrow> int" where
  "bounded_timeout milliseconds = (if 2 ^ 31 - 1 < milliseconds then 2 ^ 31 - 1 else milliseconds)"

fun poll_loop :: "poll_result list \<Rightarrow> (poll_result \<times> poll_result list) option" where
  "poll_loop [] = None"
| "poll_loop (PollInterrupted # ps) = poll_loop ps"
| "poll_loop (p # ps) = Some (p, ps)"

section \<open>receive\_line\<close>

definition extract_line :: "string \<Rightarrow> string option \<times> string" where
  "extract_line buffer =
     (if newline \<in> set buffer
      then (Some (takeWhile (\<lambda>c. c \<noteq> newline) buffer @ [newline]),
            tl (dropWhile (\<lambda>c. c \<noteq> newline) buffer))
      else (None, buffer))"

fun read_loop :: "read_result list \<Rightarrow> string \<Rightarrow> string option outcome \<times> string \<times> read_result list" where
  "read_loop [] buffer = (Blocked, buffer, [])"
| "read_loop (ReadBytes chunk # os) buffer =
     (let buffer' = buffer @ chunk in
      if max_message_size < length buffer'
      then (Raise (runtime_error ''IPC message exceeded the size limit''), buffer', os)
      else case extract_line buffer' of
             (Some line, rest) \<Rightarrow> (Ret (Some line), rest, os)
           | (None, _) \<Rightarrow> read_loop os buffer')"
| "read_loop (ReadEof # os) buffer = (Ret None, buffer, os)"
| "read_loop (ReadInterrupted # os) buffer = read_loop os buffer"
| "read_loop (ReadWouldBlock # os) buffer = (Ret None, buffer, os)"
| "read_loop (ReadError m # os) buffer = (Raise (system_error ''failed to read FIFO'' m), buffer, os)"

definition receive_line :: "(int \<Rightarrow> poll_result list) \<Rightarrow> int \<Rightarrow> read_result list \<Rightarrow> string \<Rightarrow>
    string option outcome \<times> string \<times> read_result list" where
  "receive_line poll timeout os buffer =
     (case extract_line buffer of
        (Some line, rest) \<Rightarrow> (Ret (Some line), rest, os)
      | (None, _) \<Rightarrow>
          (case poll_loop (poll (bounded_timeout timeout)) of
             None \<Rightarrow> (Blocked, buffer, os)
           | Some (PollTimeout, _) \<Rightarrow> (Ret None, buffer, os)
           | Some (PollError m, _) \<Rightarrow> (Raise (system_error ''failed while polling FIFO'' m), buffer, os)
           | Some (PollReadyError, _) \<Rightarrow> (Raise (runtime_error ''IPC FIFO became unavailable''), buffer, os)
           | Some (_, _) \<Rightarrow> read_loop os buffer))"

section \<open>send\_line\<close>

text \<open>
  \<open>fifo\<close> is what has entered the FIFO.  \<open>SentBytes n\<close> is a positive result of \<open>::write\<close>.  A result of
  zero (\<open>SentNothing\<close>, with the message of the current \<open>errno\<close>) and a failed \<open>::poll\<close> end in the same
  exception as a failed \<open>::write\<close>.
\<close>

fun send_loop :: "send_result list \<Rightarrow> poll_result list \<Rightarrow> string \<Rightarrow> string \<Rightarrow> unit outcome \<times> string" where
  "send_loop os ps [] fifo = (Ret (), fifo)"
| "send_loop [] ps (c # cs) fifo = (Blocked, fifo)"
| "send_loop (SentBytes n # os) ps (c # cs) fifo =
     send_loop os ps (drop n (c # cs)) (fifo @ take n (c # cs))"
| "send_loop (SentNothing m # os) ps (c # cs) fifo = (Raise (system_error ''failed to write FIFO'' m), fifo)"
| "send_loop (SendInterrupted # os) ps (c # cs) fifo = send_loop os ps (c # cs) fifo"
| "send_loop (SendWouldBlock # os) ps (c # cs) fifo =
     (case poll_loop ps of
        None \<Rightarrow> (Blocked, fifo)
      | Some (PollTimeout, _) \<Rightarrow> (Raise (runtime_error ''timed out writing to IPC FIFO''), fifo)
      | Some (PollError m, _) \<Rightarrow> (Raise (system_error ''failed to write FIFO'' m), fifo)
      | Some (_, ps') \<Rightarrow> send_loop os ps' (c # cs) fifo)"
| "send_loop (SendError m # os) ps (c # cs) fifo = (Raise (system_error ''failed to write FIFO'' m), fifo)"

definition send_line :: "send_result list \<Rightarrow> poll_result list \<Rightarrow> string \<Rightarrow> string \<Rightarrow> unit outcome \<times> string" where
  "send_line os ps message fifo =
     (if max_message_size < length message
      then (Raise (invalid_argument ''IPC message exceeded the size limit''), fifo)
      else send_loop os ps message fifo)"

section \<open>Transport\<close>

record fifo_paths_t =
  fp_directory :: string
  fp_requests :: string
  fp_responses :: string

record transport =
  tp_paths :: fifo_paths_t
  tp_read_fd :: int
  tp_write_fd :: int
  tp_read_buffer :: string

definition transport_send :: "send_result list \<Rightarrow> poll_result list \<Rightarrow> protocol_message \<Rightarrow> string \<Rightarrow>
    unit outcome \<times> string" where
  "transport_send os ps message fifo =
     (case encode_message message of
        Inl e \<Rightarrow> (Raise e, fifo)
      | Inr line \<Rightarrow> send_line os ps line fifo)"

definition transport_receive :: "(int \<Rightarrow> poll_result list) \<Rightarrow> int \<Rightarrow> read_result list \<Rightarrow> transport \<Rightarrow>
    protocol_message option outcome \<times> transport \<times> read_result list" where
  "transport_receive poll timeout os t =
     (case receive_line poll timeout os (tp_read_buffer t) of
        (out, buffer, os') \<Rightarrow>
          (case out of
             Ret None \<Rightarrow> Ret None
           | Ret (Some line) \<Rightarrow>
               (case decode_message line of Inl e \<Rightarrow> Raise e | Inr m \<Rightarrow> Ret (Some m))
           | Raise e \<Rightarrow> Raise e
           | Blocked \<Rightarrow> Blocked,
           t\<lparr>tp_read_buffer := buffer\<rparr>, os'))"

section \<open>Framing\<close>

definition is_line :: "string \<Rightarrow> bool" where
  "is_line l \<longleftrightarrow> l \<noteq> [] \<and> last l = newline \<and> newline \<notin> set (butlast l)"

definition read_bytes :: "read_result list \<Rightarrow> string" where
  "read_bytes os = concat (map (\<lambda>r. case r of ReadBytes chunk \<Rightarrow> chunk | _ \<Rightarrow> []) os)"

lemma read_bytes_simps [simp]:
  "read_bytes [] = []" "read_bytes (ReadBytes chunk # os) = chunk @ read_bytes os"
  "read_bytes (ReadEof # os) = read_bytes os" "read_bytes (ReadInterrupted # os) = read_bytes os"
  "read_bytes (ReadWouldBlock # os) = read_bytes os" "read_bytes (ReadError m # os) = read_bytes os"
  by (simp_all add: read_bytes_def)

lemma is_lineE: "is_line l \<Longrightarrow> \<exists>p. l = p @ [newline] \<and> newline \<notin> set p"
  by (metis append_butlast_last_id is_line_def)

lemma scan_to_newline:
  "newline \<notin> set p \<Longrightarrow> takeWhile (\<lambda>c. c \<noteq> newline) (p @ newline # q) = p"
  "newline \<notin> set p \<Longrightarrow> dropWhile (\<lambda>c. c \<noteq> newline) (p @ newline # q) = newline # q"
  by (induction p) auto

lemma is_line_unique: "is_line l \<Longrightarrow> is_line l' \<Longrightarrow> l @ x = l' @ y \<Longrightarrow> l = l' \<and> x = y"
proof -
  assume "is_line l" "is_line l'" and eq: "l @ x = l' @ y"
  then obtain p p' where "l = p @ [newline]" "newline \<notin> set p" "l' = p' @ [newline]" "newline \<notin> set p'"
    using is_lineE by meson
  moreover from this have "takeWhile (\<lambda>c. c \<noteq> newline) (l @ x) = p" "takeWhile (\<lambda>c. c \<noteq> newline) (l' @ y) = p'"
    by (simp_all add: scan_to_newline)
  ultimately show ?thesis using eq by simp
qed

lemma extract_line_Some: "extract_line b = (Some l, r) \<Longrightarrow> is_line l \<and> b = l @ r"
proof -
  assume "extract_line b = (Some l, r)"
  then have nl: "newline \<in> set b" and l: "l = takeWhile (\<lambda>c. c \<noteq> newline) b @ [newline]"
    and r: "r = tl (dropWhile (\<lambda>c. c \<noteq> newline) b)"
    by (auto simp: extract_line_def split: if_splits)
  from nl obtain p q where b: "b = p @ newline # q" "newline \<notin> set p" by (metis split_list_first)
  then have "l = p @ [newline]" "r = q" by (simp_all add: l r scan_to_newline)
  then show ?thesis using b by (simp add: is_line_def)
qed

lemma extract_line_None: "extract_line b = (None, r) \<longleftrightarrow> r = b \<and> newline \<notin> set b"
  by (auto simp: extract_line_def)

definition received_text :: "string option outcome \<Rightarrow> string" where
  "received_text out = (case out of Ret (Some l) \<Rightarrow> l | _ \<Rightarrow> [])"

text \<open>One call: bytes are conserved, a returned line is a line, and a timeout leaves no line behind.\<close>

lemma read_loop_spec:
  assumes "read_loop os b = (out, b', os')" "newline \<notin> set b"
  shows "received_text out @ b' @ read_bytes os' = b @ read_bytes os \<and>
    (\<forall>l. out = Ret (Some l) \<longrightarrow> is_line l) \<and> (out = Ret None \<longrightarrow> newline \<notin> set b') \<and>
    (\<forall>w. out \<noteq> Raise (invalid_argument w))"
  using assms
proof (induction os b rule: read_loop.induct)
  case (2 chunk os b)
  show ?case
  proof (cases "max_message_size < length (b @ chunk)")
    case True
    then show ?thesis using "2.prems" by (auto simp: received_text_def)
  next
    case False
    show ?thesis
    proof (cases "extract_line (b @ chunk)")
      case (Pair l r)
      then show ?thesis
      proof (cases l)
        case None
        with Pair False have "read_loop os (b @ chunk) = (out, b', os')"
          using "2.prems"(1) by (simp add: Let_def)
        moreover have "newline \<notin> set (b @ chunk)" using Pair None extract_line_None [of "b @ chunk" r] by simp
        ultimately show ?thesis using "2.IH" [OF refl False] Pair None by (simp add: extract_line_None)
      next
        case (Some line)
        with Pair False have "out = Ret (Some line)" "b' = r" "os' = os" using "2.prems"(1) by (simp_all add: Let_def)
        then show ?thesis using extract_line_Some [of "b @ chunk" line r] Pair Some by (simp add: received_text_def)
      qed
    qed
  qed
qed (auto simp: received_text_def)

lemma receive_line_spec:
  assumes "receive_line poll timeout os b = (out, b', os')"
  shows "received_text out @ b' @ read_bytes os' = b @ read_bytes os \<and>
    (\<forall>l. out = Ret (Some l) \<longrightarrow> is_line l) \<and> (out = Ret None \<longrightarrow> newline \<notin> set b') \<and>
    (\<forall>w. out \<noteq> Raise (invalid_argument w))"
proof (cases "extract_line b")
  case (Pair l r)
  show ?thesis
  proof (cases l)
    case (Some line)
    then have "out = Ret (Some line)" "b' = r" "os' = os" using Pair assms by (auto simp: receive_line_def)
    then show ?thesis using extract_line_Some [of b line r] Pair Some by (simp add: received_text_def)
  next
    case None
    then have b: "newline \<notin> set b" "extract_line b = (None, b)" using Pair by (auto simp: extract_line_None)
    show ?thesis
    proof (cases "read_loop os b = (out, b', os')")
      case True
      then show ?thesis using read_loop_spec b(1) by blast
    next
      case False
      then show ?thesis using assms b
        by (auto simp: receive_line_def received_text_def split: option.splits poll_result.splits)
    qed
  qed
qed

section \<open>Messages through a FIFO\<close>

text \<open>
  A sender that sends messages one after the other (the mutex keeps the lines of a process whole), and
  a receiver that calls \<open>receive\<close> repeatedly.
\<close>

fun send_all :: "(send_result list \<times> poll_result list) list \<Rightarrow> protocol_message list \<Rightarrow> string \<Rightarrow> unit outcome \<times> string" where
  "send_all answers [] fifo = (Ret (), fifo)"
| "send_all [] (m # ms) fifo = (Blocked, fifo)"
| "send_all ((os, ps) # answers) (m # ms) fifo =
     (case transport_send os ps m fifo of
        (Ret _, fifo') \<Rightarrow> send_all answers ms fifo'
      | (failed, fifo') \<Rightarrow> (failed, fifo'))"

fun receive_all :: "((int \<Rightarrow> poll_result list) \<times> int) list \<Rightarrow> read_result list \<Rightarrow> transport \<Rightarrow>
    protocol_message option outcome list \<times> transport \<times> read_result list" where
  "receive_all [] os t = ([], t, os)"
| "receive_all ((poll, timeout) # calls) os t =
     (case transport_receive poll timeout os t of
        (out, t', os') \<Rightarrow> (case receive_all calls os' t' of (outs, t'', os'') \<Rightarrow> (out # outs, t'', os'')))"

definition received :: "protocol_message option outcome list \<Rightarrow> protocol_message list" where
  "received outs = concat (map (\<lambda>out. case out of Ret (Some m) \<Rightarrow> [m] | _ \<Rightarrow> []) outs)"

lemma received_simps [simp]:
  "received [] = []" "received (Ret (Some m) # outs) = m # received outs"
  "received (Ret None # outs) = received outs" "received (Raise e # outs) = received outs"
  "received (Blocked # outs) = received outs"
  by (simp_all add: received_def)

lemma send_loop_spec:
  "send_loop os ps message fifo = (out, fifo') \<Longrightarrow>
     \<exists>k \<le> length message. fifo' = fifo @ take k message \<and> (out = Ret () \<longrightarrow> k = length message)"
proof (induction os ps message fifo rule: send_loop.induct)
  case (3 n os ps c cs fifo)
  then obtain k where k: "k \<le> length (drop n (c # cs))" "fifo' = (fifo @ take n (c # cs)) @ take k (drop n (c # cs))"
    "out = Ret () \<longrightarrow> k = length (drop n (c # cs))" by fastforce
  have "take n (c # cs) @ take k (drop n (c # cs)) = take (min n (length (c # cs)) + k) (c # cs)"
    by (simp add: take_add min_def del: take_Suc_Cons length_Cons)
  with k show ?case
    by (intro exI [of _ "min n (length (c # cs)) + k"]) (auto simp: min_def)
next
  case (6 os ps c cs fifo)
  show ?case
  proof (cases "\<exists>p ps'. poll_loop ps = Some (p, ps') \<and> (p = PollReady \<or> p = PollReadyError \<or> p = PollInterrupted)")
    case True
    then show ?thesis using 6 by fastforce
  next
    case False
    then have "fifo' = fifo" "out \<noteq> Ret ()" using "6.prems" by (auto split: option.splits poll_result.splits)
    then show ?thesis by auto
  qed
qed auto

lemma transport_send_spec:
  assumes "transport_send os ps m fifo = (out, fifo')"
  shows "case encode_message m of
      Inl e \<Rightarrow> out = Raise e \<and> fifo' = fifo
    | Inr line \<Rightarrow> (\<exists>k \<le> length line. fifo' = fifo @ take k line \<and>
        (out = Ret () \<longrightarrow> k = length line \<and> length line \<le> max_message_size))"
  using assms send_loop_spec [of os ps _ fifo out fifo']
  by (auto simp: transport_send_def send_line_def split: sum.splits if_splits)

lemma send_all_lines:
  "send_all answers ms fifo = (Ret (), fifo') \<Longrightarrow>
     \<exists>lines. map encode_message ms = map Inr lines \<and> fifo' = fifo @ concat lines"
proof (induction answers ms fifo rule: send_all.induct)
  case (3 os ps answers m ms fifo)
  obtain out f where send: "transport_send os ps m fifo = (out, f)" by fastforce
  then have out: "out = Ret ()" and rest: "send_all answers ms f = (Ret (), fifo')"
    using "3.prems" by (cases out; simp)+
  obtain lines where lines: "map encode_message ms = map Inr lines" "fifo' = f @ concat lines"
    using "3.IH" [OF send [symmetric] out rest] by blast
  obtain line where "encode_message m = Inr line" "f = fifo @ line"
    using transport_send_spec [OF send] out by (auto split: sum.splits)
  with lines show ?case by (intro exI [of _ "line # lines"]) simp
qed auto

lemma encoded_is_line: "encode_message m = Inr l \<Longrightarrow> is_line l \<and> decode_message l = Inr m"
  using encode_message_Inr [of m l] decode_of_fields [of m] encoded_line_plain(1) [of m]
  by (simp add: is_line_def)

text \<open>One call of \<open>receive\<close> on a stream of encoded messages.\<close>

lemma transport_receive_step:
  assumes "transport_receive poll timeout os t = (out, t', os')" "map encode_message ms = map Inr lines"
    "tp_read_buffer t @ read_bytes os @ rest = concat lines"
  shows "(case out of Ret (Some m) \<Rightarrow> \<exists>ms' line lines'. ms = m # ms' \<and> lines = line # lines' \<and>
        tp_read_buffer t' @ read_bytes os' @ rest = concat lines'
      | _ \<Rightarrow> tp_read_buffer t' @ read_bytes os' @ rest = concat lines) \<and>
    (\<forall>w. out \<noteq> Raise (invalid_argument w)) \<and> (out = Ret None \<longrightarrow> newline \<notin> set (tp_read_buffer t'))"
proof -
  obtain lout b' where run: "receive_line poll timeout os (tp_read_buffer t) = (lout, b', os')"
    and t': "t' = t\<lparr>tp_read_buffer := b'\<rparr>"
    using assms(1) by (auto simp: transport_receive_def split: prod.splits)
  note spec = receive_line_spec [OF run]
  have stream: "received_text lout @ b' @ read_bytes os' @ rest = concat lines"
    using spec assms(3) by (metis append.assoc)
  show ?thesis
  proof (cases "\<exists>l. lout = Ret (Some l)")
    case True
    then obtain l where l: "lout = Ret (Some l)" "is_line l" using spec by blast
    then have "lines \<noteq> []" using stream by (auto simp: received_text_def is_line_def)
    then obtain line lines' m ms' where cons: "lines = line # lines'" "ms = m # ms'" "encode_message m = Inr line"
      using assms(2) by (cases lines; cases ms) auto
    then have "l = line" "b' @ read_bytes os' @ rest = concat lines'"
      using is_line_unique [OF l(2), of line] encoded_is_line [OF cons(3)] stream l(1)
      by (auto simp: received_text_def)
    then show ?thesis using encoded_is_line [OF cons(3)] assms(1) run l(1) cons t'
      by (auto simp: transport_receive_def)
  next
    case False
    then show ?thesis using assms(1) run stream spec t'
      by (cases lout rule: outcome.exhaust) (auto simp: transport_receive_def received_text_def split: option.splits)
  qed
qed

lemma receive_all_spec:
  assumes "receive_all calls os t = (outs, t', os')" "map encode_message ms = map Inr lines"
    "tp_read_buffer t @ read_bytes os @ rest = concat lines"
  shows "\<exists>k \<le> length ms. received outs = take k ms \<and>
    tp_read_buffer t' @ read_bytes os' @ rest = concat (drop k lines) \<and>
    (\<forall>w. Raise (invalid_argument w) \<notin> set outs) \<and>
    (outs \<noteq> [] \<and> last outs = Ret None \<longrightarrow> newline \<notin> set (tp_read_buffer t'))"
  using assms
proof (induction calls os t arbitrary: outs ms lines rule: receive_all.induct)
  case (1 os t)
  then show ?case by (intro exI [of _ 0]) simp
next
  case (2 poll timeout calls os t)
  obtain out t1 os1 where one: "transport_receive poll timeout os t = (out, t1, os1)" by (metis prod_cases3)
  obtain outs' where more: "receive_all calls os1 t1 = (outs', t', os')" "outs = out # outs'"
    using "2.prems"(1) one by (auto split: prod.splits)
  note step = transport_receive_step [OF one "2.prems"(2,3)]
  note IH = "2.IH" [OF one [symmetric] refl more(1)]
  have quiet: "outs \<noteq> [] \<and> last outs = Ret None \<longrightarrow> newline \<notin> set (tp_read_buffer t')"
    if "outs' \<noteq> [] \<and> last outs' = Ret None \<longrightarrow> newline \<notin> set (tp_read_buffer t')"
  proof (cases "outs' = []")
    case True
    then have "t' = t1" using more(1) by (cases calls) (auto split: prod.splits)
    then show ?thesis using step more(2) True by simp
  next
    case False
    then show ?thesis using that more(2) by simp
  qed
  show ?case
  proof (cases "\<exists>m. out = Ret (Some m)")
    case True
    then obtain m where out: "out = Ret (Some m)" by blast
    with step obtain ms1 line lines1 where m: "ms = m # ms1" "lines = line # lines1"
        "tp_read_buffer t1 @ read_bytes os1 @ rest = concat lines1"
      by auto
    obtain k where "k \<le> length ms1" "received outs' = take k ms1"
        "tp_read_buffer t' @ read_bytes os' @ rest = concat (drop k lines1)"
        "\<forall>w. Raise (invalid_argument w) \<notin> set outs'"
        "outs' \<noteq> [] \<and> last outs' = Ret None \<longrightarrow> newline \<notin> set (tp_read_buffer t')"
      using IH [of ms1 lines1] m "2.prems"(2) by auto
    then show ?thesis using out m more(2) quiet by (intro exI [of _ "Suc k"]) auto
  next
    case False
    then have same: "tp_read_buffer t1 @ read_bytes os1 @ rest = concat lines" "received outs = received outs'"
      using step more(2) by (cases out; auto split: option.splits)+
    obtain k where "k \<le> length ms" "received outs' = take k ms"
        "tp_read_buffer t' @ read_bytes os' @ rest = concat (drop k lines)"
        "\<forall>w. Raise (invalid_argument w) \<notin> set outs'"
        "outs' \<noteq> [] \<and> last outs' = Ret None \<longrightarrow> newline \<notin> set (tp_read_buffer t')"
      using IH [OF "2.prems"(2) same(1)] by blast
    then show ?thesis using same(2) more(2) quiet step by (intro exI [of _ k]) auto
  qed
qed

lemma receive_in_order:
  assumes "map encode_message ms = map Inr lines" "tp_read_buffer t @ read_bytes os @ rest = concat lines"
    "receive_all calls os t = (outs, t', os')"
  shows "(\<exists>k \<le> length ms. received outs = take k ms) \<and> (\<forall>w. Raise (invalid_argument w) \<notin> set outs) \<and>
    (rest = [] \<and> read_bytes os' = [] \<and> outs \<noteq> [] \<and> last outs = Ret None \<longrightarrow> received outs = ms)"
proof -
  obtain k where k: "k \<le> length ms" "received outs = take k ms"
      "tp_read_buffer t' @ read_bytes os' @ rest = concat (drop k lines)"
      "\<forall>w. Raise (invalid_argument w) \<notin> set outs"
      "outs \<noteq> [] \<and> last outs = Ret None \<longrightarrow> newline \<notin> set (tp_read_buffer t')"
    using receive_all_spec [OF assms(3,1,2)] by blast
  have len: "length lines = length ms" using assms(1) by (metis length_map)
  have line: "newline \<in> set (lines ! i)" if "i < length lines" for i
    using encoded_is_line [of "ms ! i" "lines ! i"] assms(1) that len
    by (metis is_line_def last_in_set nth_map)
  have "received outs = ms"
    if "rest = []" "read_bytes os' = []" "newline \<notin> set (tp_read_buffer t')"
  proof (rule ccontr)
    assume "received outs \<noteq> ms"
    then have "k < length lines" using k(1,2) len by (cases "k = length ms") auto
    then have "set (lines ! k) \<subseteq> set (concat (drop k lines))" by (auto simp: Cons_nth_drop_Suc [symmetric])
    then show False using k(3) that line [OF \<open>k < length lines\<close>] by auto
  qed
  then show ?thesis using k by blast
qed

text \<open>
  C14 (the FIFO delivers in order).  When every \<open>send\<close> of a list of messages has returned and the reads so
  far returned a prefix of the bytes in the FIFO, cut into any chunks and mixed with interrupted and
  empty reads, then the calls of \<open>receive\<close> have returned a prefix of the messages, each equal to the
  message sent, and no call has rejected a message as malformed.  When all bytes have been read and the
  last call found nothing, all the messages have been returned.
\<close>

theorem fifo_in_order:
  assumes "send_all answers ms [] = (Ret (), fifo)" "read_bytes os @ rest = fifo" "tp_read_buffer t = []"
    "receive_all calls os t = (outs, t', os')"
  shows "(\<exists>k \<le> length ms. received outs = take k ms) \<and> (\<forall>w. Raise (invalid_argument w) \<notin> set outs) \<and>
    (rest = [] \<and> read_bytes os' = [] \<and> outs \<noteq> [] \<and> last outs = Ret None \<longrightarrow> received outs = ms)"
proof -
  obtain lines where lines: "map encode_message ms = map Inr lines" "fifo = concat lines"
    using send_all_lines [OF assms(1)] by auto
  then have "tp_read_buffer t @ read_bytes os @ rest = concat lines" using assms(2,3) by simp
  from receive_in_order [OF lines(1) this assms(4)] show ?thesis .
qed

text \<open>A message and its line, cut in two reads, for the witness.\<close>

definition sample_message :: protocol_message where
  "sample_message = \<lparr>msg_request_id = 7, msg_kind = ''OK'', msg_fields = []\<rparr>"

definition sample_line :: string where
  "sample_line = ''KIPC1'' @ [tab] @ ''7'' @ [tab] @ ''OK'' @ [newline]"

lemma encode_sample: "encode_message sample_message = Inr sample_line"
proof -
  have "char_of (55 :: nat) = CHR ''7''" by code_simp
  then show ?thesis
    by (simp add: encode_message_def sample_message_def sample_line_def protocol_version_def u64_to_string_def
        digit_char_def nat_to_string.simps [of 7])
qed

theorem fifo_in_order_witness:
  "\<exists>fifo outs t' os'. send_all [([SentBytes 4, SendInterrupted, SentBytes 96], [])] [sample_message] [] = (Ret (), fifo) \<and>
     read_bytes [ReadBytes (take 3 sample_line), ReadInterrupted, ReadBytes (drop 3 sample_line), ReadWouldBlock] @ [] = fifo \<and>
     receive_all [(\<lambda>_. [PollReady], 200), (\<lambda>_. [PollInterrupted, PollReady], 200)]
       [ReadBytes (take 3 sample_line), ReadInterrupted, ReadBytes (drop 3 sample_line), ReadWouldBlock]
       \<lparr>tp_paths = \<lparr>fp_directory = [], fp_requests = [], fp_responses = []\<rparr>, tp_read_fd = 3, tp_write_fd = 4,
        tp_read_buffer = []\<rparr> = (outs, t', os') \<and> received outs = [sample_message]"
proof -
  let ?os = "[ReadBytes (take 3 sample_line), ReadInterrupted, ReadBytes (drop 3 sample_line), ReadWouldBlock]"
  let ?t = "\<lparr>tp_paths = \<lparr>fp_directory = [], fp_requests = [], fp_responses = []\<rparr>, tp_read_fd = 3, tp_write_fd = 4,
    tp_read_buffer = []\<rparr>"
  let ?calls = "[(\<lambda>_. [PollReady], 200), (\<lambda>_. [PollInterrupted, PollReady], 200)]"
  have sent: "send_all [([SentBytes 4, SendInterrupted, SentBytes 96], [])] [sample_message] [] = (Ret (), sample_line)"
    by (simp add: transport_send_def encode_sample send_line_def max_message_size_def sample_line_def)
  have bytes: "read_bytes ?os @ [] = sample_line" by simp
  have dec: "decode_message sample_line = Inr sample_message" using encoded_is_line [OF encode_sample] by simp
  have run: "receive_all ?calls ?os ?t = ([Ret (Some sample_message), Ret None], ?t, [])"
    using dec by (simp add: transport_receive_def receive_line_def extract_line_def max_message_size_def sample_line_def)
  have "received [Ret (Some sample_message), Ret None] = [sample_message]"
    using fifo_in_order [OF sent bytes _ run] by simp
  then show ?thesis using sent bytes run by blast
qed

section \<open>Limits\<close>

lemma read_loop_bounds:
  assumes "read_loop os b = (out, b', os')" "length b \<le> max_message_size"
    "\<forall>chunk. ReadBytes chunk \<in> set os \<longrightarrow> length chunk \<le> 4096"
  shows "(if \<exists>e. out = Raise e then length b' \<le> max_message_size + 4096 else length b' \<le> max_message_size) \<and>
    length (received_text out) \<le> max_message_size"
  using assms
proof (induction os b rule: read_loop.induct)
  case (2 chunk os b)
  show ?case
  proof (cases "max_message_size < length (b @ chunk)")
    case True
    then show ?thesis using "2.prems" by (auto simp: received_text_def)
  next
    case False
    obtain l r where ext: "extract_line (b @ chunk) = (l, r)" by fastforce
    show ?thesis
    proof (cases l)
      case None
      then have "read_loop os (b @ chunk) = (out, b', os')" using "2.prems"(1) False ext by (simp add: Let_def)
      then show ?thesis using "2.IH" [OF refl False ext [symmetric] None] "2.prems" False by simp
    next
      case (Some line)
      then have "out = Ret (Some line)" "b' = r" using "2.prems"(1) False ext by (simp_all add: Let_def)
      then show ?thesis using extract_line_Some [of "b @ chunk" line r] ext Some False
        by (auto simp: received_text_def dest: arg_cong [where f = length])
    qed
  qed
qed (auto simp: received_text_def)

lemma poll_loop_skips: "poll_loop ps = Some (p, ps') \<Longrightarrow>
    length (filter (\<lambda>p. p \<noteq> PollInterrupted) ps) = Suc (length (filter (\<lambda>p. p \<noteq> PollInterrupted) ps'))"
  by (induction ps rule: poll_loop.induct) auto

lemma poll_loop_None: "poll_loop ps = None \<longleftrightarrow> filter (\<lambda>p. p \<noteq> PollInterrupted) ps = []"
  by (induction ps rule: poll_loop.induct) auto

definition sends_progress :: "send_result list \<Rightarrow> nat" where
  "sends_progress os = length (filter (\<lambda>r. case r of SentBytes n \<Rightarrow> 0 < n | _ \<Rightarrow> False) os)"

lemma sends_progress_simps [simp]:
  "sends_progress [] = 0" "sends_progress (SentBytes n # os) = (if 0 < n then 1 else 0) + sends_progress os"
  "sends_progress (SentNothing m # os) = sends_progress os" "sends_progress (SendInterrupted # os) = sends_progress os"
  "sends_progress (SendWouldBlock # os) = sends_progress os" "sends_progress (SendError m # os) = sends_progress os"
  by (simp_all add: sends_progress_def)

lemma send_loop_returns:
  "length message \<le> sends_progress os \<Longrightarrow>
   count_list os SendWouldBlock \<le> length (filter (\<lambda>p. p \<noteq> PollInterrupted) ps) \<Longrightarrow>
   fst (send_loop os ps message fifo) \<noteq> Blocked"
proof (induction os ps message fifo rule: send_loop.induct)
  case (3 n os ps c cs fifo)
  then show ?case by (auto split: if_splits)
next
  case (6 os ps c cs fifo)
  then obtain p ps' where p: "poll_loop ps = Some (p, ps')" by (cases "poll_loop ps") (auto simp: poll_loop_None)
  then show ?case using 6 poll_loop_skips [OF p] by (cases p) auto
qed auto

text \<open>
  C36 (the loops end).  \<open>send_line\<close> returns or throws once the operating system has accepted bytes as many
  times as the message is long and has answered one poll for each full FIFO; \<open>receive_line\<close> does so once
  it has a poll answer and a read that finds no data, the end of the stream or an error.
\<close>

theorem transport_loops_end:
  "(length message \<le> sends_progress ws \<and>
      count_list ws SendWouldBlock \<le> length (filter (\<lambda>p. p \<noteq> PollInterrupted) ps) \<longrightarrow>
      fst (send_line ws ps message fifo) \<noteq> Blocked) \<and>
   (\<not> set (poll (bounded_timeout timeout)) \<subseteq> {PollInterrupted} \<and>
      (\<exists>r \<in> set os. r = ReadEof \<or> r = ReadWouldBlock \<or> (\<exists>m. r = ReadError m)) \<longrightarrow>
      fst (receive_line poll timeout os buffer) \<noteq> Blocked)"
proof -
  have reads: "fst (read_loop os b) \<noteq> Blocked"
    if "\<exists>r \<in> set os. r = ReadEof \<or> r = ReadWouldBlock \<or> (\<exists>m. r = ReadError m)" for b
    using that by (induction os b rule: read_loop.induct) (auto simp: Let_def split: prod.split option.split)
  have "poll_loop (poll (bounded_timeout timeout)) \<noteq> None"
    if "\<not> set (poll (bounded_timeout timeout)) \<subseteq> {PollInterrupted}"
    using that by (auto simp: poll_loop_None filter_empty_conv)
  then have "fst (receive_line poll timeout os buffer) \<noteq> Blocked"
    if "\<not> set (poll (bounded_timeout timeout)) \<subseteq> {PollInterrupted}"
      "\<exists>r \<in> set os. r = ReadEof \<or> r = ReadWouldBlock \<or> (\<exists>m. r = ReadError m)"
    using that reads [OF that(2), of buffer]
    by (auto simp: receive_line_def split: prod.split option.split poll_result.split)
  then show ?thesis using send_loop_returns [of message ws ps fifo] by (auto simp: send_line_def)
qed

theorem transport_loops_end_witness:
  "fst (send_line [SentBytes 1, SendWouldBlock, SentBytes 1] [PollInterrupted, PollReady] ''ab'' []) \<noteq> Blocked \<and>
   fst (receive_line (\<lambda>_. [PollReady]) 200 [ReadBytes ''ab'', ReadWouldBlock] []) \<noteq> Blocked"
  using transport_loops_end [of "''ab''" "[SentBytes 1, SendWouldBlock, SentBytes 1]" "[PollInterrupted, PollReady]" "[]"
      "\<lambda>_. [PollReady]" 200 "[ReadBytes ''ab'', ReadWouldBlock]" "[]"]
  by simp

text \<open>
  C38 (the size limit).  \<open>send\<close> never puts more than one MiB for one message into the FIFO, and \<open>receive_line\<close>
  never returns a longer line; as long as no call throws, the buffer stays within one MiB, and the call
  that throws leaves at most one read more.
\<close>

theorem message_size_limit:
  assumes "length buffer \<le> max_message_size" "\<forall>chunk. ReadBytes chunk \<in> set os \<longrightarrow> length chunk \<le> 4096"
    "receive_line poll timeout os buffer = (out, buffer', os')"
    "transport_send ws ps m fifo = (sent, fifo')"
  shows "(if \<exists>e. out = Raise e then length buffer' \<le> max_message_size + 4096 else length buffer' \<le> max_message_size) \<and>
    length (received_text out) \<le> max_message_size \<and> length fifo' \<le> length fifo + max_message_size"
proof -
  have "(if \<exists>e. out = Raise e then length buffer' \<le> max_message_size + 4096 else length buffer' \<le> max_message_size) \<and>
    length (received_text out) \<le> max_message_size"
  proof (cases "read_loop os buffer = (out, buffer', os')")
    case True
    then show ?thesis using read_loop_bounds assms(1,2) by blast
  next
    case False
    have "length l + length r = length buffer" if "extract_line buffer = (Some l, r)" for l r
      using extract_line_Some [OF that] by simp
    then show ?thesis using False assms(1,3)
      by (fastforce simp: receive_line_def received_text_def split: prod.splits option.splits poll_result.splits)
  qed
  moreover have "length fifo' \<le> length fifo + max_message_size"
    using assms(4) send_loop_spec [of ws ps _ fifo sent fifo']
    by (fastforce simp: transport_send_def send_line_def split: sum.splits if_splits)
  ultimately show ?thesis by simp
qed

theorem message_size_limit_witness:
  "\<exists>buffer' os' sent fifo'. receive_line (\<lambda>_. [PollReady]) 200 [ReadBytes ''ab'', ReadWouldBlock] [] = (Ret None, buffer', os') \<and>
     transport_send [SentBytes 100] [] sample_message [] = (sent, fifo') \<and>
     length buffer' \<le> max_message_size \<and> length fifo' \<le> max_message_size"
proof -
  have run: "receive_line (\<lambda>_. [PollReady]) 200 [ReadBytes ''ab'', ReadWouldBlock] [] = (Ret None, ''ab'', [])"
    by (simp add: receive_line_def extract_line_def max_message_size_def)
  obtain sent fifo' where send: "transport_send [SentBytes 100] [] sample_message [] = (sent, fifo')" by fastforce
  have small: "length ([] :: string) \<le> max_message_size"
      "\<forall>chunk. ReadBytes chunk \<in> set [ReadBytes ''ab'', ReadWouldBlock] \<longrightarrow> length chunk \<le> 4096"
    by auto
  show ?thesis using message_size_limit [OF small run send] run send by auto
qed

text \<open>
  C39 (the limit counts bytes of the next message).  When the read that completes a line of legal length
  also brings the beginning of the next message and the two together exceed one MiB, \<open>receive_line\<close>
  throws although both messages are legal; the complete line stays in the buffer and the next call
  returns it.
\<close>

theorem limit_counts_next_message:
  assumes "newline \<notin> set p" "length p + 1 \<le> max_message_size" "max_message_size < length p + 1 + length extra"
    "poll (bounded_timeout timeout) = [PollReady]"
  shows "receive_line poll timeout (ReadBytes (newline # extra) # os) p =
      (Raise (runtime_error ''IPC message exceeded the size limit''), p @ newline # extra, os) \<and>
    receive_line poll timeout os (p @ newline # extra) = (Ret (Some (p @ [newline])), extra, os)"
  using assms by (simp add: receive_line_def extract_line_def scan_to_newline)

theorem limit_counts_next_message_witness:
  "fst (receive_line (\<lambda>_. [PollReady]) 200 [ReadBytes [newline, CHR ''K'']] (replicate (max_message_size - 1) CHR ''a'')) =
     Raise (runtime_error ''IPC message exceeded the size limit'')"
  using limit_counts_next_message [of "replicate (max_message_size - 1) CHR ''a''" "''K''" "\<lambda>_. [PollReady]" 200 "[]"]
  by (simp add: max_message_size_def)

end
