(* ===== verification/Kronos_Endpoints.thy ===== *)
theory Kronos_Endpoints
  imports Kronos_Transport
begin

text \<open>
  The two ends of the FIFO transport, \<open>FifoServer\<close> and \<open>FifoClient\<close> of \<open>src/fifo.cpp\<close>: creating and
  validating the FIFOs, the lock of the IPC directory, and the clean-up.

  The operating system is a state: the files by path, the advisory locks that are held (by this or
  another process) on the file at a path (the lock file is not deleted and created again while it is held; the code never does), the open descriptors of this process and its user.  A system call can fail for reasons outside this
  state; \<open>fault call path\<close> is the message of that failure, or \<open>None\<close>.  No constructor makes the same call
  on the same path twice before the outcome of the first matters.  Permission bits are reduced to
  \<open>ino_private\<close>: nobody but the owner has access.

  The theorems show that at most one server holds a directory, that a failed constructor leaves no lock,
  no descriptor and no new FIFO behind, that nothing but a FIFO of the same user is ever replaced, and
  that the destructor gives everything back.
\<close>

section \<open>Files\<close>

datatype file_kind = FifoFile | DirectoryFile | RegularFile | SymbolicLink | OtherFile

record inode =
  ino_kind :: file_kind
  ino_uid :: nat
  ino_private :: bool

record os =
  os_uid :: nat
  os_files :: "string \<Rightarrow> inode option"
  os_locked :: "string \<Rightarrow> bool"
  os_fds :: "(int \<times> string) list"
  os_next_fd :: int

datatype syscall = Sys_lstat | Sys_unlink | Sys_mkfifo | Sys_open | Sys_fstat | Sys_flock | Sys_chmod | Sys_mkdir

type_synonym faults = "syscall \<Rightarrow> string \<Rightarrow> string option"

datatype stat_result = StatOk inode | StatMissing | StatError string

definition sys_lstat :: "faults \<Rightarrow> string \<Rightarrow> os \<Rightarrow> stat_result" where
  "sys_lstat fault path s =
     (case fault Sys_lstat path of
        Some m \<Rightarrow> StatError m
      | None \<Rightarrow> (case os_files s path of None \<Rightarrow> StatMissing | Some i \<Rightarrow> StatOk i))"

definition set_file :: "string \<Rightarrow> inode option \<Rightarrow> os \<Rightarrow> os" where
  "set_file path i s = s\<lparr>os_files := (os_files s)(path := i)\<rparr>"

definition no_such_file :: string where
  "no_such_file = ''No such file or directory''"

definition sys_unlink :: "faults \<Rightarrow> string \<Rightarrow> os \<Rightarrow> string option \<times> os" where
  "sys_unlink fault path s =
     (case fault Sys_unlink path of
        Some m \<Rightarrow> (Some m, s)
      | None \<Rightarrow> if os_files s path = None then (Some no_such_file, s) else (None, set_file path None s))"

definition sys_open :: "faults \<Rightarrow> string \<Rightarrow> os \<Rightarrow> (string + int) \<times> os" where
  "sys_open fault path s =
     (case fault Sys_open path of
        Some m \<Rightarrow> (Inl m, s)
      | None \<Rightarrow>
          if os_files s path = None then (Inl no_such_file, s)
          else (Inr (os_next_fd s),
                s\<lparr>os_fds := (os_next_fd s, path) # os_fds s, os_next_fd := os_next_fd s + 1\<rparr>))"

definition close_descriptor :: "int \<Rightarrow> os \<Rightarrow> os" where
  "close_descriptor descriptor s =
     (if 0 \<le> descriptor then s\<lparr>os_fds := filter (\<lambda>(d, _). d \<noteq> descriptor) (os_fds s)\<rparr> else s)"

section \<open>Paths\<close>

definition path_append :: "string \<Rightarrow> string \<Rightarrow> string" where
  "path_append directory name =
     (if directory = [] then name
      else if last directory = CHR ''/'' then directory @ name
      else directory @ ''/'' @ name)"

definition default_ipc_directory :: "string \<Rightarrow> os \<Rightarrow> string" where
  "default_ipc_directory temp_directory_path s =
     path_append temp_directory_path (''kronos-'' @ nat_to_string (os_uid s))"

definition fifo_paths :: "string \<Rightarrow> fifo_paths_t" where
  "fifo_paths directory =
     \<lparr>fp_directory = directory, fp_requests = path_append directory ''requests.fifo'',
      fp_responses = path_append directory ''responses.fifo''\<rparr>"

section \<open>Creating and checking\<close>

definition validate_fifo :: "faults \<Rightarrow> string \<Rightarrow> os \<Rightarrow> unit result" where
  "validate_fifo fault path s =
     (case sys_lstat fault path s of
        StatError m \<Rightarrow> Inl (system_error (''IPC FIFO does not exist: '' @ path) m)
      | StatMissing \<Rightarrow> Inl (system_error (''IPC FIFO does not exist: '' @ path) no_such_file)
      | StatOk i \<Rightarrow>
          if ino_kind i \<noteq> FifoFile then Inl (runtime_error (''IPC path is not a FIFO: '' @ path))
          else if ino_uid i \<noteq> os_uid s then Inl (runtime_error (''IPC FIFO is owned by another user: '' @ path))
          else Inr ())"

definition make_fifo :: "faults \<Rightarrow> string \<Rightarrow> os \<Rightarrow> unit result \<times> os" where
  "make_fifo fault path s =
     (case fault Sys_mkfifo path of
        Some m \<Rightarrow> (Inl (system_error ''failed to create FIFO'' m), s)
      | None \<Rightarrow> (Inr (), set_file path (Some \<lparr>ino_kind = FifoFile, ino_uid = os_uid s, ino_private = True\<rparr>) s))"

definition create_fifo :: "faults \<Rightarrow> string \<Rightarrow> os \<Rightarrow> unit result \<times> os" where
  "create_fifo fault path s =
     (case sys_lstat fault path s of
        StatOk i \<Rightarrow>
          if ino_kind i \<noteq> FifoFile \<or> ino_uid i \<noteq> os_uid s
          then (Inl (runtime_error (''refusing to replace unsafe IPC path: '' @ path)), s)
          else (case sys_unlink fault path s of
                  (Some m, s') \<Rightarrow> (Inl (system_error ''failed to replace stale FIFO'' m), s')
                | (None, s') \<Rightarrow> make_fifo fault path s')
      | StatMissing \<Rightarrow> make_fifo fault path s
      | StatError m \<Rightarrow> (Inl (system_error ''failed to inspect FIFO path'' m), s))"

definition open_fifo :: "faults \<Rightarrow> string \<Rightarrow> os \<Rightarrow> int result \<times> os" where
  "open_fifo fault path s =
     (case sys_open fault path s of
        (Inl m, s') \<Rightarrow> (Inl (system_error (''failed to open FIFO: '' @ path) m), s')
      | (Inr descriptor, s') \<Rightarrow> (Inr descriptor, s'))"

text \<open>
  \<open>std::filesystem::create_directories\<close>: every missing component of the path is created; a path that
  exists must be a directory or a link (whose target is not part of the model: a bad one is a fault).
\<close>

definition path_prefixes :: "string \<Rightarrow> string list" where
  "path_prefixes path =
     map (\<lambda>n. take n path) (filter (\<lambda>n. path ! n = CHR ''/'') [1..<length path]) @ [path]"

definition make_missing :: "string \<Rightarrow> os \<Rightarrow> os" where
  "make_missing path s =
     (if path = [] \<or> os_files s path \<noteq> None then s
      else set_file path (Some \<lparr>ino_kind = DirectoryFile, ino_uid = os_uid s, ino_private = False\<rparr>) s)"

definition create_directories :: "faults \<Rightarrow> string \<Rightarrow> os \<Rightarrow> unit result \<times> os" where
  "create_directories fault path s =
     (case fault Sys_mkdir path of
        Some m \<Rightarrow> (Inl (system_error ''filesystem error: cannot create directories'' m), s)
      | None \<Rightarrow>
          (case os_files s path of
             None \<Rightarrow> (Inr (), fold make_missing (path_prefixes path) s)
           | Some i \<Rightarrow>
               if ino_kind i = DirectoryFile \<or> ino_kind i = SymbolicLink then (Inr (), s)
               else (Inl (system_error ''filesystem error: cannot create directories'' ''Not a directory''), s)))"

definition prepare_directory :: "faults \<Rightarrow> string \<Rightarrow> os \<Rightarrow> unit result \<times> os" where
  "prepare_directory fault directory s0 =
     (case create_directories fault directory s0 of
        (Inl e, s) \<Rightarrow> (Inl e, s)
      | (Inr _, s) \<Rightarrow>
          (case sys_lstat fault directory s of
             StatError m \<Rightarrow> (Inl (system_error ''failed to inspect IPC directory'' m), s)
           | StatMissing \<Rightarrow> (Inl (system_error ''failed to inspect IPC directory'' no_such_file), s)
           | StatOk i \<Rightarrow>
               if ino_kind i \<noteq> DirectoryFile \<or> ino_kind i = SymbolicLink \<or> ino_uid i \<noteq> os_uid s
               then (Inl (runtime_error ''IPC directory is not a safe user-owned directory''), s)
               else (case fault Sys_chmod directory of
                       Some m \<Rightarrow> (Inl (system_error ''failed to secure IPC directory'' m), s)
                     | None \<Rightarrow> (Inr (), set_file directory (Some (i\<lparr>ino_private := True\<rparr>)) s))))"

section \<open>The server\<close>

record fifo_server =
  sv_transport :: transport
  sv_lock_fd :: int

definition Transport :: "fifo_paths_t \<Rightarrow> int \<Rightarrow> int \<Rightarrow> transport" where
  "Transport paths read_descriptor write_descriptor =
     \<lparr>tp_paths = paths, tp_read_fd = read_descriptor, tp_write_fd = write_descriptor, tp_read_buffer = []\<rparr>"

definition close_transport :: "transport \<Rightarrow> os \<Rightarrow> os" where
  "close_transport t s = close_descriptor (tp_write_fd t) (close_descriptor (tp_read_fd t) s)"

definition lock_path :: "string \<Rightarrow> string" where
  "lock_path directory = path_append directory ''.engine.lock''"

text \<open>
  \<open>::open\<close> of the lock with \<open>O_CREAT\<close> and \<open>O_NOFOLLOW\<close>: a missing file is created, a link or a directory
  is refused.
\<close>

definition open_lock :: "faults \<Rightarrow> string \<Rightarrow> os \<Rightarrow> int result \<times> os" where
  "open_lock fault path s =
     (let s1 = (if os_files s path = None \<and> fault Sys_open path = None
                then set_file path (Some \<lparr>ino_kind = RegularFile, ino_uid = os_uid s, ino_private = True\<rparr>) s
                else s) in
      if map_option ino_kind (os_files s1 path) = Some SymbolicLink
      then (Inl (system_error ''failed to open engine lock'' ''Too many levels of symbolic links''), s1)
      else if map_option ino_kind (os_files s1 path) = Some DirectoryFile
      then (Inl (system_error ''failed to open engine lock'' ''Is a directory''), s1)
      else case sys_open fault path s1 of
             (Inl m, s2) \<Rightarrow> (Inl (system_error ''failed to open engine lock'' m), s2)
           | (Inr descriptor, s2) \<Rightarrow> (Inr descriptor, s2))"

definition take_lock :: "faults \<Rightarrow> string \<Rightarrow> os \<Rightarrow> int result \<times> os" where
  "take_lock fault path s0 =
     (case open_lock fault path s0 of
        (Inl e, s) \<Rightarrow> (Inl e, s)
      | (Inr lock_fd, s) \<Rightarrow>
          if fault Sys_fstat path \<noteq> None \<or>
             (case os_files s path of None \<Rightarrow> True | Some i \<Rightarrow> ino_kind i \<noteq> RegularFile \<or> ino_uid i \<noteq> os_uid s)
          then (Inl (runtime_error ''engine lock is not a safe user-owned file''), close_descriptor lock_fd s)
          else if fault Sys_flock path \<noteq> None \<or> os_locked s path
          then (Inl (runtime_error ''another Kronos engine is already using this IPC directory''),
                close_descriptor lock_fd s)
          else (Inr lock_fd, s\<lparr>os_locked := (os_locked s)(path := True)\<rparr>))"

definition release_lock :: "string \<Rightarrow> int \<Rightarrow> os \<Rightarrow> os" where
  "release_lock path lock_fd s =
     close_descriptor lock_fd (s\<lparr>os_locked := (os_locked s)(path := False)\<rparr>)"

text \<open>
  The body of the \<open>try\<close> block: the two created flags and the two descriptors as they are when it ends,
  and the exception, if any.
\<close>

record server_setup =
  su_request :: int
  su_response :: int
  su_request_created :: bool
  su_response_created :: bool

definition setup_fifos :: "faults \<Rightarrow> fifo_paths_t \<Rightarrow> os \<Rightarrow> exn option \<times> server_setup \<times> os" where
  "setup_fifos fault paths s0 =
     (let u0 = \<lparr>su_request = -1, su_response = -1, su_request_created = False, su_response_created = False\<rparr> in
      case create_fifo fault (fp_requests paths) s0 of
        (Inl e, s1) \<Rightarrow> (Some e, u0, s1)
      | (Inr _, s1) \<Rightarrow>
      (let u1 = u0\<lparr>su_request_created := True\<rparr> in
      case create_fifo fault (fp_responses paths) s1 of
        (Inl e, s2) \<Rightarrow> (Some e, u1, s2)
      | (Inr _, s2) \<Rightarrow>
      (let u2 = u1\<lparr>su_response_created := True\<rparr> in
      case open_fifo fault (fp_requests paths) s2 of
        (Inl e, s3) \<Rightarrow> (Some e, u2, s3)
      | (Inr request, s3) \<Rightarrow>
      (case open_fifo fault (fp_responses paths) s3 of
        (Inl e, s4) \<Rightarrow> (Some e, u2\<lparr>su_request := request\<rparr>, s4)
      | (Inr response, s4) \<Rightarrow> (None, u2\<lparr>su_request := request, su_response := response\<rparr>, s4)))))"

definition undo_setup :: "faults \<Rightarrow> fifo_paths_t \<Rightarrow> server_setup \<Rightarrow> os \<Rightarrow> os" where
  "undo_setup fault paths u s0 =
     (let s1 = close_descriptor (su_response u) (close_descriptor (su_request u) s0);
          s2 = (if su_request_created u then snd (sys_unlink fault (fp_requests paths) s1) else s1) in
      if su_response_created u then snd (sys_unlink fault (fp_responses paths) s2) else s2)"

definition FifoServer :: "faults \<Rightarrow> string \<Rightarrow> os \<Rightarrow> fifo_server result \<times> os" where
  "FifoServer fault directory s0 =
     (let paths = fifo_paths directory in
      case prepare_directory fault (fp_directory paths) s0 of
        (Inl e, s1) \<Rightarrow> (Inl e, s1)
      | (Inr _, s1) \<Rightarrow>
      (case take_lock fault (lock_path (fp_directory paths)) s1 of
        (Inl e, s2) \<Rightarrow> (Inl e, s2)
      | (Inr lock_fd, s2) \<Rightarrow>
      (case setup_fifos fault paths s2 of
         (None, u, s3) \<Rightarrow>
           (Inr \<lparr>sv_transport = Transport paths (su_request u) (su_response u), sv_lock_fd = lock_fd\<rparr>, s3)
       | (Some e, u, s3) \<Rightarrow>
           (Inl e, release_lock (lock_path (fp_directory paths)) lock_fd (undo_setup fault paths u s3)))))"

definition close_server :: "faults \<Rightarrow> fifo_server \<Rightarrow> os \<Rightarrow> os" where
  "close_server fault sv s0 =
     (let paths = tp_paths (sv_transport sv);
          s1 = close_transport (sv_transport sv) s0;
          s2 = snd (sys_unlink fault (fp_requests paths) s1);
          s3 = snd (sys_unlink fault (fp_responses paths) s2) in
      if 0 \<le> sv_lock_fd sv then release_lock (lock_path (fp_directory paths)) (sv_lock_fd sv) s3 else s3)"

section \<open>The client\<close>

definition FifoClient :: "faults \<Rightarrow> string \<Rightarrow> os \<Rightarrow> transport result \<times> os" where
  "FifoClient fault directory s0 =
     (let paths = fifo_paths directory in
      case validate_fifo fault (fp_requests paths) s0 of Inl e \<Rightarrow> (Inl e, s0) | Inr _ \<Rightarrow>
      case validate_fifo fault (fp_responses paths) s0 of Inl e \<Rightarrow> (Inl e, s0) | Inr _ \<Rightarrow>
      (case open_fifo fault (fp_requests paths) s0 of
         (Inl e, s1) \<Rightarrow> (Inl e, s1)
       | (Inr request, s1) \<Rightarrow>
           (case open_fifo fault (fp_responses paths) s1 of
              (Inl e, s2) \<Rightarrow> (Inl e, close_descriptor request s2)
            | (Inr response, s2) \<Rightarrow> (Inr (Transport paths response request), s2))))"

section \<open>What the steps change\<close>

definition own_fifo :: "os \<Rightarrow> inode option \<Rightarrow> bool" where
  "own_fifo s i \<longleftrightarrow> (\<exists>n. i = Some n \<and> ino_kind n = FifoFile \<and> ino_uid n = os_uid s)"

definition replaceable :: "os \<Rightarrow> string \<Rightarrow> bool" where
  "replaceable s p \<longleftrightarrow> os_files s p = None \<or> own_fifo s (os_files s p)"

abbreviation new_fifo :: "os \<Rightarrow> inode option" where
  "new_fifo s \<equiv> Some \<lparr>ino_kind = FifoFile, ino_uid = os_uid s, ino_private = True\<rparr>"

definition fds_ok :: "os \<Rightarrow> bool" where
  "fds_ok s \<longleftrightarrow> 0 \<le> os_next_fd s \<and> (\<forall>(d, p) \<in> set (os_fds s). d < os_next_fd s)"

lemma set_file_simps [simp]:
  "os_uid (set_file p i s) = os_uid s" "os_locked (set_file p i s) = os_locked s"
  "os_fds (set_file p i s) = os_fds s" "os_next_fd (set_file p i s) = os_next_fd s"
  "os_files (set_file p i s) = (os_files s)(p := i)" "fds_ok (set_file p i s) = fds_ok s"
  by (simp_all add: set_file_def fds_ok_def)

lemma set_file_same: "set_file p (os_files s p) s = s"
  by (simp add: set_file_def)

lemma set_file_twice [simp]: "set_file p i (set_file p j s) = set_file p i s"
  by (simp add: set_file_def)

lemma close_descriptor_simps [simp]:
  "os_uid (close_descriptor d s) = os_uid s" "os_locked (close_descriptor d s) = os_locked s"
  "os_files (close_descriptor d s) = os_files s" "os_next_fd (close_descriptor d s) = os_next_fd s"
  by (simp_all add: close_descriptor_def)

lemma close_fresh: "fds_ok s \<Longrightarrow> os_next_fd s \<le> d \<Longrightarrow> filter (\<lambda>(x, _). x \<noteq> d) (os_fds s) = os_fds s"
  by (force simp: fds_ok_def intro: filter_True)

lemma os_fds_close: "0 \<le> d \<Longrightarrow> os_fds (close_descriptor d s) = filter (\<lambda>(x, _). x \<noteq> d) (os_fds s)"
  by (simp add: close_descriptor_def)

lemma close_negative [simp]: "close_descriptor (-1) s = s"
  by (simp add: close_descriptor_def)

lemma create_fifo_spec:
  assumes "create_fifo fault p s = (r, s')"
  shows "\<exists>i. s' = set_file p i s \<and> (i \<noteq> os_files s p \<longrightarrow> replaceable s p) \<and>
    (case r of Inr _ \<Rightarrow> i = new_fifo s \<and> replaceable s p | Inl _ \<Rightarrow> i = None \<or> i = os_files s p)"
proof -
  have "s' = s \<and> (\<exists>e. r = Inl e) \<or> s' = set_file p None s \<and> (\<exists>e. r = Inl e) \<and> replaceable s p \<or>
      s' = set_file p (new_fifo s) s \<and> (\<exists>x. r = Inr x) \<and> replaceable s p"
    using assms
    by (auto simp: create_fifo_def make_fifo_def sys_lstat_def sys_unlink_def own_fifo_def replaceable_def
        split: stat_result.splits option.splits prod.splits if_splits)
  then show ?thesis
  proof (elim disjE conjE exE, goal_cases)
    case (1 e)
    then show ?case using set_file_same [of p s] by (intro exI [of _ "os_files s p"]) simp
  qed auto
qed

lemma open_fifo_spec:
  assumes "open_fifo fault p s = (r, s')"
  shows "case r of Inl _ \<Rightarrow> s' = s
    | Inr d \<Rightarrow> d = os_next_fd s \<and> s' = s\<lparr>os_fds := (d, p) # os_fds s, os_next_fd := d + 1\<rparr>"
  using assms by (auto simp: open_fifo_def sys_open_def split: option.splits if_splits)

lemma length_path_append: "length directory < length (path_append directory (c # name))"
  by (simp add: path_append_def)

lemma path_append_inj: "path_append directory a = path_append directory b \<longleftrightarrow> a = b"
  by (auto simp: path_append_def)

lemma paths_distinct [simp]:
  "fp_requests (fifo_paths d) \<noteq> fp_responses (fifo_paths d)" "fp_responses (fifo_paths d) \<noteq> fp_requests (fifo_paths d)"
  "lock_path d \<noteq> fp_requests (fifo_paths d)" "lock_path d \<noteq> fp_responses (fifo_paths d)"
  "fp_requests (fifo_paths d) \<noteq> lock_path d" "fp_responses (fifo_paths d) \<noteq> lock_path d"
  "fp_directory (fifo_paths d) = d"
  by (simp_all add: fifo_paths_def lock_path_def path_append_inj)

lemma paths_longer:
  "length d < length (fp_requests (fifo_paths d))" "length d < length (fp_responses (fifo_paths d))"
  "length d < length (lock_path d)"
  using length_path_append [of d] by (simp_all add: fifo_paths_def lock_path_def)

text \<open>Preparing the directory changes nothing but missing components of its path and its own mode.\<close>

lemma make_missing_frame:
  "\<exists>f. fold make_missing ps s = s\<lparr>os_files := f\<rparr> \<and> (\<forall>q. f q \<noteq> os_files s q \<longrightarrow> q \<in> set ps)"
proof (induction ps arbitrary: s)
  case Nil
  show ?case by (rule exI [of _ "os_files s"]) simp
next
  case (Cons p ps)
  obtain f where f: "fold make_missing ps (make_missing p s) = (make_missing p s)\<lparr>os_files := f\<rparr>"
    "\<forall>q. f q \<noteq> os_files (make_missing p s) q \<longrightarrow> q \<in> set ps" using Cons by blast
  have "(make_missing p s)\<lparr>os_files := f\<rparr> = s\<lparr>os_files := f\<rparr>" "q \<noteq> p \<longrightarrow> os_files (make_missing p s) q = os_files s q" for q
    by (simp_all add: make_missing_def set_file_def)
  then show ?case using f by (intro exI [of _ f]) (auto, metis)
qed

lemma prepare_directory_frame:
  assumes "prepare_directory fault d s = (r, s')"
  shows "\<exists>f. s' = s\<lparr>os_files := f\<rparr> \<and> (\<forall>q. f q \<noteq> os_files s q \<longrightarrow> q \<in> set (path_prefixes d))"
proof -
  obtain r1 s1 where made: "create_directories fault d s = (r1, s1)" by fastforce
  then have "s1 = s\<lparr>os_files := os_files s\<rparr> \<or> s1 = fold make_missing (path_prefixes d) s"
    by (auto simp: create_directories_def split: option.splits if_splits)
  then obtain f where f: "s1 = s\<lparr>os_files := f\<rparr>" "\<forall>q. f q \<noteq> os_files s q \<longrightarrow> q \<in> set (path_prefixes d)"
    using make_missing_frame [of "path_prefixes d" s] by metis
  have "s' = s1 \<or> (\<exists>i. s' = set_file d i s1)"
    using assms made by (auto simp: prepare_directory_def split: sum.splits option.splits stat_result.splits if_splits)
  moreover have "d \<in> set (path_prefixes d)" by (simp add: path_prefixes_def)
  ultimately show ?thesis using f
  proof (elim disjE exE)
    fix i assume "s' = set_file d i s1"
    then show ?thesis using f \<open>d \<in> set (path_prefixes d)\<close> by (intro exI [of _ "f(d := i)"]) (simp add: set_file_def)
  qed blast
qed

text \<open>Taking the lock, and the set-up of the FIFOs with its undoing.\<close>

lemma take_lock_spec:
  assumes "take_lock fault p s = (r, s')"
  shows "\<exists>i. (case r of
      Inl _ \<Rightarrow> os_files s' = (os_files s)(p := i) \<and> os_uid s' = os_uid s \<and> os_locked s' = os_locked s \<and>
        (fds_ok s \<longrightarrow> os_fds s' = os_fds s)
    | Inr d \<Rightarrow> \<not> os_locked s p \<and> d = os_next_fd s \<and>
        s' = (set_file p i s)\<lparr>os_fds := (d, p) # os_fds s, os_next_fd := d + 1, os_locked := (os_locked s)(p := True)\<rparr>)"
proof -
  obtain r1 s1 where run: "open_lock fault p s = (r1, s1)" by fastforce
  then obtain i where lock: "case r1 of Inl _ \<Rightarrow> s1 = set_file p i s
      | Inr d \<Rightarrow> d = os_next_fd s \<and> s1 = (set_file p i s)\<lparr>os_fds := (d, p) # os_fds s, os_next_fd := d + 1\<rparr>"
    using set_file_same [of p s]
    by (auto simp: open_lock_def sys_open_def Let_def split: if_splits option.splits; metis)
  show ?thesis
  proof (cases r1)
    case (Inl e)
    then have "r = Inl e" "s' = s1" using assms run by (simp_all add: take_lock_def)
    then show ?thesis using lock Inl by auto
  next
    case (Inr d)
    have closed: "os_fds (close_descriptor d s1) = os_fds s" if "fds_ok s"
      using lock Inr that close_fresh [OF that, of d] by (auto simp: close_descriptor_def fds_ok_def)
    have "r = Inr d \<and> s' = s1\<lparr>os_locked := (os_locked s1)(p := True)\<rparr> \<and> \<not> os_locked s1 p \<or>
        (\<exists>e. r = Inl e) \<and> s' = close_descriptor d s1"
      using assms run Inr by (auto simp: take_lock_def split: if_splits)
    then show ?thesis using lock Inr closed by (intro exI [of _ i]) auto
  qed
qed


lemma setup_fifos_spec:
  assumes "setup_fifos fault (fifo_paths dir) s = (r, u, s')"
    and "req = fp_requests (fifo_paths dir)" "resp = fp_responses (fifo_paths dir)"
  shows "\<exists>i j. os_files s' = (os_files s)(req := i, resp := j) \<and>
    os_uid s' = os_uid s \<and> os_locked s' = os_locked s \<and>
    (i \<noteq> os_files s req \<or> su_request_created u \<longrightarrow> replaceable s req) \<and>
    (j \<noteq> os_files s resp \<or> su_response_created u \<longrightarrow> replaceable s resp) \<and>
    (su_request_created u \<or> i = None \<or> i = os_files s req) \<and>
    (su_response_created u \<or> j = None \<or> j = os_files s resp) \<and>
    (if r = None then i = new_fifo s \<and> j = new_fifo s \<and> su_request u = os_next_fd s \<and> su_response u = os_next_fd s + 1 \<and>
       os_fds s' = (os_next_fd s + 1, resp) # (os_next_fd s, req) # os_fds s
     else fds_ok s \<longrightarrow> os_fds (close_descriptor (su_response u) (close_descriptor (su_request u) s')) = os_fds s)"
proof -
  have neq: "req \<noteq> resp" using assms(2,3) by simp
  obtain r1 s1 where c1: "create_fifo fault req s = (r1, s1)" by fastforce
  obtain i where i: "s1 = set_file req i s" "i \<noteq> os_files s req \<longrightarrow> replaceable s req"
      "case r1 of Inr _ \<Rightarrow> i = new_fifo s \<and> replaceable s req | Inl _ \<Rightarrow> i = None \<or> i = os_files s req"
    using create_fifo_spec [OF c1] by blast
  show ?thesis
  proof (cases r1)
    case (Inl e)
    then show ?thesis using assms c1 i
      by (intro exI [of _ i] exI [of _ "os_files s resp"]) (auto simp: setup_fifos_def Let_def)
  next
    case r1: (Inr x)
    obtain r2 s2 where c2: "create_fifo fault resp s1 = (r2, s2)" by fastforce
    obtain j where "s2 = set_file resp j s1" "j \<noteq> os_files s1 resp \<longrightarrow> replaceable s1 resp"
        "case r2 of Inr _ \<Rightarrow> j = new_fifo s1 \<and> replaceable s1 resp | Inl _ \<Rightarrow> j = None \<or> j = os_files s1 resp"
      using create_fifo_spec [OF c2] by blast
    then have j: "s2 = set_file resp j s1" "j \<noteq> os_files s resp \<longrightarrow> replaceable s resp"
        "case r2 of Inr _ \<Rightarrow> j = new_fifo s \<and> replaceable s resp | Inl _ \<Rightarrow> j = None \<or> j = os_files s resp"
      using i(1) neq by (simp_all add: replaceable_def own_fifo_def split: sum.splits)
    obtain r3 s3 where c3: "open_fifo fault req s2 = (r3, s3)" by fastforce
    obtain r4 s4 where c4: "open_fifo fault resp s3 = (r4, s4)" by fastforce
    note o3 = open_fifo_spec [OF c3] and o4 = open_fifo_spec [OF c4]
    consider e where "r2 = Inl e" | y e where "r2 = Inr y" "r3 = Inl e" | y d e where "r2 = Inr y" "r3 = Inr d" "r4 = Inl e"
      | y d d' where "r2 = Inr y" "r3 = Inr d" "r4 = Inr d'"
      by (cases r2; cases r3; cases r4) auto
    then show ?thesis
    proof cases
      case (1 e)
      then have "r = Some e" "s' = s2" "su_request u = -1" "su_response u = -1" "su_request_created u" "\<not> su_response_created u"
        using assms(1) c1 r1 c2 by (auto simp: setup_fifos_def Let_def simp flip: assms(2,3))
      then show ?thesis using i r1 j 1 by (intro exI [of _ i] exI [of _ j]) simp
    next
      case (2 y e)
      then have "r = Some e" "s' = s3" "su_request u = -1" "su_response u = -1" "su_request_created u" "su_response_created u"
        using assms(1) c1 r1 c2 c3 by (auto simp: setup_fifos_def Let_def simp flip: assms(2,3))
      then show ?thesis using i r1 j 2 o3 by (intro exI [of _ i] exI [of _ j]) simp
    next
      case (3 y d e)
      then have "r = Some e" "s' = s4" "su_request u = d" "su_response u = -1" "su_request_created u" "su_response_created u"
        using assms(1) c1 r1 c2 c3 c4 by (auto simp: setup_fifos_def Let_def simp flip: assms(2,3))
      then show ?thesis using i r1 j 3 o3 o4 close_fresh [of s d]
        by (intro exI [of _ i] exI [of _ j]) (simp add: close_descriptor_def fds_ok_def)
    next
      case (4 y d d')
      then have "r = None" "s' = s4" "su_request u = d" "su_response u = d'" "su_request_created u" "su_response_created u"
        using assms(1) c1 r1 c2 c3 c4 by (auto simp: setup_fifos_def Let_def simp flip: assms(2,3))
      then show ?thesis using i r1 j 4 o3 o4 by (intro exI [of _ i] exI [of _ j]) simp
    qed
  qed
qed


lemma FifoServer_cases:
  assumes "FifoServer fault dir s = (r, s')"
  obtains (directory) e where "prepare_directory fault dir s = (Inl e, s')" "r = Inl e"
  | (lock) s1 e where "prepare_directory fault dir s = (Inr (), s1)" "take_lock fault (lock_path dir) s1 = (Inl e, s')" "r = Inl e"
  | (fifos) s1 d s2 e u s3 where "prepare_directory fault dir s = (Inr (), s1)" "take_lock fault (lock_path dir) s1 = (Inr d, s2)"
      "setup_fifos fault (fifo_paths dir) s2 = (Some e, u, s3)" "r = Inl e"
      "s' = release_lock (lock_path dir) d (undo_setup fault (fifo_paths dir) u s3)"
  | (ready) s1 d s2 u where "prepare_directory fault dir s = (Inr (), s1)" "take_lock fault (lock_path dir) s1 = (Inr d, s2)"
      "setup_fifos fault (fifo_paths dir) s2 = (None, u, s')"
      "r = Inr \<lparr>sv_transport = Transport (fifo_paths dir) (su_request u) (su_response u), sv_lock_fd = d\<rparr>"
  using assms that by (auto simp: FifoServer_def Let_def split: prod.splits sum.splits option.splits)

text \<open>The state after the directory has been prepared, seen from the lock and the FIFOs.\<close>

lemma prepared:
  assumes "prepare_directory fault dir s = (r, s1)"
  shows "os_locked s1 = os_locked s" "os_fds s1 = os_fds s" "os_next_fd s1 = os_next_fd s" "os_uid s1 = os_uid s"
    "fds_ok s1 = fds_ok s" "os_files s1 q \<noteq> os_files s q \<Longrightarrow> q \<in> set (path_prefixes dir)"
    "replaceable s1 (fp_requests (fifo_paths dir)) = replaceable s (fp_requests (fifo_paths dir))"
    "replaceable s1 (fp_responses (fifo_paths dir)) = replaceable s (fp_responses (fifo_paths dir))"
    "os_files s1 (fp_requests (fifo_paths dir)) = os_files s (fp_requests (fifo_paths dir))"
    "os_files s1 (fp_responses (fifo_paths dir)) = os_files s (fp_responses (fifo_paths dir))"
proof -
  obtain f where f: "s1 = s\<lparr>os_files := f\<rparr>" "\<forall>q. f q \<noteq> os_files s q \<longrightarrow> q \<in> set (path_prefixes dir)"
    using prepare_directory_frame [OF assms] by blast
  then show "os_locked s1 = os_locked s" "os_fds s1 = os_fds s" "os_next_fd s1 = os_next_fd s" "os_uid s1 = os_uid s"
    "fds_ok s1 = fds_ok s" "os_files s1 q \<noteq> os_files s q \<Longrightarrow> q \<in> set (path_prefixes dir)"
    by (simp_all add: fds_ok_def)
  have "length q \<le> length dir" if "q \<in> set (path_prefixes dir)" for q
    using that by (auto simp: path_prefixes_def)
  then have longer: "f q = os_files s q" if "length dir < length q" for q using f(2) that by (meson not_le)
  show "os_files s1 (fp_requests (fifo_paths dir)) = os_files s (fp_requests (fifo_paths dir))"
    "os_files s1 (fp_responses (fifo_paths dir)) = os_files s (fp_responses (fifo_paths dir))"
    using longer paths_longer f(1) by simp_all
  then show "replaceable s1 (fp_requests (fifo_paths dir)) = replaceable s (fp_requests (fifo_paths dir))"
    "replaceable s1 (fp_responses (fifo_paths dir)) = replaceable s (fp_responses (fifo_paths dir))"
    using f(1) by (simp_all add: replaceable_def own_fifo_def)
qed

section \<open>Properties\<close>

text \<open>
  C16 (one server per directory).  The constructor of the server succeeds only when nobody holds the lock of
  the directory; afterwards the lock is held and both FIFOs are new, owned by the user and private.
  While another engine holds the lock, it throws and leaves both FIFO paths alone.
\<close>

theorem server_exclusive:
  "case FifoServer fault dir s of
     (Inr sv, s') \<Rightarrow> \<not> os_locked s (lock_path dir) \<and> os_locked s' = (os_locked s)(lock_path dir := True) \<and>
       tp_paths (sv_transport sv) = fifo_paths dir \<and>
       os_files s' (fp_requests (fifo_paths dir)) = new_fifo s \<and> os_files s' (fp_responses (fifo_paths dir)) = new_fifo s
   | (Inl e, s') \<Rightarrow> os_locked s (lock_path dir) \<longrightarrow>
       os_files s' (fp_requests (fifo_paths dir)) = os_files s (fp_requests (fifo_paths dir)) \<and>
       os_files s' (fp_responses (fifo_paths dir)) = os_files s (fp_responses (fifo_paths dir))"
proof -
  obtain r s' where run: "FifoServer fault dir s = (r, s')" by fastforce
  from run show ?thesis
  proof (cases rule: FifoServer_cases)
    case directory
    then show ?thesis using run prepared by simp
  next
    case (lock s1 e)
    then show ?thesis using run prepared [OF lock(1)] take_lock_spec [OF lock(2)] by auto
  next
    case (fifos s1 d s2 e u s3)
    then show ?thesis using run prepared [OF fifos(1)] take_lock_spec [OF fifos(2)] by auto
  next
    case (ready s1 d s2 u)
    then show ?thesis using run prepared [OF ready(1)] take_lock_spec [OF ready(2)] setup_fifos_spec [OF ready(3) refl refl]
      by (auto simp: Transport_def)
  qed
qed

lemma locked_again: "\<not> f p \<Longrightarrow> f(p := True, p := False) = f" for f :: "string \<Rightarrow> bool"
  by (simp add: fun_upd_idem)


text \<open>
  Closing the server.  Building the server and destroying it gives back the lock and every descriptor
  and removes both FIFOs, when the operating system lets the two paths be unlinked.
\<close>

theorem server_close_releases:
  assumes "fds_ok s" "FifoServer fault dir s = (Inr sv, s')" "\<forall>p. fault Sys_unlink p = None"
  shows "os_locked (close_server fault sv s') = os_locked s \<and> os_fds (close_server fault sv s') = os_fds s \<and>
    os_files (close_server fault sv s') (fp_requests (fifo_paths dir)) = None \<and>
    os_files (close_server fault sv s') (fp_responses (fifo_paths dir)) = None"
  using assms(2)
proof (cases rule: FifoServer_cases)
  case (ready s1 d s2 u)
  let ?req = "fp_requests (fifo_paths dir)" and ?resp = "fp_responses (fifo_paths dir)"
  note p = prepared [OF ready(1)]
  obtain n where lock: "\<not> os_locked s1 (lock_path dir)" "d = os_next_fd s1"
      "s2 = (set_file (lock_path dir) n s1)\<lparr>os_fds := (d, lock_path dir) # os_fds s1, os_next_fd := d + 1,
        os_locked := (os_locked s1)(lock_path dir := True)\<rparr>"
    using take_lock_spec [OF ready(2)] by auto
  have set: "os_files s' ?req = new_fifo s2" "os_files s' ?resp = new_fifo s2" "os_locked s' = os_locked s2"
      "su_request u = d + 1" "su_response u = d + 2" "os_fds s' = (d + 2, ?resp) # (d + 1, ?req) # (d, lock_path dir) # os_fds s1"
    using setup_fifos_spec [OF ready(3) refl refl] lock(3) by auto
  have sv: "sv = \<lparr>sv_transport = Transport (fifo_paths dir) (d + 1) (d + 2), sv_lock_fd = d\<rparr>"
    using ready(4) set(4,5) by simp
  have d: "0 \<le> d" "filter (\<lambda>(x, _). x \<noteq> d) (os_fds s1) = os_fds s1" "filter (\<lambda>(x, _). x \<noteq> d + 1) (os_fds s1) = os_fds s1"
      "filter (\<lambda>(x, _). x \<noteq> d + 2) (os_fds s1) = os_fds s1"
    using close_fresh [of s1] p(5) assms(1) lock(2) by (auto simp: fds_ok_def)
  have "close_server fault sv s' = release_lock (lock_path dir) d (set_file ?resp None (set_file ?req None
      (close_descriptor (d + 2) (close_descriptor (d + 1) s'))))"
    using set(1,2) d(1) assms(3) by (simp add: close_server_def Let_def sv Transport_def close_transport_def sys_unlink_def)
  moreover have "os_fds (close_descriptor (d + 2) (close_descriptor (d + 1) s')) = (d, lock_path dir) # os_fds s1"
    using set(6) d by (simp add: close_descriptor_def)
  ultimately show ?thesis
    using d set(3) lock(1,3) p(1,2) locked_again [of "os_locked s1" "lock_path dir"]
    by (simp add: release_lock_def os_fds_close)
qed simp_all

text \<open>
  The client.  The constructor of the client succeeds only when both paths are FIFOs of the same user,
  and connects its read end to the responses and its write end to the requests; when it throws, no
  descriptor is left open.  It never changes a file or a lock.
\<close>

theorem client_connects:
  assumes "fds_ok s" "FifoClient fault dir s = (r, s')"
  shows "os_files s' = os_files s \<and> os_locked s' = os_locked s \<and>
    (case r of
       Inl e \<Rightarrow> os_fds s' = os_fds s
     | Inr t \<Rightarrow> own_fifo s (os_files s (fp_requests (fifo_paths dir))) \<and>
         own_fifo s (os_files s (fp_responses (fifo_paths dir))) \<and>
         set (os_fds s') = {(tp_read_fd t, fp_responses (fifo_paths dir)), (tp_write_fd t, fp_requests (fifo_paths dir))} \<union>
           set (os_fds s) \<and> tp_read_fd t \<noteq> tp_write_fd t)"
proof -
  let ?req = "fp_requests (fifo_paths dir)" and ?resp = "fp_responses (fifo_paths dir)"
  have valid: "own_fifo s (os_files s p)" if "validate_fifo fault p s = Inr x" for p x
    using that by (auto simp: validate_fifo_def sys_lstat_def own_fifo_def split: option.splits if_splits)
  show ?thesis
  proof (cases "validate_fifo fault ?req s = Inr () \<and> validate_fifo fault ?resp s = Inr ()")
    case False
    then have "s' = s" "\<exists>e. r = Inl e" using assms(2) by (auto simp: FifoClient_def Let_def split: sum.splits)
    then show ?thesis by auto
  next
    case True
    obtain r1 s1 where o1: "open_fifo fault ?req s = (r1, s1)" by fastforce
    obtain r2 s2 where o2: "open_fifo fault ?resp s1 = (r2, s2)" by fastforce
    note spec = open_fifo_spec [OF o1] open_fifo_spec [OF o2]
    show ?thesis
    proof (cases r1)
      case (Inl e)
      then show ?thesis using assms(2) True o1 spec by (auto simp: FifoClient_def Let_def)
    next
      case r1: (Inr request)
      show ?thesis
      proof (cases r2)
        case (Inl e)
        then show ?thesis using assms True o1 o2 r1 spec close_fresh [OF assms(1), of request]
          by (auto simp: FifoClient_def Let_def os_fds_close fds_ok_def)
      next
        case (Inr response)
        then show ?thesis using assms(2) True o1 o2 r1 spec valid
          by (auto simp: FifoClient_def Let_def Transport_def)
      qed
    qed
  qed
qed

section \<open>A small file system\<close>

text \<open>An existing directory of the user, once with the lock free and once with it held elsewhere.\<close>

definition sample_os :: "bool \<Rightarrow> os" where
  "sample_os locked =
     \<lparr>os_uid = 1000,
      os_files = [''k'' \<mapsto> \<lparr>ino_kind = DirectoryFile, ino_uid = 1000, ino_private = False\<rparr>],
      os_locked = (\<lambda>p. locked \<and> p = lock_path ''k''), os_fds = [(0, ''tty'')], os_next_fd = 3\<rparr>"

abbreviation (input) no_faults :: faults where
  "no_faults \<equiv> \<lambda>_ _. None"

lemmas server_defs = FifoServer_def prepare_directory_def create_directories_def sys_lstat_def take_lock_def open_lock_def
  sys_open_def setup_fifos_def create_fifo_def make_fifo_def open_fifo_def sys_unlink_def set_file_def sample_os_def
  fifo_paths_def lock_path_def path_append_def Let_def close_descriptor_def

lemma sample_fds_ok: "fds_ok (sample_os b)"
  by (simp add: fds_ok_def sample_os_def)

lemma sample_server: "\<exists>sv s'. FifoServer no_faults ''k'' (sample_os False) = (Inr sv, s')"
  by (simp add: server_defs)

lemma sample_server_refused: "\<exists>e s'. FifoServer no_faults ''k'' (sample_os True) = (Inl e, s')"
  by (simp add: server_defs)

theorem server_exclusive_witness:
  "(\<exists>sv s'. FifoServer no_faults ''k'' (sample_os False) = (Inr sv, s') \<and> os_locked s' (lock_path ''k'')) \<and>
   (\<exists>e s'. FifoServer no_faults ''k'' (sample_os True) = (Inl e, s') \<and>
      os_files s' (fp_requests (fifo_paths ''k'')) = os_files (sample_os True) (fp_requests (fifo_paths ''k'')))"
proof -
  have locked: "os_locked (sample_os True) (lock_path ''k'')" by (simp add: sample_os_def)
  show ?thesis
    using sample_server sample_server_refused server_exclusive [where fault = no_faults and dir = "''k''" and s = "sample_os False"]
      server_exclusive [where fault = no_faults and dir = "''k''" and s = "sample_os True"] locked
    by force
qed


theorem server_close_releases_witness:
  "\<exists>sv s'. FifoServer no_faults ''k'' (sample_os False) = (Inr sv, s') \<and>
     \<not> os_locked (close_server no_faults sv s') (lock_path ''k'') \<and> os_fds (close_server no_faults sv s') = [(0, ''tty'')]"
proof -
  obtain sv s' where run: "FifoServer no_faults ''k'' (sample_os False) = (Inr sv, s')" using sample_server by blast
  then show ?thesis using server_close_releases [OF sample_fds_ok run] by (simp add: sample_os_def)
qed

theorem client_connects_witness:
  "\<exists>sv s1 t s'. FifoServer no_faults ''k'' (sample_os False) = (Inr sv, s1) \<and>
     FifoClient no_faults ''k'' s1 = (Inr t, s') \<and> os_files s' = os_files s1 \<and>
     own_fifo s1 (os_files s1 (fp_responses (fifo_paths ''k'')))"
proof -
  obtain sv s1 where run: "FifoServer no_faults ''k'' (sample_os False) = (Inr sv, s1)" using sample_server by blast
  then have ok: "fds_ok s1" "\<exists>t s'. FifoClient no_faults ''k'' s1 = (Inr t, s')"
    by (auto simp: server_defs fds_ok_def FifoClient_def validate_fifo_def)
  then obtain t s' where client: "FifoClient no_faults ''k'' s1 = (Inr t, s')" by blast
  then show ?thesis using client_connects [OF ok(1) client] run by auto
qed

end
