(* ===== verification/Kronos_Daemon.thy ===== *)
theory Kronos_Daemon
  imports Kronos_Journal Kronos_Factory Kronos_Endpoints
begin

text \<open>
  The engine process of \<open>apps/kronos_engine.cpp\<close>: option parsing, the listings, and the \<open>Daemon\<close>, which
  recovers the jobs of the log when it starts and then answers the requests of the shell.

  The daemon owns the engine, whose journal is the write-ahead log, and the sending end of the
  response FIFO.  As for the log, the answers of the operating system to the successive sends are part
  of the state of the FIFO.  Worker threads run while the daemon works: where the daemon makes two calls whose results depend on
  the engine (\<open>kill\<close>, the restoring of jobs), what they have done to it in between is a function \<open>workers\<close> given to the operation.
  A command with one call to the engine, such as \<open>submit\<close>, is one sequential call: worker steps between that call, the
  observing of the handle and the answer are not interleaved with it (they do not touch the observers or the FIFO).  Text written to the standard output
  and error streams is not modelled.

  The theorem at the end is about the options; the answers and the recovery have theories of their own.
\<close>

section \<open>Options\<close>

record daemon_options =
  do_ipc_directory :: string
  do_wal_path :: "string option"
  do_workers :: u64
  do_scheduler :: scheduler_config

definition parse_integer_u64 :: "string \<Rightarrow> string \<Rightarrow> u64 result" where
  "parse_integer_u64 s label =
     (case from_chars_u64 s of
        (parsed, rest, error) \<Rightarrow>
          if error \<noteq> errc_ok \<or> rest \<noteq> [] then Inl (invalid_argument (label @ '' must be an integer''))
          else Inr parsed)"

definition parse_integer_int :: "string \<Rightarrow> string \<Rightarrow> int result" where
  "parse_integer_int s label =
     (case from_chars_int int32_range s of
        (parsed, rest, error) \<Rightarrow>
          if error \<noteq> errc_ok \<or> rest \<noteq> [] then Inl (invalid_argument (label @ '' must be an integer''))
          else Inr parsed)"

definition parse_positive_size :: "string \<Rightarrow> string \<Rightarrow> u64 result" where
  "parse_positive_size s label =
     (case parse_integer_u64 s label of Inl e \<Rightarrow> Inl e | Inr parsed \<Rightarrow>
        if parsed = 0 then Inl (invalid_argument (label @ '' must be greater than zero'')) else Inr parsed)"

definition parse_scheduler :: "string \<Rightarrow> scheduler_kind result" where
  "parse_scheduler s =
     (if s = ''fifo'' then Inr Fifo
      else if s = ''priority'' then Inr Priority
      else if s = ''sjf'' then Inr ShortestJobFirst
      else if s = ''rr'' \<or> s = ''round-robin'' then Inr RoundRobin
      else Inl (invalid_argument (''unknown scheduler: '' @ s)))"

text \<open>
  \<open>parse_options\<close> on the arguments after the program name; \<open>Inr None\<close> is the exit after \<open>--help\<close>.
\<close>

fun parse_options_loop :: "daemon_options \<Rightarrow> string list \<Rightarrow> daemon_options option result" where
  "parse_options_loop options [] = Inr (Some options)"
| "parse_options_loop options (argument # arguments) =
     (let require_value = (\<lambda>use. case arguments of
            [] \<Rightarrow> Inl (invalid_argument (argument @ '' requires a value''))
          | v # arguments' \<Rightarrow>
              (case use v of Inl e \<Rightarrow> Inl e | Inr options' \<Rightarrow> parse_options_loop options' arguments')) in
      if argument = ''--ipc-dir'' then require_value (\<lambda>v. Inr (options\<lparr>do_ipc_directory := v\<rparr>))
      else if argument = ''--wal'' then require_value (\<lambda>v. Inr (options\<lparr>do_wal_path := Some v\<rparr>))
      else if argument = ''--workers'' then
        require_value (\<lambda>v. map_sum (\<lambda>e. e) (\<lambda>n. options\<lparr>do_workers := n\<rparr>) (parse_positive_size v argument))
      else if argument = ''--scheduler'' then
        require_value (\<lambda>v. map_sum (\<lambda>e. e)
          (\<lambda>k. options\<lparr>do_scheduler := (do_scheduler options)\<lparr>cfg_kind := k\<rparr>\<rparr>) (parse_scheduler v))
      else if argument = ''--quantum'' then
        require_value (\<lambda>v. map_sum (\<lambda>e. e)
          (\<lambda>n. options\<lparr>do_scheduler := (do_scheduler options)\<lparr>cfg_quantum := n\<rparr>\<rparr>) (parse_positive_size v argument))
      else if argument = ''--help'' \<or> argument = ''-h'' then Inr None
      else Inl (invalid_argument (''unknown option: '' @ argument)))"

definition default_options :: "string \<Rightarrow> daemon_options" where
  "default_options ipc_directory =
     \<lparr>do_ipc_directory = ipc_directory, do_wal_path = None, do_workers = 0,
      do_scheduler = \<lparr>cfg_kind = Fifo, cfg_quantum = 100\<rparr>\<rparr>"

definition parse_options :: "string \<Rightarrow> string list \<Rightarrow> daemon_options option result" where
  "parse_options ipc_directory arguments =
     map_sum (\<lambda>e. e) (map_option (\<lambda>options.
         if do_wal_path options = None
         then options\<lparr>do_wal_path := Some (path_append (do_ipc_directory options) ''kronos.wal'')\<rparr>
         else options))
       (parse_options_loop (default_options ipc_directory) arguments)"

section \<open>Listings\<close>

definition snapshot_line :: "job_snapshot \<Rightarrow> string" where
  "snapshot_line job =
     setw_left 6 (u64_to_string (snap_id job)) @ setw_left 20 (snap_name job) @
     setw_left 12 (job_state_to_string (snap_state job)) @ setw_left 10 (int_to_string (snap_priority job)) @
     u64_to_string (snap_work_units_consumed job) @ ''/'' @ u64_to_string (snap_estimated_work_units job) @ [newline]"

definition format_snapshots :: "job_snapshot list \<Rightarrow> bool \<Rightarrow> string" where
  "format_snapshots jobs terminal =
     (let listed = filter (\<lambda>job. is_terminal (snap_state job) = terminal) jobs in
      if listed = [] then (if terminal then ''No completed jobs.'' else ''No active jobs.'')
      else setw_left 6 ''ID'' @ setw_left 20 ''NAME'' @ setw_left 12 ''STATE'' @ setw_left 10 ''PRIORITY'' @
        ''WORK'' @ [newline] @ concat (map snapshot_line listed))"

definition history_line :: "recovered_job \<Rightarrow> string" where
  "history_line job =
     setw_left 6 (u64_to_string (sub_id (rj_submission job))) @ setw_left 20 (sub_name (rj_submission job)) @
     setw_left 12 (job_state_to_string (rj_state job)) @ rj_message job @ [newline]"

definition format_history :: "recovery_report \<Rightarrow> string" where
  "format_history report =
     (let listed = filter (\<lambda>job. is_terminal (rj_state job)) (rep_jobs report) in
      if listed = [] then ''No completed jobs.''
      else setw_left 6 ''ID'' @ setw_left 20 ''NAME'' @ setw_left 12 ''STATE'' @ ''RESULT'' @ [newline] @
        concat (map history_line listed))"

section \<open>The response FIFO\<close>

text \<open>
  The answers to one send: results of \<open>::write\<close> and \<open>::poll\<close>, after which the FIFO accepts what is left.
\<close>

record send_answer =
  sa_writes :: "send_result list"
  sa_polls :: "poll_result list"

record fifo_out =
  fo_bytes :: string
  fo_answers :: "send_answer list"
  fo_later :: send_answer

definition next_send :: "fifo_out \<Rightarrow> send_answer \<times> fifo_out" where
  "next_send out =
     (case fo_answers out of [] \<Rightarrow> (fo_later out, out) | a # as \<Rightarrow> (a, out\<lparr>fo_answers := as\<rparr>))"

fun outcome_error :: "'a outcome \<Rightarrow> exn option" where
  "outcome_error (Raise e) = Some e"
| "outcome_error _ = None"

definition server_send :: "protocol_message \<Rightarrow> fifo_out \<Rightarrow> exn option \<times> fifo_out" where
  "server_send message out =
     (let (a, out') = next_send out in
      case transport_send (sa_writes a @ [SentBytes max_message_size])
             (sa_polls a @ replicate (length (sa_writes a)) PollReady) message (fo_bytes out') of
        (result, bytes) \<Rightarrow> (outcome_error result, out'\<lparr>fo_bytes := bytes\<rparr>))"

section \<open>The daemon\<close>

type_synonym task_engine = "(task, wal_manager) engine"

record daemon =
  dm_engine :: task_engine
  dm_out :: fifo_out
  dm_observers :: "job_handle list"
  dm_recovered_count :: nat
  dm_stop_requested :: bool

definition respond :: "u64 \<Rightarrow> string \<Rightarrow> string \<Rightarrow> daemon \<Rightarrow> exn option \<times> daemon" where
  "respond request_id kind message d =
     (case server_send \<lparr>msg_request_id = request_id, msg_kind = kind, msg_fields = [message]\<rparr> (dm_out d) of
        (error, out) \<Rightarrow> (error, d\<lparr>dm_out := out\<rparr>))"

definition observe :: "job_handle \<Rightarrow> daemon \<Rightarrow> daemon" where
  "observe handle d = d\<lparr>dm_observers := dm_observers d @ [handle]\<rparr>"

text \<open>
  The thread of an observer: the polls of the stop token and of the future (\<open>wait_for\<close>) until the wait ends;
  then the token is read again before the notification.
\<close>

fun observer_wait :: "(bool \<times> bool) list \<Rightarrow> bool" where
  "observer_wait [] = False"
| "observer_wait ((stop_requested, ready) # polls) = (if \<not> stop_requested \<and> \<not> ready then observer_wait polls else True)"

definition event_message :: "job_result \<Rightarrow> protocol_message" where
  "event_message result =
     \<lparr>msg_request_id = 0, msg_kind = ''EVENT'',
      msg_fields = [''job '' @ u64_to_string (res_id result) @ '' '' @ job_state_to_string (res_state result) @
        '': '' @ res_message result]\<rparr>"

definition observer_notify :: "bool \<Rightarrow> job_result \<Rightarrow> daemon \<Rightarrow> daemon" where
  "observer_notify stop_requested result d =
     (if stop_requested then d
      else d\<lparr>dm_out := snd (server_send (event_message result) (dm_out d))\<rparr>)"

definition help_text :: string where
  "help_text =
     ''submit prime <upper-bound> [priority]'' @ [newline] @
     ''submit step <steps> <delay-ms> [priority]'' @ [newline] @
     ''ps'' @ [newline] @ ''kill <job-id>'' @ [newline] @ ''history'' @ [newline] @
     ''scheduler <fifo|priority|sjf|rr> [quantum]'' @ [newline] @
     ''ping'' @ [newline] @ ''shutdown'' @ [newline] @ ''quit''"

text \<open>
  \<open>wal_->recover()\<close>: the log is the journal of the engine, which the daemon always gives it; the case
  without a journal does not occur.
\<close>

record recover_answer =
  ra_readable :: bool
  ra_ftruncate :: "string option"
  ra_fsync :: "string option"

definition daemon_recover_log :: "recover_answer \<Rightarrow> daemon \<Rightarrow> recovery_report result \<times> daemon" where
  "daemon_recover_log ra d =
     (case en_journal (dm_engine d) of
        None \<Rightarrow> (Inl (runtime_error ''no journal''), d)
      | Some w \<Rightarrow>
          (case wal_recover (wm_path w) (ra_readable ra) (ra_ftruncate ra) (ra_fsync ra) (wm_file w) of
             (contents, report) \<Rightarrow>
               (report, d\<lparr>dm_engine := (dm_engine d)\<lparr>en_journal := Some (w\<lparr>wm_file := contents\<rparr>)\<rparr>\<rparr>)))"

definition submit_usage :: exn where
  "submit_usage = invalid_argument (''usage: submit prime <upper-bound> [priority] | '' @
     ''submit step <steps> <delay-ms> [priority]'')"

definition handle_submit :: "time_point \<Rightarrow> protocol_message \<Rightarrow> daemon \<Rightarrow> exn option \<times> daemon" where
  "handle_submit now request d =
     (let fs = msg_fields request in
      if length fs < 3 then (Some submit_usage, d)
      else
        let type = fs ! 1; required_arguments = (if type = ''prime'' then 1 else 2) in
        if length fs \<noteq> required_arguments + 2 \<and> length fs \<noteq> required_arguments + 3 then (Some submit_usage, d)
        else
          case (if length fs = required_arguments + 3 then parse_integer_int (last fs) ''priority'' else Inr 0) of
            Inl e \<Rightarrow> (Some e, d)
          | Inr priority \<Rightarrow>
              (case create_for_submission type (take required_arguments (drop 2 fs)) priority of
                 Inl e \<Rightarrow> (Some e, d)
               | Inr created \<Rightarrow>
                   (case submit wal_ops now (Some (ct_task created)) (ct_options created) (dm_engine d) of
                      (Inl e, engine) \<Rightarrow> (Some e, d\<lparr>dm_engine := engine\<rparr>)
                    | (Inr handle, engine) \<Rightarrow>
                        respond (msg_request_id request) ''OK'' (''submitted job '' @ u64_to_string (jh_id handle))
                          (observe handle (d\<lparr>dm_engine := engine\<rparr>)))))"

definition handle_scheduler :: "protocol_message \<Rightarrow> daemon \<Rightarrow> exn option \<times> daemon" where
  "handle_scheduler request d =
     (let fs = msg_fields request in
      if length fs < 2 \<or> length fs > 3
      then (Some (invalid_argument ''usage: scheduler <fifo|priority|sjf|rr> [quantum]''), d)
      else case parse_scheduler (fs ! 1) of Inl e \<Rightarrow> (Some e, d) | Inr kind \<Rightarrow>
        (let config = (queue_config (en_queue (dm_engine d)))\<lparr>cfg_kind := kind\<rparr> in
         case (if length fs = 3 then parse_positive_size (fs ! 2) ''quantum'' else Inr (cfg_quantum config)) of
           Inl e \<Rightarrow> (Some e, d)
         | Inr quantum \<Rightarrow>
             (case engine_set_scheduler (config\<lparr>cfg_quantum := quantum\<rparr>) (dm_engine d) of
                (Inl e, engine) \<Rightarrow> (Some e, d\<lparr>dm_engine := engine\<rparr>)
              | (Inr _, engine) \<Rightarrow>
                  respond (msg_request_id request) ''OK'' (''scheduler changed to '' @ scheduler_kind_to_string kind)
                    (d\<lparr>dm_engine := engine\<rparr>))))"

definition handle_kill :: "time_point \<Rightarrow> (task_engine \<Rightarrow> task_engine) \<Rightarrow> protocol_message \<Rightarrow> daemon \<Rightarrow> exn option \<times> daemon" where
  "handle_kill now workers request d =
     (if length (msg_fields request) \<noteq> 2 then (Some (invalid_argument ''usage: kill <job-id>''), d)
      else case parse_integer_u64 (msg_fields request ! 1) ''job ID'' of Inl e \<Rightarrow> (Some e, d) | Inr i \<Rightarrow>
        (let job = get_job i (dm_engine d) in
         case cancel wal_ops now i (workers (dm_engine d)) of
           (cancelled, engine) \<Rightarrow>
             respond (msg_request_id request) (if cancelled then ''OK'' else ''ERROR'')
               (if cancelled then ''cancellation requested for job '' @ u64_to_string i
                else if job \<noteq> None then ''job is already terminal'' else ''job not found'')
               (d\<lparr>dm_engine := engine\<rparr>)))"

definition handle_history :: "recover_answer \<Rightarrow> protocol_message \<Rightarrow> daemon \<Rightarrow> exn option \<times> daemon" where
  "handle_history ra request d =
     (case daemon_recover_log ra d of
        (Inl e, d') \<Rightarrow> (Some e, d')
      | (Inr report, d') \<Rightarrow> respond (msg_request_id request) ''OK'' (format_history report) d')"

text \<open>The body of the \<open>try\<close> block of \<open>handle_request\<close>.\<close>

definition handle_command :: "time_point \<Rightarrow> (task_engine \<Rightarrow> task_engine) \<Rightarrow> recover_answer \<Rightarrow> protocol_message \<Rightarrow>
    daemon \<Rightarrow> exn option \<times> daemon" where
  "handle_command now workers ra request d =
     (let fs = msg_fields request; command = fs ! 0; rid = msg_request_id request in
      if command = ''submit'' then handle_submit now request d
      else if command = ''ps'' then
        if length fs \<noteq> 1 then (Some (invalid_argument ''usage: ps''), d)
        else respond rid ''OK'' (format_snapshots (engine_snapshot (dm_engine d)) False) d
      else if command = ''history'' then
        if length fs \<noteq> 1 then (Some (invalid_argument ''usage: history''), d)
        else handle_history ra request d
      else if command = ''kill'' then handle_kill now workers request d
      else if command = ''scheduler'' then handle_scheduler request d
      else if command = ''ping'' then respond rid ''OK'' ''pong'' d
      else if command = ''help'' then respond rid ''OK'' help_text d
      else if command = ''shutdown'' then
        if length fs \<noteq> 1 then (Some (invalid_argument ''usage: shutdown''), d)
        else case respond rid ''OK'' ''engine shutdown started'' d of
               (Some e, d') \<Rightarrow> (Some e, d')
             | (None, d') \<Rightarrow> (None, d'\<lparr>dm_stop_requested := True\<rparr>)
      else (Some (invalid_argument (''unknown command: '' @ command)), d))"

definition handle_request :: "time_point \<Rightarrow> (task_engine \<Rightarrow> task_engine) \<Rightarrow> recover_answer \<Rightarrow> protocol_message \<Rightarrow>
    daemon \<Rightarrow> exn option \<times> daemon" where
  "handle_request now workers ra request d =
     (if msg_kind request \<noteq> ''REQUEST'' \<or> msg_fields request = []
      then respond (msg_request_id request) ''ERROR'' ''invalid request'' d
      else case handle_command now workers ra request d of
             (None, d') \<Rightarrow> (None, d')
           | (Some error, d') \<Rightarrow> respond (msg_request_id request) ''ERROR'' (what error) d')"

section \<open>Starting\<close>

text \<open>
  The constructor.  \<open>clock\<close> and \<open>workers\<close> are indexed by the job that is being restored.
\<close>

fun reserve_all :: "recovered_job list \<Rightarrow> daemon \<Rightarrow> exn option \<times> daemon" where
  "reserve_all [] d = (None, d)"
| "reserve_all (job # jobs) d =
     (case reserve_recovered_identity (rj_submission job) (dm_engine d) of
        (Inl e, engine) \<Rightarrow> (Some e, d\<lparr>dm_engine := engine\<rparr>)
      | (Inr _, engine) \<Rightarrow> reserve_all jobs (d\<lparr>dm_engine := engine\<rparr>))"

definition recovery_failed :: "recovered_job \<Rightarrow> exn \<Rightarrow> daemon \<Rightarrow> exn option \<times> daemon" where
  "recovery_failed job error d =
     (case en_journal (dm_engine d) of
        None \<Rightarrow> (None, d)
      | Some w \<Rightarrow>
          (case append_transition wal_ops
                  \<lparr>tr_id = sub_id (rj_submission job), tr_state = Failed,
                   tr_work_units_consumed = rj_work_units_consumed job,
                   tr_message = ''recovery failed: '' @ what error\<rparr> w of
             (err, w') \<Rightarrow> (err, d\<lparr>dm_engine := (dm_engine d)\<lparr>en_journal := Some w'\<rparr>\<rparr>)))"

definition restore_job :: "(job_id \<Rightarrow> time_point) \<Rightarrow> (job_id \<Rightarrow> task_engine \<Rightarrow> task_engine) \<Rightarrow> recovered_job \<Rightarrow>
    daemon \<Rightarrow> exn option \<times> daemon" where
  "restore_job clock workers job d =
     (if is_terminal (rj_state job) then (None, d)
      else
        let submission = rj_submission job; i = sub_id submission; engine = workers i (dm_engine d) in
        case factory_restore (sub_task submission) of
          Inl error \<Rightarrow> recovery_failed job error (d\<lparr>dm_engine := engine\<rparr>)
        | Inr t \<Rightarrow>
            (case restore wal_ops (clock i) (Some t) submission engine of
               (Inl error, engine') \<Rightarrow> recovery_failed job error (d\<lparr>dm_engine := engine'\<rparr>)
             | (Inr handle, engine') \<Rightarrow>
                 (None, (observe handle (d\<lparr>dm_engine := engine'\<rparr>))
                    \<lparr>dm_recovered_count := dm_recovered_count d + 1\<rparr>)))"

fun restore_all :: "(job_id \<Rightarrow> time_point) \<Rightarrow> (job_id \<Rightarrow> task_engine \<Rightarrow> task_engine) \<Rightarrow> recovered_job list \<Rightarrow>
    daemon \<Rightarrow> exn option \<times> daemon" where
  "restore_all clock workers [] d = (None, d)"
| "restore_all clock workers (job # jobs) d =
     (case restore_job clock workers job d of
        (Some e, d') \<Rightarrow> (Some e, d')
      | (None, d') \<Rightarrow> restore_all clock workers jobs d')"

definition daemon_recover :: "recover_answer \<Rightarrow> (job_id \<Rightarrow> time_point) \<Rightarrow> (job_id \<Rightarrow> task_engine \<Rightarrow> task_engine) \<Rightarrow>
    daemon \<Rightarrow> exn option \<times> daemon" where
  "daemon_recover ra clock workers d =
     (case daemon_recover_log ra d of
        (Inl e, d') \<Rightarrow> (Some e, d')
      | (Inr recovery, d') \<Rightarrow>
          (case reserve_all (rep_jobs recovery) d' of
             (Some e, d'') \<Rightarrow> (Some e, d'')
           | (None, d'') \<Rightarrow> restore_all clock workers (rep_jobs recovery) d''))"

text \<open>
  The members are built in their order, the FIFO server first; when a later one throws, the server is
  destroyed again.  \<open>log\<close> is the manager of the log as it would be opened, with the contents the file had.
\<close>

definition Daemon :: "faults \<Rightarrow> platform \<Rightarrow> exn option \<Rightarrow> string option \<Rightarrow> string option \<Rightarrow> append_answer list \<times> append_answer \<Rightarrow>
    fifo_out \<Rightarrow> recover_answer \<Rightarrow> (job_id \<Rightarrow> time_point) \<Rightarrow> (job_id \<Rightarrow> task_engine \<Rightarrow> task_engine) \<Rightarrow>
    daemon_options \<Rightarrow> os \<Rightarrow> (fifo_server \<times> daemon) result \<times> os" where
  "Daemon fault platform directories_error open_error existing answers out ra clock workers options s0 =
     (case FifoServer fault (do_ipc_directory options) s0 of
        (Inl e, s1) \<Rightarrow> (Inl e, s1)
      | (Inr server, s1) \<Rightarrow>
          (let path = (case do_wal_path options of Some p \<Rightarrow> p | None \<Rightarrow> []);
               failed = (\<lambda>e. (Inl e, close_server fault server s1)) in
           case wal_open path directories_error open_error existing of Inl e \<Rightarrow> failed e | Inr contents \<Rightarrow>
           (case TaskEngine platform
                   \<lparr>ec_worker_count = unat (do_workers options), ec_scheduler = do_scheduler options,
                    ec_journal = Some \<lparr>wm_path = path, wm_file = contents, wm_answers = fst answers, wm_later = snd answers\<rparr>\<rparr> of
              Inl e \<Rightarrow> failed e
            | Inr engine \<Rightarrow>
                (case daemon_recover ra clock workers
                        \<lparr>dm_engine = engine, dm_out = out, dm_observers = [], dm_recovered_count = 0,
                         dm_stop_requested = False\<rparr> of
                   (Some e, d) \<Rightarrow> failed e
                 | (None, d) \<Rightarrow> (Inr (server, d), s1)))))"

section \<open>Serving\<close>

text \<open>
  One round of the loop in \<open>run\<close>: the signal flag as it is tested, the outcome of \<open>receive\<close>, and what the
  handler is given.  \<open>serve\<close> says whether the loop has ended.
\<close>

record serve_round =
  sr_signal :: bool
  sr_received :: "protocol_message option outcome"
  sr_now :: time_point
  sr_workers :: "task_engine \<Rightarrow> task_engine"
  sr_recover :: recover_answer

fun serve :: "serve_round list \<Rightarrow> daemon \<Rightarrow> bool \<times> daemon" where
  "serve [] d = (dm_stop_requested d, d)"
| "serve (r # rs) d =
     (if dm_stop_requested d \<or> sr_signal r then (True, d)
      else case sr_received r of
             Ret (Some request) \<Rightarrow> serve rs (snd (handle_request (sr_now r) (sr_workers r) (sr_recover r) request d))
           | _ \<Rightarrow> serve rs d)"

text \<open>The end of \<open>run\<close>: \<open>shutdown(Drain)\<close> up to the join of the workers.\<close>

definition daemon_shutdown :: "daemon \<Rightarrow> daemon" where
  "daemon_shutdown d =
     d\<lparr>dm_engine := snd (shutdown_close Drain (shutdown_stop_accepting (dm_engine d)))\<rparr>"

section \<open>Options the engine accepts\<close>

lemma map_sum_Inr_iff: "map_sum f g x = Inr y \<longleftrightarrow> (\<exists>z. x = Inr z \<and> y = g z)"
  by (cases x) auto

lemma parse_positive_size_nonzero: "parse_positive_size s label = Inr n \<Longrightarrow> n \<noteq> 0"
  by (auto simp: parse_positive_size_def split: sum.splits if_splits)

lemma parse_options_loop_quantum:
  "parse_options_loop options arguments = Inr (Some options') \<Longrightarrow> cfg_quantum (do_scheduler options) \<noteq> 0 \<Longrightarrow>
     cfg_quantum (do_scheduler options') \<noteq> 0"
proof (induction "length arguments" arbitrary: options arguments rule: less_induct)
  case less
  show ?case
  proof (cases arguments)
    case Nil
    then show ?thesis using less.prems by simp
  next
    case (Cons argument rest)
    have "\<exists>options1. parse_options_loop options1 (tl rest) = Inr (Some options') \<and> cfg_quantum (do_scheduler options1) \<noteq> 0"
      using less.prems Cons by (cases rest)
        (auto simp: Let_def map_sum_Inr_iff intro: exI split: if_splits sum.splits,
         fastforce dest: parse_positive_size_nonzero)
    moreover have "length (tl rest) < length arguments" using Cons by simp
    ultimately show ?thesis using less.hyps by blast
  qed
qed

lemma TaskQueue_quantum: "cfg_quantum config \<noteq> 0 \<Longrightarrow> \<exists>q. TaskQueue config = Inr q"
  by (cases "cfg_kind config") (auto simp: TaskQueue_def RoundRobinScheduler_def make_scheduler.simps)

text \<open>
  C37 (options are valid).  Every set of options that \<open>parse_options\<close> returns names a log file and a positive
  quantum.  The constructor of the engine therefore never rejects the configuration itself: it runs with
  the requested number of workers (the number of processors, at least one, when none was requested), or it
  throws for a reason of the platform, which is that the vector of threads cannot be that long
  (\<open>std::length_error\<close>, for instance for \<open>--workers 18446744073709551615\<close>), that its allocation fails, or
  that one of its threads cannot be started.
\<close>

theorem daemon_options_valid:
  assumes "parse_options ipc_directory arguments = Inr (Some options)"
  shows "do_wal_path options \<noteq> None \<and> cfg_quantum (do_scheduler options) \<noteq> 0 \<and>
    (let count = (if do_workers options \<noteq> 0 then unat (do_workers options)
                  else max 1 (pf_hardware_concurrency platform)) in
     case TaskEngine platform \<lparr>ec_worker_count = unat (do_workers options), ec_scheduler = do_scheduler options,
         ec_journal = Some w\<rparr> of
       Inr (e :: task_engine) \<Rightarrow>
         en_worker_count e = count \<and> 0 < count \<and> count \<le> pf_max_workers platform \<and>
         queue_config (en_queue e) = do_scheduler options \<and> en_journal e = Some w \<and> en_accepting e
     | Inl error \<Rightarrow>
         (if pf_max_workers platform < count then error = length_error ''vector::reserve''
          else pf_allocation platform count = Some error \<or> (\<exists>i < count. pf_thread platform i = Some error)))"
proof -
  define count where "count = (if do_workers options \<noteq> 0 then unat (do_workers options)
    else max 1 (pf_hardware_concurrency platform))"
  obtain options1 where loop: "parse_options_loop (default_options ipc_directory) arguments = Inr (Some options1)"
    and same: "do_scheduler options = do_scheduler options1" "do_wal_path options \<noteq> None"
    using assms by (cases "parse_options_loop (default_options ipc_directory) arguments")
      (auto simp: parse_options_def split: if_splits)
  have quantum: "cfg_quantum (do_scheduler options) \<noteq> 0"
    using parse_options_loop_quantum [OF loop] by (simp add: same default_options_def)
  then obtain q where q: "TaskQueue (do_scheduler options) = Inr q" using TaskQueue_quantum by blast
  then have config: "queue_config q = do_scheduler options"
    by (auto simp: TaskQueue_def queue_config_def map_sum_Inr_iff)
  have count: "resolved_worker_count (pf_hardware_concurrency platform) (unat (do_workers options)) = count" "0 < count"
    by (auto simp: count_def resolved_worker_count_def unat_eq_0 max_def unat_gt_0)
  have thread: "start_workers platform [0..<count] = Some error \<Longrightarrow> \<exists>i < count. pf_thread platform i = Some error" for error
    using start_workers_Some [of platform "[0..<count]"] by auto
  show ?thesis
    unfolding count_def [symmetric] Let_def
    using same(2) quantum count(2) config thread
    by (auto simp: TaskEngine_def q count(1) Let_def workers_reserve_def split: option.splits if_splits)
qed

theorem daemon_options_valid_witness:
  "\<exists>options (e :: task_engine) w. parse_options ''/tmp/k'' [''--scheduler'', ''rr'', ''--workers'', ''3''] = Inr (Some options) \<and>
     TaskEngine able_platform \<lparr>ec_worker_count = unat (do_workers options), ec_scheduler = do_scheduler options,
       ec_journal = Some w\<rparr> = Inr e \<and> en_worker_count e = 3"
proof -
  let ?w = "\<lparr>wm_path = [], wm_file = [], wm_answers = [], wm_later = \<lparr>ans_writes = [], ans_fsync = None, ans_now = 0\<rparr>\<rparr>"
  obtain options where options: "parse_options ''/tmp/k'' [''--scheduler'', ''rr'', ''--workers'', ''3''] = Inr (Some options)"
      "do_workers options = 3"
  proof -
    have "parse_positive_size ''3'' ''--workers'' = Inr 3"
      by (simp add: parse_positive_size_def parse_integer_u64_def parse_u64_def from_chars_u64_def digits_value_def is_digit_def)
    then show thesis using that by (simp add: parse_options_def parse_scheduler_def)
  qed
  obtain r :: "task_engine result" where r: "TaskEngine able_platform \<lparr>ec_worker_count = unat (do_workers options),
      ec_scheduler = do_scheduler options, ec_journal = Some ?w\<rparr> = r" by blast
  then show ?thesis
    using daemon_options_valid [OF options(1), of able_platform ?w] options
    by (cases r) (auto simp: able_platform_def)
qed

end
