(* ===== verification/Kronos_Requests.thy ===== *)
theory Kronos_Requests
  imports Kronos_Daemon
begin

text \<open>
  What the daemon answers.  The locale \<open>message_sink\<close> is what the request handler relies on: a message that
  fits is sent whole after the messages sent before, one that does not is refused and leaves the sink as it
  was.  It is interpreted for the response FIFO, under the condition that the operating system reports no
  error and no FIFO that stays full for two seconds (a send that times out leaves a part of its line in the FIFO).
\<close>

section \<open>The response FIFO as a sink of messages\<close>

locale message_sink =
  fixes send :: "protocol_message \<Rightarrow> 'o \<Rightarrow> exn option \<times> 'o" and carries :: "'o \<Rightarrow> protocol_message list \<Rightarrow> bool"
    and fits :: "protocol_message \<Rightarrow> bool"
  assumes sends: "carries out ms \<Longrightarrow> fits m \<Longrightarrow> send m out = (err, out') \<Longrightarrow> err = None \<and> carries out' (ms @ [m])"
    and refuses: "carries out ms \<Longrightarrow> \<not> fits m \<Longrightarrow> send m out = (err, out') \<Longrightarrow> err \<noteq> None \<and> carries out' ms"
begin

lemma send_None: "carries out ms \<Longrightarrow> send m out = (None, out') \<Longrightarrow> carries out' (ms @ [m])"
  using sends refuses by blast

lemma send_Some: "carries out ms \<Longrightarrow> send m out = (Some e, out') \<Longrightarrow> \<not> fits m \<and> carries out' ms"
  using sends refuses by blast

end

definition answer_quiet :: "send_answer \<Rightarrow> bool" where
  "answer_quiet a \<longleftrightarrow>
     list_all (\<lambda>r. case r of SentNothing _ \<Rightarrow> False | SendError _ \<Rightarrow> False | _ \<Rightarrow> True) (sa_writes a) \<and>
     list_all (\<lambda>p. case p of PollTimeout \<Rightarrow> False | PollError _ \<Rightarrow> False | _ \<Rightarrow> True) (sa_polls a)"

definition fifo_carries :: "fifo_out \<Rightarrow> protocol_message list \<Rightarrow> bool" where
  "fifo_carries out ms \<longleftrightarrow>
     (\<exists>lines. map encode_message ms = map Inr lines \<and> fo_bytes out = concat lines) \<and>
     list_all answer_quiet (fo_answers out) \<and> answer_quiet (fo_later out)"

definition message_fits :: "protocol_message \<Rightarrow> bool" where
  "message_fits m = (case encode_message m of Inl _ \<Rightarrow> False | Inr line \<Rightarrow> length line \<le> max_message_size)"

lemma poll_loop_quiet:
  "poll_loop ps = Some (p, ps') \<Longrightarrow> list_all Q ps \<Longrightarrow> Q p \<and> list_all Q ps'"
  by (induction ps rule: poll_loop.induct) auto

lemma send_loop_quiet:
  assumes "list_all (\<lambda>r. case r of SentNothing _ \<Rightarrow> False | SendError _ \<Rightarrow> False | _ \<Rightarrow> True) os"
    "list_all (\<lambda>p. case p of PollTimeout \<Rightarrow> False | PollError _ \<Rightarrow> False | _ \<Rightarrow> True) ps"
    "count_list os SendWouldBlock \<le> length (filter (\<lambda>p. p \<noteq> PollInterrupted) ps)" "length s \<le> n"
  shows "send_loop (os @ [SentBytes n]) ps s fifo = (Ret (), fifo @ s)"
  using assms
proof (induction os arbitrary: ps s fifo)
  case Nil
  then show ?case by (cases s) simp_all
next
  case (Cons r os)
  show ?case
  proof (cases s)
    case s: (Cons c cs)
    show ?thesis
    proof (cases r)
      case (SentBytes k)
      have "send_loop (os @ [SentBytes n]) ps (drop k s) (fifo @ take k s) = (Ret (), (fifo @ take k s) @ drop k s)"
        using Cons.prems SentBytes by (intro Cons.IH) auto
      then show ?thesis by (simp add: SentBytes s)
    next
      case SendWouldBlock
      then obtain p ps' where p: "poll_loop ps = Some (p, ps')"
        using Cons.prems(3) by (cases "poll_loop ps") (auto simp: poll_loop_None)
      have "send_loop (os @ [SentBytes n]) ps' s fifo = (Ret (), fifo @ s)"
        using Cons.prems SendWouldBlock poll_loop_quiet [OF p Cons.prems(2)] poll_loop_skips [OF p]
        by (intro Cons.IH) auto
      then show ?thesis using p poll_loop_quiet [OF p Cons.prems(2)]
        by (cases p) (simp_all add: SendWouldBlock s)
    qed (use Cons s in auto)
  qed simp
qed

lemma next_send_quiet:
  assumes "fifo_carries out ms" "next_send out = (a, out')"
  shows "fifo_carries out' ms" "answer_quiet a" "fo_bytes out' = fo_bytes out"
  using assms by (auto simp: next_send_def fifo_carries_def split: list.splits)

lemma transport_send_quiet:
  assumes "answer_quiet a"
  shows "transport_send (sa_writes a @ [SentBytes max_message_size])
      (sa_polls a @ replicate (length (sa_writes a)) PollReady) m fifo =
    (case encode_message m of
       Inl e \<Rightarrow> (Raise e, fifo)
     | Inr line \<Rightarrow>
         if max_message_size < length line then (Raise (invalid_argument ''IPC message exceeded the size limit''), fifo)
         else (Ret (), fifo @ line))"
proof -
  have "count_list ws SendWouldBlock \<le> length ws" for ws by (rule count_le_length)
  then have "count_list (sa_writes a) SendWouldBlock
      \<le> length (filter (\<lambda>p. p \<noteq> PollInterrupted) (sa_polls a @ replicate (length (sa_writes a)) PollReady))"
    by (simp add: trans_le_add2)
  then have "send_loop (sa_writes a @ [SentBytes max_message_size])
      (sa_polls a @ replicate (length (sa_writes a)) PollReady) line fifo = (Ret (), fifo @ line)"
    if "length line \<le> max_message_size" for line
    using assms that by (intro send_loop_quiet) (auto simp: answer_quiet_def list_all_iff)
  then show ?thesis by (simp add: transport_send_def send_line_def split: sum.split)
qed

lemma server_send_quiet:
  assumes "fifo_carries out ms" "server_send m out = (err, out')"
  shows "if message_fits m then err = None \<and> fifo_carries out' (ms @ [m])
    else (\<exists>w. err = Some (invalid_argument w)) \<and> fifo_carries out' ms"
proof -
  obtain a out1 where a: "next_send out = (a, out1)" by fastforce
  note q = next_send_quiet [OF assms(1) a]
  have more: "fifo_carries (out1\<lparr>fo_bytes := fo_bytes out1 @ line\<rparr>) (ms @ [m])" if "encode_message m = Inr line" for line
  proof -
    obtain lines where "map encode_message ms = map Inr lines" "fo_bytes out1 = concat lines"
      using q(1) by (auto simp: fifo_carries_def)
    then show ?thesis using q(1) that
      by (auto simp: fifo_carries_def intro!: exI [of _ "lines @ [line]"])
  qed
  have "fifo_carries (out1\<lparr>fo_bytes := fo_bytes out\<rparr>) ms" using q(1,3) by (simp add: fifo_carries_def)
  moreover have "encode_message m = Inl e \<Longrightarrow> \<exists>w. e = invalid_argument w" for e
    by (auto simp: encode_message_def split: if_splits)
  ultimately show ?thesis using assms(2) q more
    by (auto simp: server_send_def a transport_send_quiet [OF q(2)] message_fits_def
        split: sum.splits if_splits)
qed

interpretation sink: message_sink server_send fifo_carries message_fits
  by unfold_locales (use server_send_quiet in \<open>fastforce split: if_splits\<close>)+

section \<open>One answer per request\<close>

text \<open>The outcome of a handler: one answer with the ID of the request, or an exception and no answer.\<close>

definition answered :: "u64 \<Rightarrow> protocol_message list \<Rightarrow> exn option \<times> daemon \<Rightarrow> bool" where
  "answered rid ms r \<longleftrightarrow>
     (case r of
        (None, d') \<Rightarrow> (\<exists>kind text. (kind = ''OK'' \<or> kind = ''ERROR'') \<and>
            fifo_carries (dm_out d') (ms @ [\<lparr>msg_request_id = rid, msg_kind = kind, msg_fields = [text]\<rparr>]))
      | (Some e, d') \<Rightarrow> fifo_carries (dm_out d') ms)"

lemma respond_answered:
  assumes "fifo_carries (dm_out d) ms" "kind = ''OK'' \<or> kind = ''ERROR''"
  shows "answered rid ms (respond rid kind message d)"
proof -
  obtain err out where run: "server_send \<lparr>msg_request_id = rid, msg_kind = kind, msg_fields = [message]\<rparr> (dm_out d) = (err, out)"
    by fastforce
  show ?thesis
  proof (cases err)
    case None
    then show ?thesis using sink.send_None assms run by (fastforce simp: respond_def answered_def)
  next
    case (Some e)
    then show ?thesis using sink.send_Some [OF assms(1)] run by (auto simp: respond_def answered_def)
  qed
qed

lemma raised_answered: "fifo_carries (dm_out d) ms \<Longrightarrow> answered rid ms (Some e, d)"
  by (simp add: answered_def)

lemma observe_out [simp]: "dm_out (observe h d) = dm_out d" "dm_engine (observe h d) = dm_engine d"
  "dm_stop_requested (observe h d) = dm_stop_requested d"
  by (simp_all add: observe_def)

lemma recover_log_out [simp]: "dm_out (snd (daemon_recover_log ra d)) = dm_out d"
  by (simp add: daemon_recover_log_def split: option.split prod.split)

lemma shutdown_answered:
  "answered rid ms r \<Longrightarrow>
     answered rid ms (case r of (Some e, d') \<Rightarrow> (Some e, d') | (None, d') \<Rightarrow> (None, d'\<lparr>dm_stop_requested := True\<rparr>))"
  by (auto simp: answered_def split: prod.splits option.splits)

lemmas answers = respond_answered raised_answered shutdown_answered

lemma handle_submit_answered:
  "fifo_carries (dm_out d) ms \<Longrightarrow> answered (msg_request_id request) ms (handle_submit now request d)"
  by (simp add: handle_submit_def Let_def answers split: sum.split prod.split)

lemma handle_scheduler_answered:
  "fifo_carries (dm_out d) ms \<Longrightarrow> answered (msg_request_id request) ms (handle_scheduler request d)"
  by (simp add: handle_scheduler_def Let_def answers split: sum.split prod.split)

lemma handle_kill_answered:
  "fifo_carries (dm_out d) ms \<Longrightarrow> answered (msg_request_id request) ms (handle_kill now workers request d)"
  by (simp add: handle_kill_def Let_def answers split: sum.split prod.split)

lemma handle_history_answered:
  assumes "fifo_carries (dm_out d) ms"
  shows "answered (msg_request_id request) ms (handle_history ra request d)"
proof -
  obtain r d' where run: "daemon_recover_log ra d = (r, d')" by fastforce
  then have "dm_out d' = dm_out d" using recover_log_out [of ra d] by simp
  then show ?thesis using assms by (auto simp: handle_history_def run intro!: answers split: sum.split)
qed

lemma handle_command_answered:
  assumes "fifo_carries (dm_out d) ms"
  shows "answered (msg_request_id request) ms (handle_command now workers ra request d)"
  unfolding handle_command_def Let_def
  using assms by (simp add: handle_submit_answered handle_history_answered handle_kill_answered
      handle_scheduler_answered answers)

lemma respond_error:
  assumes "fifo_carries (dm_out d) ms" "respond rid ''ERROR'' message d = (err, d')"
  shows "case err of
      None \<Rightarrow> fifo_carries (dm_out d') (ms @ [\<lparr>msg_request_id = rid, msg_kind = ''ERROR'', msg_fields = [message]\<rparr>])
    | Some e \<Rightarrow> e = invalid_argument ''IPC message exceeded the size limit'' \<and> fifo_carries (dm_out d') ms"
proof -
  let ?m = "\<lparr>msg_request_id = rid, msg_kind = ''ERROR'', msg_fields = [message]\<rparr>"
  obtain out where run: "server_send ?m (dm_out d) = (err, out)" and d': "d' = d\<lparr>dm_out := out\<rparr>"
    using assms(2) by (auto simp: respond_def split: prod.splits)
  obtain a out1 where a: "next_send (dm_out d) = (a, out1)" by fastforce
  note q = next_send_quiet [OF assms(1) a]
  have size: "e = invalid_argument ''IPC message exceeded the size limit''" if "err = Some e" for e
    using run that by (auto simp: server_send_def a transport_send_quiet [OF q(2)] encode_message_def
        split: sum.splits if_splits)
  show ?thesis
  proof (cases err)
    case None
    then show ?thesis using sink.send_None [OF assms(1), of ?m out] run by (simp add: d')
  next
    case (Some e)
    then show ?thesis using sink.send_Some [OF assms(1), of ?m e out] run size by (simp add: d')
  qed
qed

lemma handle_request_answered:
  assumes "fifo_carries (dm_out d) ms"
  shows "answered (msg_request_id request) ms (handle_request now workers ra request d)"
proof -
  obtain err1 d1 where run: "handle_command now workers ra request d = (err1, d1)" by fastforce
  have ans: "answered (msg_request_id request) ms (err1, d1)" using handle_command_answered [OF assms] run by metis
  show ?thesis
  proof (cases err1)
    case None
    then show ?thesis using ans run respond_answered [OF assms] by (simp add: handle_request_def)
  next
    case (Some e)
    then have "fifo_carries (dm_out d1) ms" using ans by (simp add: answered_def)
    then show ?thesis using Some run respond_answered assms by (simp add: handle_request_def)
  qed
qed

text \<open>
  C11 (one answer per request).  Whatever the request, the log and the workers do, handling a request appends
  exactly one message to the response FIFO: it has the ID of the request, its kind is \<open>OK\<close> or \<open>ERROR\<close>, and it is
  \<open>ERROR\<close> for a malformed request; or the handler throws, only because the error message is too long to be
  sent, and nothing is appended.
\<close>

theorem request_answered:
  assumes "fifo_carries (dm_out d) ms" "handle_request now workers ra request d = (err, d')"
  shows "case err of
      None \<Rightarrow> \<exists>kind text. (kind = ''OK'' \<and> msg_kind request = ''REQUEST'' \<and> msg_fields request \<noteq> [] \<or> kind = ''ERROR'') \<and>
        fifo_carries (dm_out d') (ms @ [\<lparr>msg_request_id = msg_request_id request, msg_kind = kind, msg_fields = [text]\<rparr>])
    | Some e \<Rightarrow> e = invalid_argument ''IPC message exceeded the size limit'' \<and> fifo_carries (dm_out d') ms"
proof -
  show ?thesis
  proof (cases "msg_kind request \<noteq> ''REQUEST'' \<or> msg_fields request = []")
    case True
    then have "respond (msg_request_id request) ''ERROR'' ''invalid request'' d = (err, d')"
      using assms(2) by (simp add: handle_request_def)
    from respond_error [OF assms(1) this] show ?thesis by (cases err) auto
  next
    case False
    obtain err1 d1 where run: "handle_command now workers ra request d = (err1, d1)" by fastforce
    have ans: "answered (msg_request_id request) ms (err1, d1)" using handle_command_answered [OF assms(1)] run by metis
    show ?thesis
    proof (cases err1)
      case None
      then have "err = None" "d' = d1" using assms(2) False run by (simp_all add: handle_request_def)
      then show ?thesis using ans False None by (simp add: answered_def)
    next
      case (Some e)
      then have "respond (msg_request_id request) ''ERROR'' (what e) d1 = (err, d')" "fifo_carries (dm_out d1) ms"
        using assms(2) False run ans by (simp_all add: handle_request_def answered_def)
      from respond_error [OF this(2,1)] show ?thesis by (cases err) auto
    qed
  qed
qed

text \<open>A daemon that has just started on the given log, without jobs.\<close>

definition idle_engine :: "string \<Rightarrow> task_engine" where
  "idle_engine contents =
     \<lparr>en_queue = \<lparr>tq_scheduler = FifoS [], tq_config = \<lparr>cfg_kind = Fifo, cfg_quantum = 100\<rparr>, tq_closed = False\<rparr>,
      en_worker_count = 1, en_store = [], en_records = [], en_next_job_id = 1, en_next_sequence = 0,
      en_accepting = True,
      en_journal = Some \<lparr>wm_path = ''wal'', wm_file = contents, wm_answers = [],
        wm_later = \<lparr>ans_writes = [], ans_fsync = None, ans_now = 1700000000000\<rparr>\<rparr>\<rparr>"

definition idle_daemon :: "string \<Rightarrow> daemon" where
  "idle_daemon contents =
     \<lparr>dm_engine = idle_engine contents,
      dm_out = \<lparr>fo_bytes = [], fo_answers = [], fo_later = \<lparr>sa_writes = [], sa_polls = []\<rparr>\<rparr>,
      dm_observers = [], dm_recovered_count = 0, dm_stop_requested = False\<rparr>"

lemma idle_carries: "fifo_carries (dm_out (idle_daemon contents)) []"
  by (simp add: idle_daemon_def fifo_carries_def answer_quiet_def)

lemma message_fits_answer:
  assumes "kind = ''OK'' \<or> kind = ''ERROR''" "length message \<le> 524000"
  shows "message_fits \<lparr>msg_request_id = rid, msg_kind = kind, msg_fields = [message]\<rparr>"
  using assms length_u64_to_string [of rid]
  by (auto simp: message_fits_def encode_message_def protocol_version_def protocol_hex_encode_def max_message_size_def)

lemma respond_short:
  assumes "fifo_carries (dm_out d) ms" "kind = ''OK'' \<or> kind = ''ERROR''" "length message \<le> 524000"
  obtains out where "respond rid kind message d = (None, d\<lparr>dm_out := out\<rparr>)"
    "fifo_carries out (ms @ [\<lparr>msg_request_id = rid, msg_kind = kind, msg_fields = [message]\<rparr>])"
proof -
  let ?m = "\<lparr>msg_request_id = rid, msg_kind = kind, msg_fields = [message]\<rparr>"
  obtain err out where run: "server_send ?m (dm_out d) = (err, out)" by fastforce
  have "err = None \<and> fifo_carries out (ms @ [?m])"
    by (rule sink.sends [OF assms(1) message_fits_answer [OF assms(2,3)] run])
  then show thesis using that run by (simp add: respond_def)
qed

theorem request_answered_witness:
  "\<exists>d' kind text. handle_request 10 (\<lambda>e. e) \<lparr>ra_readable = True, ra_ftruncate = None, ra_fsync = None\<rparr>
       \<lparr>msg_request_id = 7, msg_kind = ''REQUEST'', msg_fields = [''ping'']\<rparr> (idle_daemon []) = (None, d') \<and>
     fifo_carries (dm_out d') [\<lparr>msg_request_id = 7, msg_kind = kind, msg_fields = [text]\<rparr>]"
proof -
  let ?request = "\<lparr>msg_request_id = 7, msg_kind = ''REQUEST'', msg_fields = [''ping'']\<rparr>"
  let ?ra = "\<lparr>ra_readable = True, ra_ftruncate = None, ra_fsync = None\<rparr>"
  have short: "''OK'' = ''OK'' \<or> ''OK'' = ''ERROR''" "length ''pong'' \<le> 524000" by simp_all
  obtain out where "respond 7 ''OK'' ''pong'' (idle_daemon []) = (None, (idle_daemon [])\<lparr>dm_out := out\<rparr>)"
    using respond_short [OF idle_carries short] by blast
  then have run: "handle_request 10 (\<lambda>e. e) ?ra ?request (idle_daemon []) = (None, (idle_daemon [])\<lparr>dm_out := out\<rparr>)"
    by (simp add: handle_request_def handle_command_def)
  from request_answered [OF idle_carries run] show ?thesis using run by auto
qed

section \<open>Submitting through a request\<close>















end
