(* ===== verification/Kronos_Restart.thy ===== *)
theory Kronos_Restart
  imports Kronos_Requests
begin

text \<open>
  The constructor of the daemon on a log that accepts every append: which jobs are registered again.  What the worker threads do
  meanwhile enters through \<open>worker_effect\<close>, which every worker step of the engine satisfies.
\<close>

section \<open>A log that accepts every append\<close>

definition answer_good :: "append_answer \<Rightarrow> bool" where
  "answer_good a \<longleftrightarrow> ans_fsync a = None \<and> list_all (\<lambda>r. case r of WriteError _ \<Rightarrow> False | _ \<Rightarrow> True) (ans_writes a)"

definition log_healthy :: "wal_manager \<Rightarrow> bool" where
  "log_healthy w \<longleftrightarrow> list_all answer_good (wm_answers w) \<and> answer_good (wm_later w)"

definition engine_healthy :: "task_engine \<Rightarrow> bool" where
  "engine_healthy e \<longleftrightarrow> (\<exists>w. en_journal e = Some w \<and> log_healthy w)"

lemma next_answer_good:
  assumes "log_healthy w" "next_answer w = (a, w')"
  shows "answer_good a" "log_healthy w'" "log_healthy (w'\<lparr>wm_file := f\<rparr>)"
  using assms by (auto simp: next_answer_def log_healthy_def split: list.splits)

lemma append_transition_healthy:
  assumes "log_healthy w" "append_transition wal_ops tr w = (err, w')"
  shows "log_healthy w'" "tr_id tr \<noteq> 0 \<Longrightarrow> err = None"
proof -
  obtain a w1 where a: "next_answer w = (a, w1)" by fastforce
  note good = next_answer_good [OF assms(1) a]
  show "log_healthy w'" using assms(2) good
    by (auto simp: wal_ops_def manager_append_transition_def a split: prod.splits)
  have "\<forall>m. WriteError m \<notin> set (ans_writes a)" using good(1) by (auto simp: answer_good_def list_all_iff)
  from write_loop_all [OF this le_refl] show "err = None" if "tr_id tr \<noteq> 0"
    using assms(2) that good(1)
    by (auto simp: wal_ops_def manager_append_transition_def a wal_append_transition_def wal_append_def answer_good_def
        split: prod.splits)
qed

section \<open>What worker threads change\<close>

definition worker_effect :: "task_engine \<Rightarrow> task_engine \<Rightarrow> bool" where
  "worker_effect e e' \<longleftrightarrow> en_records e' = en_records e \<and> en_next_job_id e' = en_next_job_id e \<and>
     en_accepting e' = en_accepting e \<and> (engine_healthy e \<longrightarrow> engine_healthy e')"

lemma worker_effect_refl: "worker_effect e e"
  by (simp add: worker_effect_def)

lemma worker_effect_trans: "worker_effect e e' \<Longrightarrow> worker_effect e' e'' \<Longrightarrow> worker_effect e e''"
  by (simp add: worker_effect_def)

lemma worker_effectD:
  assumes "worker_effect e e'"
  shows "find_record k e' = find_record k e" "en_next_job_id e' = en_next_job_id e"
    "en_accepting e' = en_accepting e" "engine_healthy e \<Longrightarrow> engine_healthy e'"
  using assms by (simp_all add: worker_effect_def find_record_def)

definition journal_healthy :: "wal_manager option \<Rightarrow> bool" where
  "journal_healthy j \<longleftrightarrow> (\<exists>w. j = Some w \<and> log_healthy w)"

definition section_healthy :: "(('t, wal_manager) locked \<Rightarrow> 'r \<times> ('t, wal_manager) locked) \<Rightarrow> bool" where
  "section_healthy f \<longleftrightarrow> (\<forall>rec j. journal_healthy j \<longrightarrow> journal_healthy (snd (snd (f (rec, j)))))"

lemma persist_healthy: "section_healthy (persist_transition_locked wal_ops now state message)"
  by (auto simp: section_healthy_def journal_healthy_def persist_transition_locked_def
      split: option.split prod.split dest: append_transition_healthy)

lemma persist_healthyD:
  "persist_transition_locked wal_ops now state message (rec, j) = (ok, rec', j') \<Longrightarrow> journal_healthy j \<Longrightarrow> journal_healthy j'"
  using persist_healthy [of now state message] unfolding section_healthy_def by (metis snd_conv)

lemma finish_healthy:
  "journal_healthy j \<Longrightarrow> journal_healthy (snd (finish_locked wal_ops now state message (rec, j)))"
  by (auto simp: finish_locked_def split: prod.split bool.split dest: persist_healthyD)

lemma sections_healthy:
  "section_healthy (finish_section wal_ops now state message)" "section_healthy (start_section wal_ops now)"
  "section_healthy (record_section wal_ops now result)"
  by (auto simp: section_healthy_def finish_section_def start_section_def record_section_def Let_def finish_healthy
      split: prod.split bool.split slice_status.split dest: persist_healthyD)

lemma with_record_effect:
  assumes "section_healthy f"
  shows "worker_effect e (snd (with_record r f e))"
  using assms by (auto simp: worker_effect_def with_record_def section_healthy_def engine_healthy_def journal_healthy_def
      split: prod.split) (metis snd_conv)

text \<open>Every step of a worker thread of the engine is such an effect.\<close>

lemma worker_step_effect:
  assumes "worker_step wal_ops (e, w) (e', w')"
  shows "worker_effect e e'"
  using assms
proof cases
  case (start_ok now r d)
  then show ?thesis using with_record_effect [OF sections_healthy(2)] by (metis snd_conv worker_start_def)
next
  case (start_skip now r d)
  then show ?thesis using with_record_effect [OF sections_healthy(2)] by (metis snd_conv worker_start_def)
next
  case (record_yield now result r d)
  then show ?thesis using with_record_effect [OF sections_healthy(3)] by (metis snd_conv worker_record_def)
next
  case (record_done now result r d)
  then show ?thesis using with_record_effect [OF sections_healthy(3)] by (metis snd_conv worker_record_def)
qed (auto simp: worker_effect_def engine_healthy_def set_task_def worker_requeue_def)

section \<open>Restoring the jobs of the log\<close>

lemma push_or_finish_effect: "worker_effect e (push_or_finish wal_ops now entry r message e)"
proof -
  obtain ok e1 where push: "engine_push entry e = (ok, e1)" by fastforce
  then have e1: "worker_effect e e1"
    by (cases "push_external entry (en_queue e)") (auto simp: engine_push_def worker_effect_def engine_healthy_def)
  have "worker_effect e1 (finish_record wal_ops now Cancelled message r e1)"
    using with_record_effect [OF sections_healthy(1)] by (simp add: finish_record_def)
  then show ?thesis using worker_effect_trans [OF e1] e1 by (simp add: push_or_finish_def push split: bool.split)
qed

definition submission_ok :: "job_submission_record \<Rightarrow> bool" where
  "submission_ok sub \<longleftrightarrow> sub_id sub \<noteq> 0 \<and> sub_estimated_work_units sub \<noteq> 0 \<and> spec_type (sub_task sub) \<noteq> []"

lemma restore_registers:
  assumes "submission_ok sub" "en_accepting e" "engine_healthy e" "find_record (sub_id sub) e = None"
  obtains h e' where "restore wal_ops now (Some t) sub e = (Inr h, e')" "jh_id h = sub_id sub"
    "\<And>k. find_record k e' = None \<longleftrightarrow> k \<noteq> sub_id sub \<and> find_record k e = None"
    "en_accepting e'" "engine_healthy e'" "en_next_job_id e \<le> en_next_job_id e'"
proof -
  let ?tr = "\<lparr>tr_id = sub_id sub, tr_state = Ready, tr_work_units_consumed = 0, tr_message = ''recovered after restart''\<rparr>"
  let ?rec = "JobRecord (restore_snapshot now sub) (restore_entry sub) t"
  obtain w where w: "en_journal e = Some w" "log_healthy w" using assms(3) by (auto simp: engine_healthy_def)
  obtain err w' where app: "append_transition wal_ops ?tr w = (err, w')" by fastforce
  have w': "err = None" "log_healthy w'"
    using append_transition_healthy [OF w(2) app] assms(1) by (simp_all add: submission_ok_def)
  let ?e1 = "e\<lparr>en_journal := Some w'\<rparr>"
  have journal: "restore_journal wal_ops sub e = (None, ?e1)" using w app w' by (simp add: restore_journal_def)
  have check: "restore_check (Some t) sub e = Inr t" using assms(1,2) by (simp add: restore_check_def submission_ok_def)
  let ?r = "length (en_store e)"
  let ?e2 = "?e1\<lparr>en_store := en_store e @ [?rec], en_records := fst (hm_emplace (sub_id sub) ?r (en_records e))\<rparr>"
  have emplace: "registry_emplace (sub_id sub) ?rec ?e1 = (True, ?r, ?e2)"
    using assms(4) by (auto simp: registry_emplace_def find_record_def registry_simps Let_def split: prod.split)
      (metis registry_simps snd_conv)
  let ?e3 = "advance_sequence [] sub (advance_job_id [] sub ?e2)"
  let ?e' = "push_or_finish wal_ops now (restore_entry sub) ?r ''recovery raced with engine shutdown'' ?e3"
  note eff = worker_effectD [OF push_or_finish_effect [of ?e3 now "restore_entry sub" ?r "''recovery raced with engine shutdown''"]]
  have "restore wal_ops now (Some t) sub e = (Inr (JobHandle (sub_id sub) ?r), ?e')"
    unfolding restore_def check journal by (simp add: Let_def emplace)
  moreover have "find_record k ?e' = None \<longleftrightarrow> k \<noteq> sub_id sub \<and> find_record k e = None" for k
    using assms(4) by (simp add: eff(1)) (simp add: find_record_def registry_simps)
  moreover have "en_accepting ?e'" unfolding eff(3) using assms(2) by (simp add: advance_sequence_def advance_job_id_def)
  moreover have "engine_healthy ?e'"
    using w'(2) by (intro eff(4)) (simp add: engine_healthy_def advance_sequence_def advance_job_id_def)
  moreover have "en_next_job_id e \<le> en_next_job_id ?e'"
    by (simp add: eff(2) advance_counter_max order_less_imp_le)
  ultimately show thesis using that by (simp add: JobHandle_def)
qed

text \<open>The jobs that the constructor registers again, and what it leaves behind.\<close>

definition revived :: "recovered_job \<Rightarrow> bool" where
  "revived job \<longleftrightarrow> \<not> is_terminal (rj_state job) \<and> isl (factory_restore (sub_task (rj_submission job))) = False"

abbreviation rj_id :: "recovered_job \<Rightarrow> job_id" where
  "rj_id job \<equiv> sub_id (rj_submission job)"

definition restored :: "recovered_job list \<Rightarrow> daemon \<Rightarrow> daemon \<Rightarrow> bool" where
  "restored jobs d d' \<longleftrightarrow>
     (\<forall>k. find_record k (dm_engine d') = None \<longleftrightarrow>
        find_record k (dm_engine d) = None \<and> k \<notin> rj_id ` set (filter revived jobs)) \<and>
     map jh_id (dm_observers d') = map jh_id (dm_observers d) @ map rj_id (filter revived jobs) \<and>
     dm_recovered_count d' = dm_recovered_count d + length (filter revived jobs) \<and>
     en_next_job_id (dm_engine d) \<le> en_next_job_id (dm_engine d') \<and>
     en_accepting (dm_engine d') \<and> engine_healthy (dm_engine d')"

lemma restored_trans:
  "restored js d d' \<Longrightarrow> restored js' d' d'' \<Longrightarrow> restored (js @ js') d d''"
  by (auto simp: restored_def image_Un intro: order_trans)

lemma recovery_failed_logs:
  assumes "engine_healthy (dm_engine d)" "rj_id job \<noteq> 0"
  obtains w where "recovery_failed job error d = (None, d\<lparr>dm_engine := (dm_engine d)\<lparr>en_journal := Some w\<rparr>\<rparr>)" "log_healthy w"
proof -
  obtain w where w: "en_journal (dm_engine d) = Some w" "log_healthy w" using assms(1) by (auto simp: engine_healthy_def)
  let ?tr = "\<lparr>tr_id = rj_id job, tr_state = Failed, tr_work_units_consumed = rj_work_units_consumed job,
    tr_message = ''recovery failed: '' @ what error\<rparr>"
  obtain err w' where app: "append_transition wal_ops ?tr w = (err, w')" by fastforce
  then have "err = None" "log_healthy w'" using append_transition_healthy [OF w(2) app] assms(2) by simp_all
  then show thesis using that w app by (simp add: recovery_failed_def)
qed

lemma restore_job_restored:
  assumes "\<And>i e. worker_effect e (workers i e)" "submission_ok (rj_submission job)"
    "en_accepting (dm_engine d)" "engine_healthy (dm_engine d)" "find_record (rj_id job) (dm_engine d) = None"
  shows "\<exists>d'. restore_job clock workers job d = (None, d') \<and> restored [job] d d'"
proof (cases "is_terminal (rj_state job)")
  case True
  then show ?thesis using assms(3,4) by (simp add: restore_job_def restored_def revived_def)
next
  case False
  let ?sub = "rj_submission job" and ?e = "workers (rj_id job) (dm_engine d)"
  note eff = worker_effectD [OF assms(1) [of "dm_engine d" "rj_id job"]]
  have e: "en_accepting ?e" "engine_healthy ?e" "find_record (rj_id job) ?e = None" using assms(3-5) eff by auto
  show ?thesis
  proof (cases "factory_restore (sub_task ?sub)")
    case (Inl error)
    obtain w where "recovery_failed job error (d\<lparr>dm_engine := ?e\<rparr>) = (None, d\<lparr>dm_engine := ?e\<lparr>en_journal := Some w\<rparr>\<rparr>)"
        "log_healthy w"
      using recovery_failed_logs [of "d\<lparr>dm_engine := ?e\<rparr>" job error] e(2) assms(2) by (auto simp: submission_ok_def)
    moreover from this(2) have "engine_healthy (?e\<lparr>en_journal := Some w\<rparr>)" by (simp add: engine_healthy_def)
    moreover have "find_record k (?e\<lparr>en_journal := Some w\<rparr>) = find_record k (dm_engine d)" for k
      using eff(1) [of k] by (simp add: find_record_def)
    ultimately show ?thesis using False Inl e eff(2) by (simp add: restore_job_def Let_def restored_def revived_def)
  next
    case (Inr t)
    obtain h e' where run: "restore wal_ops (clock (rj_id job)) (Some t) ?sub ?e = (Inr h, e')" "jh_id h = rj_id job"
        "\<And>k. find_record k e' = None \<longleftrightarrow> k \<noteq> rj_id job \<and> find_record k ?e = None"
        "en_accepting e'" "engine_healthy e'" "en_next_job_id ?e \<le> en_next_job_id e'"
      using restore_registers [OF assms(2) e, of "clock (rj_id job)" t] by blast
    then show ?thesis using False Inr eff(1,2)
      by (auto simp: restore_job_def Let_def restored_def revived_def observe_def)
  qed
qed

lemma restore_all_restored:
  assumes "\<And>i e. worker_effect e (workers i e)" "list_all (\<lambda>job. submission_ok (rj_submission job)) jobs"
    "distinct (map rj_id jobs)" "en_accepting (dm_engine d)" "engine_healthy (dm_engine d)"
    "\<forall>job \<in> set jobs. find_record (rj_id job) (dm_engine d) = None"
  shows "\<exists>d'. restore_all clock workers jobs d = (None, d') \<and> restored jobs d d'"
  using assms(2-)
proof (induction jobs arbitrary: d)
  case Nil
  then show ?case by (simp add: restored_def)
next
  case (Cons job jobs)
  obtain d1 where d1: "restore_job clock workers job d = (None, d1)" "restored [job] d d1"
    using restore_job_restored [of workers job d clock, OF assms(1)] Cons.prems by auto
  have find: "find_record k (dm_engine d1) = None \<longleftrightarrow> find_record k (dm_engine d) = None \<and> k \<notin> rj_id ` set (filter revived [job])"
    and d1': "en_accepting (dm_engine d1)" "engine_healthy (dm_engine d1)" for k
    using d1(2) by (simp_all only: restored_def)
  have "\<forall>j \<in> set jobs. find_record (rj_id j) (dm_engine d1) = None"
    using Cons.prems(2,5) unfolding find by (auto dest: sym [of "rj_id _"])
  then obtain d' where "restore_all clock workers jobs d1 = (None, d')" "restored jobs d1 d'"
    using Cons.IH [of d1] Cons.prems(1,2) d1' by auto
  then show ?case using d1(1) restored_trans [OF d1(2), of jobs d'] by simp
qed

lemma reserve_all_reserves:
  assumes "\<forall>job \<in> set jobs. rj_id job \<noteq> 0"
  shows "\<exists>e'. reserve_all jobs d = (None, d\<lparr>dm_engine := e'\<rparr>) \<and> en_records e' = en_records (dm_engine d) \<and>
    en_accepting e' = en_accepting (dm_engine d) \<and> en_journal e' = en_journal (dm_engine d) \<and>
    en_next_job_id (dm_engine d) \<le> en_next_job_id e' \<and>
    (\<forall>job \<in> set jobs. rj_id job \<noteq> - 1 \<longrightarrow> rj_id job < en_next_job_id e')"
  using assms
proof (induction jobs arbitrary: d)
  case Nil
  then show ?case by (intro exI [of _ "dm_engine d"]) simp
next
  case (Cons job jobs)
  let ?e1 = "advance_sequence [] (rj_submission job) (advance_job_id [] (rj_submission job) (dm_engine d))"
  have next1: "en_next_job_id ?e1 = max (en_next_job_id (dm_engine d)) (rj_id job + 1)"
    by (simp only: advance_frame advance_counter_max)
  have same: "en_records ?e1 = en_records (dm_engine d)" "en_accepting ?e1 = en_accepting (dm_engine d)"
      "en_journal ?e1 = en_journal (dm_engine d)"
    by (simp_all add: advance_sequence_def advance_job_id_def)
  obtain e' where e': "reserve_all jobs (d\<lparr>dm_engine := ?e1\<rparr>) = (None, d\<lparr>dm_engine := e'\<rparr>)" "en_records e' = en_records ?e1"
      "en_accepting e' = en_accepting ?e1" "en_journal e' = en_journal ?e1" "en_next_job_id ?e1 \<le> en_next_job_id e'"
      "\<forall>job \<in> set jobs. rj_id job \<noteq> - 1 \<longrightarrow> rj_id job < en_next_job_id e'"
    using Cons.IH [of "d\<lparr>dm_engine := ?e1\<rparr>"] Cons.prems by auto
  have "rj_id job < en_next_job_id e'" if "rj_id job \<noteq> - 1"
    using u64_below_succ [OF that] e'(5) unfolding next1 by (meson less_le_trans max.bounded_iff)
  moreover have "reserve_all (job # jobs) d = (None, d\<lparr>dm_engine := e'\<rparr>)"
    using e'(1) Cons.prems by (simp add: reserve_recovered_identity_def)
  ultimately show ?case using e' same next1 by (intro exI [of _ e']) auto
qed

section \<open>Restarting on a log\<close>

lemma log_wf_distinct: "log_wf ids rs \<Longrightarrow> distinct (map sub_id (submissions rs)) \<and> ids \<inter> log_ids rs = {}"
  by (induction ids rs rule: log_wf.induct) auto

lemma job_of_log_submission [simp]: "rj_submission (job_of_log rs sub) = sub"
  by (simp add: job_of_log_def fresh_job_def split: option.split)

lemma submissions_ok: "list_all record_ok rs \<Longrightarrow> sub \<in> set (submissions rs) \<Longrightarrow> submission_ok sub"
  by (induction rs rule: submissions.induct) (auto simp: submission_ok_def)

lemma report_jobs:
  assumes "log_ok rs"
  shows "distinct (map rj_id (rep_jobs (log_report rs torn)))"
    "list_all (\<lambda>job. submission_ok (rj_submission job)) (rep_jobs (log_report rs torn))"
    "set (rep_jobs (log_report rs torn)) = job_of_log rs ` set (submissions rs)"
proof -
  have "mset (map rj_id (rep_jobs (log_report rs torn))) = mset (map sub_id (submissions rs))"
    by (simp add: log_report_def multiset.map_comp comp_def)
  then show "distinct (map rj_id (rep_jobs (log_report rs torn)))"
    using mset_eq_imp_distinct_iff log_wf_distinct [of "{}" rs] assms unfolding log_ok_def by blast
  show jobs: "set (rep_jobs (log_report rs torn)) = job_of_log rs ` set (submissions rs)" by (simp add: log_report_def)
  show "list_all (\<lambda>job. submission_ok (rj_submission job)) (rep_jobs (log_report rs torn))"
    using submissions_ok assms by (auto simp: list_all_iff jobs log_ok_def)
qed

text \<open>A daemon whose engine is new and works on the given log.\<close>

definition starting :: "string \<Rightarrow> daemon \<Rightarrow> bool" where
  "starting contents d \<longleftrightarrow> en_records (dm_engine d) = [] \<and> en_accepting (dm_engine d) \<and>
     (\<exists>w. en_journal (dm_engine d) = Some w \<and> wm_file w = contents \<and> log_healthy w) \<and>
     dm_observers d = [] \<and> dm_recovered_count d = 0"

lemma daemon_recover_restored:
  assumes "log_ok rs" "newline \<notin> set torn" "starting (log_text rs @ torn) d" "\<And>i e. worker_effect e (workers i e)"
  obtains d1 d' where "daemon_recover \<lparr>ra_readable = True, ra_ftruncate = None, ra_fsync = None\<rparr> clock workers d = (None, d')"
    "restored (rep_jobs (log_report rs (torn \<noteq> []))) d1 d'" "en_records (dm_engine d1) = []"
    "dm_observers d1 = []" "dm_recovered_count d1 = 0"
    "\<forall>sub \<in> set (submissions rs). sub_id sub \<noteq> - 1 \<longrightarrow> sub_id sub < en_next_job_id (dm_engine d1)"
proof -
  let ?jobs = "rep_jobs (log_report rs (torn \<noteq> []))"
  obtain w where w: "en_journal (dm_engine d) = Some w" "wm_file w = log_text rs @ torn" "log_healthy w"
    using assms(3) by (auto simp: starting_def)
  let ?d0 = "d\<lparr>dm_engine := (dm_engine d)\<lparr>en_journal := Some (w\<lparr>wm_file := log_text rs\<rparr>)\<rparr>\<rparr>"
  have log: "daemon_recover_log \<lparr>ra_readable = True, ra_ftruncate = None, ra_fsync = None\<rparr> d =
      (Inr (log_report rs (torn \<noteq> [])), ?d0)"
    using recover_log_text [OF assms(1,2), of "wm_path w"] w by (simp add: daemon_recover_log_def)
  note jobs = report_jobs [OF assms(1), of "torn \<noteq> []"]
  have "\<forall>job \<in> set ?jobs. rj_id job \<noteq> 0" using jobs(2) by (auto simp: list_all_iff submission_ok_def)
  from reserve_all_reserves [OF this, of ?d0]
  obtain e1 where e1: "reserve_all ?jobs ?d0 = (None, ?d0\<lparr>dm_engine := e1\<rparr>)" "en_records e1 = []" "en_accepting e1"
      "en_journal e1 = Some (w\<lparr>wm_file := log_text rs\<rparr>)" "\<forall>job \<in> set ?jobs. rj_id job \<noteq> - 1 \<longrightarrow> rj_id job < en_next_job_id e1"
    using assms(3) by (auto simp: starting_def)
  have fresh: "en_accepting (dm_engine (?d0\<lparr>dm_engine := e1\<rparr>))" "engine_healthy (dm_engine (?d0\<lparr>dm_engine := e1\<rparr>))"
      "\<forall>job \<in> set ?jobs. find_record (rj_id job) (dm_engine (?d0\<lparr>dm_engine := e1\<rparr>)) = None"
    using e1(2-4) w(3) by (simp_all add: engine_healthy_def log_healthy_def find_record_def)
  obtain d' where "restore_all clock workers ?jobs (?d0\<lparr>dm_engine := e1\<rparr>) = (None, d')"
      "restored ?jobs (?d0\<lparr>dm_engine := e1\<rparr>) d'"
    using restore_all_restored [of workers, OF assms(4) jobs(2,1) fresh] by blast
  then show thesis using that [of d' "?d0\<lparr>dm_engine := e1\<rparr>"] log e1 jobs(3) assms(3)
    by (simp add: daemon_recover_def starting_def)
qed

text \<open>
  Restarting.  A new daemon on a well-formed log, with or without a torn last line, starts without an
  exception as long as the operating system accepts its appends, whatever its workers do meanwhile.  It then
  has registered exactly the jobs that had not finished and whose task the factory can rebuild, observes
  each of them once and counts them, and every ID of the log is reserved, so that no later
  submission can take it (except the largest 64-bit number).
\<close>

theorem daemon_restarts:
  assumes "log_ok rs" "newline \<notin> set torn" "starting (log_text rs @ torn) d" "\<forall>i e. worker_effect e (workers i e)"
  shows "\<exists>d'. daemon_recover \<lparr>ra_readable = True, ra_ftruncate = None, ra_fsync = None\<rparr> clock workers d = (None, d') \<and>
    (\<forall>sub \<in> set (submissions rs). (sub_id sub \<noteq> - 1 \<longrightarrow> sub_id sub < en_next_job_id (dm_engine d')) \<and>
       (get_job (sub_id sub) (dm_engine d') \<noteq> None \<longleftrightarrow> revived (job_of_log rs sub))) \<and>
    mset (map jh_id (dm_observers d')) = mset (map sub_id (filter (\<lambda>sub. revived (job_of_log rs sub)) (submissions rs))) \<and>
    dm_recovered_count d' = length (dm_observers d')"
proof -
  let ?jobs = "rep_jobs (log_report rs (torn \<noteq> []))"
  obtain d1 d' where run: "daemon_recover \<lparr>ra_readable = True, ra_ftruncate = None, ra_fsync = None\<rparr> clock workers d = (None, d')"
      "restored ?jobs d1 d'" "en_records (dm_engine d1) = []" "dm_observers d1 = []" "dm_recovered_count d1 = 0"
      "\<forall>sub \<in> set (submissions rs). sub_id sub \<noteq> - 1 \<longrightarrow> sub_id sub < en_next_job_id (dm_engine d1)"
    by (rule daemon_recover_restored [OF assms(1-3), of workers clock]) (use assms(4) in auto)
  have ids: "find_record k (dm_engine d') = None \<longleftrightarrow> k \<notin> rj_id ` set (filter revived ?jobs)"
      "map jh_id (dm_observers d') = map rj_id (filter revived ?jobs)"
      "dm_recovered_count d' = length (filter revived ?jobs)" for k
    using run(2-5) by (simp_all add: restored_def find_record_def)
  have inj: "inj_on sub_id (set (submissions rs))"
    using log_wf_distinct [of "{}" rs] assms(1) by (simp add: log_ok_def distinct_map)
  have "get_job (sub_id sub) (dm_engine d') \<noteq> None \<longleftrightarrow> revived (job_of_log rs sub)" if "sub \<in> set (submissions rs)" for sub
  proof -
    have "rj_id ` set (filter revived ?jobs) = sub_id ` {s \<in> set (submissions rs). revived (job_of_log rs s)}"
      unfolding set_filter report_jobs(3) [OF assms(1)] by force
    then have "get_job (sub_id sub) (dm_engine d') \<noteq> None \<longleftrightarrow>
        sub_id sub \<in> sub_id ` {s \<in> set (submissions rs). revived (job_of_log rs s)}"
      using ids(1) [of "sub_id sub"] by (simp add: get_job_def)
    then show ?thesis using inj that by (auto simp: inj_on_def)
  qed
  moreover have "sub_id sub < en_next_job_id (dm_engine d')" if "sub \<in> set (submissions rs)" "sub_id sub \<noteq> - 1" for sub
    using run(2,6) that by (auto simp: restored_def intro: less_le_trans)
  moreover have "mset (map rj_id (filter revived ?jobs)) =
      mset (map sub_id (filter (\<lambda>sub. revived (job_of_log rs sub)) (submissions rs)))"
    by (simp add: log_report_def filter_sort filter_map multiset.map_comp comp_def del: mset_filter)
  moreover have "length (dm_observers d') = length (filter revived ?jobs)" using ids(2) by (metis length_map)
  ultimately show ?thesis using run(1) ids(2,3) by (intro exI [of _ d']) simp
qed

text \<open>A log with one unfinished job.\<close>

definition restart_submission :: job_submission_record where
  "restart_submission = \<lparr>sub_id = 1, sub_submission_sequence = 0, sub_name = ''demo'', sub_priority = 0,
     sub_estimated_work_units = 5, sub_task = \<lparr>spec_type = ''prime'', spec_payload = ''6''\<rparr>\<rparr>"

definition restart_log :: "wal_record list" where
  "restart_log = [SubmissionRecord 1700000000000 restart_submission]"

lemma restart_revived: "revived (job_of_log restart_log restart_submission)"
proof -
  have "parse_u64 ''6'' = Some 6" by (simp add: parse_u64_Some_iff is_digit_def digits_value_def)
  then have "parse_positive ''6'' ''upper bound'' = Inr 6" by (simp add: parse_positive_iff)
  then show ?thesis
    by (simp add: revived_def job_of_log_def last_transition_def restart_log_def fresh_job_def factory_restore_def
        restart_submission_def make_prime_def Let_def is_terminal_def)
qed

theorem daemon_restarts_witness:
  "\<exists>d'. daemon_recover \<lparr>ra_readable = True, ra_ftruncate = None, ra_fsync = None\<rparr> (\<lambda>_. 10) (\<lambda>_ e. e)
       (idle_daemon (log_text restart_log @ ''K1|T|17'')) = (None, d') \<and>
     get_job 1 (dm_engine d') \<noteq> None \<and> 1 < en_next_job_id (dm_engine d') \<and> dm_recovered_count d' = 1"
proof -
  have start: "log_ok restart_log" "newline \<notin> set ''K1|T|17''"
      "starting (log_text restart_log @ ''K1|T|17'') (idle_daemon (log_text restart_log @ ''K1|T|17''))"
      "\<forall>i e. worker_effect e ((\<lambda>_ e. e) i e)"
    by (simp_all add: log_ok_def restart_log_def restart_submission_def in_range_def starting_def idle_daemon_def
        idle_engine_def log_healthy_def answer_good_def worker_effect_refl)
  have subs: "submissions restart_log = [restart_submission]" "sub_id restart_submission = 1"
    by (simp_all add: restart_log_def restart_submission_def)
  obtain d' where d': "daemon_recover \<lparr>ra_readable = True, ra_ftruncate = None, ra_fsync = None\<rparr> (\<lambda>_. 10) (\<lambda>_ e. e)
       (idle_daemon (log_text restart_log @ ''K1|T|17'')) = (None, d')"
      "get_job 1 (dm_engine d') \<noteq> None" "1 < en_next_job_id (dm_engine d')"
      "mset (map jh_id (dm_observers d')) = {#1#}" "dm_recovered_count d' = length (dm_observers d')"
    using daemon_restarts [OF start, where clock = "\<lambda>_. 10"] restart_revived by (auto simp: subs)
  moreover have "length (dm_observers d') = 1" using arg_cong [OF d'(4), of size] by simp
  ultimately show ?thesis by auto
qed

end
