(* ===== verification/Kronos_Shell.thy ===== *)
theory Kronos_Shell
  imports Kronos_Endpoints
begin

text \<open>
  The shell of \<open>apps/kronos_shell.cpp\<close>: option parsing, \<open>ShellSession\<close> with its listener thread, and the
  command loop.

  The session holds the counter of request IDs, the responses the listener has stored, the error of
  the listener and the text printed.  What the listener gets from \<open>receive\<close> is an argument: a list of batches, one for each
  time the waiting thread looks at its predicate, each with the outcomes of the calls of \<open>receive\<close>
  since the last time.  A list that ends is the timeout of ten seconds.

  The theorems show that a command returns the response with its own request ID and nothing else, that
  it does return it when it arrives, and that a failed listener ends every later command with its error.
\<close>

section \<open>Options\<close>

record shell_options =
  so_ipc_directory :: string
  so_command :: "string option"

text \<open>The arguments after the program name; \<open>Inr None\<close> is the exit after \<open>--help\<close>.\<close>

fun shell_options_loop :: "shell_options \<Rightarrow> string list \<Rightarrow> shell_options option result" where
  "shell_options_loop options [] = Inr (Some options)"
| "shell_options_loop options (argument # arguments) =
     (if argument = ''--help'' \<or> argument = ''-h'' then Inr None
      else case arguments of
        [] \<Rightarrow> Inl (invalid_argument (argument @ '' requires a value''))
      | v # arguments' \<Rightarrow>
          if argument = ''--ipc-dir'' then shell_options_loop (options\<lparr>so_ipc_directory := v\<rparr>) arguments'
          else if argument = ''--command'' then shell_options_loop (options\<lparr>so_command := Some v\<rparr>) arguments'
          else Inl (invalid_argument (''unknown option: '' @ argument)))"

definition shell_parse_options :: "string \<Rightarrow> string list \<Rightarrow> shell_options option result" where
  "shell_parse_options ipc_directory arguments =
     shell_options_loop \<lparr>so_ipc_directory = ipc_directory, so_command = None\<rparr> arguments"

section \<open>ShellSession\<close>

record shell_session =
  ss_next_request_id :: u64
  ss_responses :: "(u64, protocol_message) hash_map"
  ss_listener_error :: "string option"
  ss_output :: string
  ss_errors :: string

definition ShellSession :: shell_session where
  "ShellSession = \<lparr>ss_next_request_id = 1, ss_responses = [], ss_listener_error = None, ss_output = [], ss_errors = []\<rparr>"

definition shell_print :: "string \<Rightarrow> shell_session \<Rightarrow> shell_session" where
  "shell_print s session = session\<lparr>ss_output := ss_output session @ s\<rparr>"

definition print_error :: "string \<Rightarrow> shell_session \<Rightarrow> shell_session" where
  "print_error s session = session\<lparr>ss_errors := ss_errors session @ s\<rparr>"

text \<open>\<open>responses_[id] = message\<close> and \<open>responses_.erase(id)\<close>.\<close>

definition hm_assign :: "'k \<Rightarrow> 'v \<Rightarrow> ('k, 'v) hash_map \<Rightarrow> ('k, 'v) hash_map" where
  "hm_assign k v m = (case hm_find m k of None \<Rightarrow> m @ [(k, v)] | Some _ \<Rightarrow> hm_modify k (\<lambda>_. v) m)"

definition hm_erase :: "'k \<Rightarrow> ('k, 'v) hash_map \<Rightarrow> ('k, 'v) hash_map" where
  "hm_erase k m = filter (\<lambda>(k', _). k' \<noteq> k) m"

text \<open>
  One round of the loop in \<open>listen\<close>, with the outcome of \<open>receive\<close>.  The loop has ended when the error is
  set; the stop request only comes with the end of the session.
\<close>

definition listen_round :: "protocol_message option outcome \<Rightarrow> shell_session \<Rightarrow> shell_session" where
  "listen_round outcome session =
     (if ss_listener_error session \<noteq> None then session
      else case outcome of
        Ret None \<Rightarrow> session
      | Ret (Some message) \<Rightarrow>
          if msg_kind message = ''EVENT''
          then shell_print ([newline] @ ''[event] '' @
                 (case msg_fields message of [] \<Rightarrow> ''job update'' | f # _ \<Rightarrow> f) @ [newline]) session
          else session\<lparr>ss_responses := hm_assign (msg_request_id message) message (ss_responses session)\<rparr>
      | Raise error \<Rightarrow> session\<lparr>ss_listener_error := Some (''IPC listener stopped: '' @ what error)\<rparr>
      | Blocked \<Rightarrow> session)"

definition listen :: "protocol_message option outcome list \<Rightarrow> shell_session \<Rightarrow> shell_session" where
  "listen outcomes session = fold listen_round outcomes session"

text \<open>\<open>response_ready_.wait_for(lock, 10s, predicate)\<close>: the result of the wait.\<close>

fun await_response :: "u64 \<Rightarrow> protocol_message option outcome list list \<Rightarrow> shell_session \<Rightarrow> bool \<times> shell_session" where
  "await_response request_id [] session =
     (hm_find (ss_responses session) request_id \<noteq> None \<or> ss_listener_error session \<noteq> None, session)"
| "await_response request_id (batch # batches) session =
     (if hm_find (ss_responses session) request_id \<noteq> None \<or> ss_listener_error session \<noteq> None then (True, session)
      else await_response request_id batches (listen batch session))"

text \<open>
  The answers of the operating system and the listener to one command; \<open>requests\<close> is what has entered the request FIFO.
\<close>

record command_env =
  ce_writes :: "send_result list"
  ce_polls :: "poll_result list"
  ce_batches :: "protocol_message option outcome list list"

definition execute :: "command_env \<Rightarrow> string list \<Rightarrow> shell_session \<times> string \<Rightarrow>
    protocol_message outcome \<times> shell_session \<times> string" where
  "execute env tokens state =
     (case state of (session, requests) \<Rightarrow>
      if tokens = [] then (Raise (invalid_argument ''empty command''), session, requests)
      else
        let request_id = ss_next_request_id session;
            session1 = session\<lparr>ss_next_request_id := request_id + 1\<rparr> in
        case transport_send (ce_writes env) (ce_polls env)
               \<lparr>msg_request_id = request_id, msg_kind = ''REQUEST'', msg_fields = tokens\<rparr> requests of
          (Raise e, requests') \<Rightarrow> (Raise e, session1, requests')
        | (Blocked, requests') \<Rightarrow> (Blocked, session1, requests')
        | (Ret _, requests') \<Rightarrow>
            (case await_response request_id (ce_batches env) session1 of
               (ready, session2) \<Rightarrow>
                 if \<not> ready
                 then (Raise (runtime_error ''timed out waiting for engine response''), session2, requests')
                 else case ss_listener_error session2 of
                   Some error \<Rightarrow> (Raise (runtime_error error), session2, requests')
                 | None \<Rightarrow>
                     (case hm_find (ss_responses session2) request_id of
                        None \<Rightarrow> (Raise (logic_error ''unordered_map::at''), session2, requests')
                      | Some response \<Rightarrow>
                          (Ret response, session2\<lparr>ss_responses := hm_erase request_id (ss_responses session2)\<rparr>, requests'))))"

section \<open>Commands\<close>

definition leaves_shell :: "string \<Rightarrow> bool" where
  "leaves_shell token \<longleftrightarrow> token = ''quit'' \<or> token = ''exit''"

text \<open>The exit status: 0 is \<open>EXIT_SUCCESS\<close>, 1 is \<open>EXIT_FAILURE\<close>.\<close>

definition run_command :: "command_env \<Rightarrow> string \<Rightarrow> shell_session \<times> string \<Rightarrow> nat outcome \<times> shell_session \<times> string" where
  "run_command env command state =
     (case tokenize_command command of
        Inl e \<Rightarrow> (Raise e, state)
      | Inr tokens \<Rightarrow>
          if tokens = [] then (Ret 0, state)
          else if leaves_shell (hd tokens) then (Ret 0, state)
          else case execute env tokens state of
            (Raise e, state') \<Rightarrow> (Raise e, state')
          | (Blocked, state') \<Rightarrow> (Blocked, state')
          | (Ret response, session, requests) \<Rightarrow>
              (Ret (if msg_kind response = ''OK'' then 0 else 1),
               (case msg_fields response of [] \<Rightarrow> session | f # _ \<Rightarrow> shell_print (f @ [newline]) session), requests))"

text \<open>
  The loop of \<open>run_shell\<close>: per round the signal flag, what \<open>std::getline\<close> returned, and the environment of the
  command.  The result says whether the loop has ended.
\<close>

record shell_round =
  sh_signal :: bool
  sh_line :: "string option"
  sh_env :: command_env

fun shell_loop :: "shell_round list \<Rightarrow> shell_session \<times> string \<Rightarrow> bool \<times> shell_session \<times> string" where
  "shell_loop [] state = (False, state)"
| "shell_loop (r # rs) (session, requests) =
     (if sh_signal r then (True, session, requests)
      else let session1 = shell_print ''kronos> '' session in
        case sh_line r of
          None \<Rightarrow> (True, session1, requests)
        | Some line \<Rightarrow>
            (case run_command (sh_env r) line (session1, requests) of
               (Blocked, session2, requests2) \<Rightarrow> (False, session2, requests2)
             | (Raise error, session2, requests2) \<Rightarrow>
                 shell_loop rs (print_error (''error: '' @ what error @ [newline]) session2, requests2)
             | (Ret status, session2, requests2) \<Rightarrow>
                 (case tokenize_command line of
                    Inl error \<Rightarrow> shell_loop rs (print_error (''error: '' @ what error @ [newline]) session2, requests2)
                  | Inr tokens \<Rightarrow>
                      if tokens \<noteq> [] \<and> (leaves_shell (hd tokens) \<or> hd tokens = ''shutdown'')
                      then (True, session2, requests2)
                      else shell_loop rs (session2, requests2))))"

definition run_shell :: "command_env \<Rightarrow> shell_round list \<Rightarrow> shell_options \<Rightarrow> string \<Rightarrow> nat outcome \<times> shell_session \<times> string" where
  "run_shell env rounds options requests =
     (case so_command options of
        Some command \<Rightarrow> run_command env command (ShellSession, requests)
      | None \<Rightarrow>
          (case shell_loop rounds
                  (shell_print (''Kronos shell connected. Type '' @ [CHR 0x27] @ ''help'' @ [CHR 0x27] @ '' for commands.'' @ [newline])
                     ShellSession, requests) of
             (ended, state) \<Rightarrow> (if ended then Ret 0 else Blocked, state)))"

section \<open>Responses and their request IDs\<close>

lemma hm_find_assign [registry_simps]: "hm_find (hm_assign k v m) j = (if j = k then Some v else hm_find m j)"
  by (cases "hm_find m k") (auto simp: hm_assign_def registry_simps, auto simp: hm_find_def map_add_def split: option.split)

lemma hm_find_erase [registry_simps]: "hm_find (hm_erase k m) j = (if j = k then None else hm_find m j)"
  by (induction m) (auto simp: hm_erase_def hm_find_def)

definition responses_ok :: "shell_session \<Rightarrow> bool" where
  "responses_ok session \<longleftrightarrow>
     (\<forall>k m. hm_find (ss_responses session) k = Some m \<longrightarrow> msg_request_id m = k \<and> msg_kind m \<noteq> ''EVENT'')"

text \<open>The messages among some outcomes of \<open>receive\<close> that answer a request.\<close>

definition answers_to :: "u64 \<Rightarrow> protocol_message option outcome list \<Rightarrow> protocol_message list" where
  "answers_to rid outcomes = filter (\<lambda>m. msg_request_id m = rid \<and> msg_kind m \<noteq> ''EVENT'') (received outcomes)"

lemma answers_to_simps [simp]:
  "answers_to rid [] = []" "answers_to rid (Ret None # outs) = answers_to rid outs"
  "answers_to rid (Raise e # outs) = answers_to rid outs" "answers_to rid (Blocked # outs) = answers_to rid outs"
  "answers_to rid (Ret (Some m) # outs) =
     (if msg_request_id m = rid \<and> msg_kind m \<noteq> ''EVENT'' then m # answers_to rid outs else answers_to rid outs)"
  by (simp_all add: answers_to_def)

lemma listen_round_frame [simp]:
  "ss_next_request_id (listen_round out session) = ss_next_request_id session"
  "responses_ok session \<Longrightarrow> responses_ok (listen_round out session)"
  by (auto simp: listen_round_def shell_print_def responses_ok_def registry_simps split: outcome.split option.split if_splits)

lemma listen_frame [simp]:
  "ss_next_request_id (listen outs session) = ss_next_request_id session"
  "responses_ok session \<Longrightarrow> responses_ok (listen outs session)"
  by (induction outs arbitrary: session) (simp_all add: listen_def)

lemma await_frame:
  "await_response rid batches session = (ready, session') \<Longrightarrow>
     ss_next_request_id session' = ss_next_request_id session \<and> (responses_ok session \<longrightarrow> responses_ok session') \<and>
     ready = (hm_find (ss_responses session') rid \<noteq> None \<or> ss_listener_error session' \<noteq> None)"
  by (induction rid batches session rule: await_response.induct) (auto split: if_splits)

text \<open>A listener that has not failed has stored, under each ID, the last answer to it.\<close>

lemma listen_round_find:
  "hm_find (ss_responses (listen_round out session)) rid = Some m \<Longrightarrow>
     hm_find (ss_responses session) rid = Some m \<or> m \<in> set (answers_to rid [out])"
  by (auto simp: listen_round_def shell_print_def registry_simps split: if_splits outcome.splits option.splits)

lemma answers_to_Cons: "set (answers_to rid (out # outs)) = set (answers_to rid [out]) \<union> set (answers_to rid outs)"
  by (cases out) (auto simp: answers_to_def received_def split: option.splits)

lemma listen_find:
  "hm_find (ss_responses (listen outs session)) rid = Some m \<Longrightarrow>
     hm_find (ss_responses session) rid = Some m \<or> m \<in> set (answers_to rid outs)"
proof (induction outs arbitrary: session)
  case Nil
  then show ?case by (simp add: listen_def)
next
  case (Cons out outs)
  then show ?case using listen_round_find answers_to_Cons [of rid out outs] by (fastforce simp: listen_def)
qed

lemma await_find:
  "await_response rid batches session = (ready, session') \<Longrightarrow> hm_find (ss_responses session') rid = Some m \<Longrightarrow>
     hm_find (ss_responses session) rid = Some m \<or> m \<in> set (answers_to rid (concat batches))"
proof (induction rid batches session rule: await_response.induct)
  case (2 rid batch batches session)
  show ?case
  proof (cases "hm_find (ss_responses session) rid \<noteq> None \<or> ss_listener_error session \<noteq> None")
    case True
    then show ?thesis using "2.prems" by auto
  next
    case False
    then show ?thesis using 2 listen_find [of batch session rid m] by (auto simp: answers_to_def received_def)
  qed
qed auto

lemma listen_quiet:
  assumes "ss_listener_error session = None" "\<forall>e. Raise e \<notin> set outs"
  shows "ss_listener_error (listen outs session) = None \<and>
    hm_find (ss_responses (listen outs session)) rid =
      (if answers_to rid outs = [] then hm_find (ss_responses session) rid else Some (last (answers_to rid outs)))"
  using assms
proof (induction outs arbitrary: session)
  case Nil
  then show ?case by (simp add: listen_def)
next
  case (Cons out outs)
  have "ss_listener_error (listen_round out session) = None"
    using Cons.prems by (auto simp: listen_round_def shell_print_def split: outcome.split option.split)
  from Cons.IH [OF this] Cons.prems show ?case
    by (cases out) (auto simp: listen_def listen_round_def shell_print_def registry_simps split: option.split)
qed

lemma execute_Ret:
  assumes "execute env tokens (session, requests) = (Ret response, session', requests')"
  obtains session2 where "tokens \<noteq> []"
    "transport_send (ce_writes env) (ce_polls env)
       \<lparr>msg_request_id = ss_next_request_id session, msg_kind = ''REQUEST'', msg_fields = tokens\<rparr> requests = (Ret (), requests')"
    "await_response (ss_next_request_id session) (ce_batches env)
       (session\<lparr>ss_next_request_id := ss_next_request_id session + 1\<rparr>) = (True, session2)"
    "hm_find (ss_responses session2) (ss_next_request_id session) = Some response"
    "session' = session2\<lparr>ss_responses := hm_erase (ss_next_request_id session) (ss_responses session2)\<rparr>"
  using assms by (auto simp: execute_def Let_def split: if_splits prod.splits outcome.splits option.splits)

text \<open>
  C22 (a command gets its own response).  When \<open>execute\<close> returns, the request has been written whole to the
  request FIFO under a fresh ID, and the response it returns is a message with that ID which is not an event and which
  the listener received during the wait (or had already stored under it).  The response is removed
  from the table, and the table keeps only messages filed under their own ID.
\<close>

theorem execute_response:
  assumes "responses_ok session" "execute env tokens (session, requests) = (Ret response, session', requests')"
  shows "msg_request_id response = ss_next_request_id session \<and> msg_kind response \<noteq> ''EVENT'' \<and>
    (Ret (Some response) \<in> set (concat (ce_batches env)) \<or>
     hm_find (ss_responses session) (ss_next_request_id session) = Some response) \<and>
    (\<exists>line. encode_message \<lparr>msg_request_id = ss_next_request_id session, msg_kind = ''REQUEST'', msg_fields = tokens\<rparr>
         = Inr line \<and> requests' = requests @ line) \<and>
    responses_ok session' \<and> hm_find (ss_responses session') (ss_next_request_id session) = None \<and>
    ss_next_request_id session' = ss_next_request_id session + 1"
  using assms(2)
proof (cases rule: execute_Ret)
  case (1 session2)
  let ?rid = "ss_next_request_id session" and ?session1 = "session\<lparr>ss_next_request_id := ss_next_request_id session + 1\<rparr>"
  have "responses_ok ?session1" using assms(1) by (simp add: responses_ok_def)
  then have await: "ss_next_request_id session2 = ?rid + 1" "responses_ok session2"
    using await_frame [OF 1(3)] by simp_all
  have received: "Ret (Some m) \<in> set outs" if "m \<in> set (answers_to ?rid outs)" for m outs
    using that by (induction outs) (auto simp: answers_to_def received_def split: outcome.splits option.splits)
  have "Ret (Some response) \<in> set (concat (ce_batches env)) \<or> hm_find (ss_responses session) ?rid = Some response"
    using await_find [OF 1(3,4)] received [of response "concat (ce_batches env)"] by auto
  moreover have "\<exists>line. encode_message \<lparr>msg_request_id = ?rid, msg_kind = ''REQUEST'', msg_fields = tokens\<rparr> = Inr line \<and>
      requests' = requests @ line"
    using transport_send_spec [OF 1(2)] by (auto split: sum.splits)
  ultimately show ?thesis using await 1(4,5) by (simp add: responses_ok_def registry_simps del: set_concat)
qed

definition ping_session :: "shell_session \<times> string" where
  "ping_session = (ShellSession, [])"

definition ping_env :: "protocol_message option outcome list \<Rightarrow> command_env" where
  "ping_env outs = \<lparr>ce_writes = [SentBytes 4096], ce_polls = [], ce_batches = [[Ret None], outs]\<rparr>"

definition pong :: protocol_message where
  "pong = \<lparr>msg_request_id = 1, msg_kind = ''OK'', msg_fields = [''pong'']\<rparr>"

lemma ping_sent:
  "\<exists>requests. transport_send [SentBytes 4096] [] \<lparr>msg_request_id = 1, msg_kind = ''REQUEST'', msg_fields = [''ping'']\<rparr> []
     = (Ret (), requests)"
proof -
  have "length (u64_to_string 1) \<le> 20" by (rule length_u64_to_string)
  then show ?thesis
    by (simp add: transport_send_def encode_message_def protocol_version_def send_line_def max_message_size_def
        protocol_hex_encode_def)
qed

theorem execute_response_witness:
  "\<exists>response session' requests'. responses_ok ShellSession \<and>
     execute (ping_env [Ret (Some pong)]) [''ping''] ping_session = (Ret response, session', requests') \<and>
     msg_request_id response = 1"
proof -
  obtain requests where sent: "transport_send [SentBytes 4096] []
      \<lparr>msg_request_id = 1, msg_kind = ''REQUEST'', msg_fields = [''ping'']\<rparr> [] = (Ret (), requests)" using ping_sent by blast
  have ok: "responses_ok ShellSession" by (simp add: responses_ok_def ShellSession_def)
  have "\<exists>session' requests'. execute (ping_env [Ret (Some pong)]) [''ping''] (ShellSession, []) = (Ret pong, session', requests')"
    using sent by (simp add: execute_def ping_env_def ShellSession_def Let_def listen_def listen_round_def pong_def hm_assign_def
        registry_simps hm_find_def)
  then obtain session' requests' where
    run: "execute (ping_env [Ret (Some pong)]) [''ping''] (ShellSession, []) = (Ret pong, session', requests')" by blast
  from execute_response [OF ok run] show ?thesis using run ok by (auto simp: ping_session_def ShellSession_def)
qed

section \<open>Waiting\<close>

lemma await_answer:
  assumes "ss_listener_error session = None" "hm_find (ss_responses session) rid = None"
    "\<forall>e. Raise e \<notin> set (concat batches)" "answers_to rid (concat batches) = [response]"
  shows "\<exists>session'. await_response rid batches session = (True, session') \<and> ss_listener_error session' = None \<and>
    hm_find (ss_responses session') rid = Some response"
  using assms
proof (induction batches arbitrary: session)
  case (Cons batch batches)
  have split: "answers_to rid (batch @ concat batches) = answers_to rid batch @ answers_to rid (concat batches)"
    by (simp add: answers_to_def received_def)
  have quiet: "ss_listener_error (listen batch session) = None"
      "hm_find (ss_responses (listen batch session)) rid =
         (if answers_to rid batch = [] then None else Some (last (answers_to rid batch)))"
    using listen_quiet [of session batch rid] Cons.prems by auto
  show ?case
  proof (cases "answers_to rid batch = []")
    case True
    then show ?thesis using Cons.IH [of "listen batch session"] Cons.prems quiet split by simp
  next
    case False
    then have "answers_to rid batch = [response]" using Cons.prems(4) split by (auto simp: append_eq_Cons_conv)
    then have "hm_find (ss_responses (listen batch session)) rid = Some response" using quiet(2) by simp
    then have "await_response rid batches (listen batch session) = (True, listen batch session)" by (cases batches) auto
    then show ?thesis using Cons.prems(1,2) quiet(1) \<open>hm_find (ss_responses (listen batch session)) rid = Some response\<close> by simp
  qed
qed simp

lemma execute_returns:
  assumes "tokens \<noteq> []" "ss_listener_error session = None" "hm_find (ss_responses session) (ss_next_request_id session) = None"
    "transport_send (ce_writes env) (ce_polls env)
       \<lparr>msg_request_id = ss_next_request_id session, msg_kind = ''REQUEST'', msg_fields = tokens\<rparr> requests = (Ret (), requests')"
    "\<forall>e. Raise e \<notin> set (concat (ce_batches env))"
    "answers_to (ss_next_request_id session) (concat (ce_batches env)) = [response]"
  shows "\<exists>session'. execute env tokens (session, requests) = (Ret response, session', requests')"
proof -
  let ?session1 = "session\<lparr>ss_next_request_id := ss_next_request_id session + 1\<rparr>"
  obtain session2 where "await_response (ss_next_request_id session) (ce_batches env) ?session1 = (True, session2)"
      "ss_listener_error session2 = None" "hm_find (ss_responses session2) (ss_next_request_id session) = Some response"
    using await_answer [of ?session1 "ss_next_request_id session" "ce_batches env" response] assms by auto
  then show ?thesis using assms(1,4) by (simp add: execute_def Let_def)
qed

text \<open>
  A dead listener.  Once the listener thread has stopped on an exception, every later command of the
  session whose request is sent ends in an exception that carries the message of the listener, even if the response had
  been stored already; no command waits for the timeout.
\<close>

theorem dead_listener:
  assumes "ss_listener_error session = Some error" "tokens \<noteq> []"
    "transport_send (ce_writes env) (ce_polls env)
       \<lparr>msg_request_id = ss_next_request_id session, msg_kind = ''REQUEST'', msg_fields = tokens\<rparr> requests = (Ret (), requests')"
  shows "\<exists>session'. execute env tokens (session, requests) = (Raise (runtime_error error), session', requests') \<and>
    ss_listener_error session' = Some error"
  using assms by (cases "ce_batches env") (simp_all add: execute_def Let_def)

theorem dead_listener_witness:
  "\<exists>session' requests'. execute (ping_env []) [''ping''] (listen_round (Raise (runtime_error ''gone'')) ShellSession, []) =
     (Raise (runtime_error (''IPC listener stopped: '' @ ''gone'')), session', requests')"
proof -
  obtain requests where "transport_send [SentBytes 4096] []
      \<lparr>msg_request_id = 1, msg_kind = ''REQUEST'', msg_fields = [''ping'']\<rparr> [] = (Ret (), requests)" using ping_sent by blast
  then show ?thesis
    using dead_listener [of "listen_round (Raise (runtime_error ''gone'')) ShellSession" "''IPC listener stopped: '' @ ''gone''"
        "[''ping'']" "ping_env []" "[]" requests]
    by (auto simp: ping_env_def listen_round_def ShellSession_def)
qed

end
