(* ===== verification/Kronos_Demo.thy ===== *)
theory Kronos_Demo
  imports Kronos_Operations Kronos_Factory Kronos_Protocol
begin

text \<open>
  The demonstration program of \<open>apps/kronos_demo.cpp\<close>: its options, and \<open>run_demo\<close> over the engine without a
  journal.  What the worker threads do between two calls is an argument, as for the daemon; the text
  printed is part of the result.
\<close>

section \<open>Options\<close>

record demo_options =
  dg_scheduler :: scheduler_kind
  dg_workers :: u64
  dg_quantum :: u64
  dg_jobs :: u64
  dg_switch_to_priority :: bool

text \<open>
  \<open>std::stoull\<close>: leading white space and a sign are skipped, the value of a negative number is negated modulo
  \<open>2^64\<close>.  The result is the value and the number of characters read; \<open>std::out_of_range\<close> is a \<open>std::logic_error\<close>.
\<close>

definition stoull :: "string \<Rightarrow> (u64 \<times> nat) result" where
  "stoull s =
     (let t = dropWhile is_space s;
          neg = (t \<noteq> [] \<and> hd t = CHR ''-'');
          u = (if t \<noteq> [] \<and> (hd t = CHR ''-'' \<or> hd t = CHR ''+'') then tl t else t);
          ds = takeWhile is_digit u; v = digits_value ds in
      if ds = [] then Inl (invalid_argument ''stoull'')
      else if 2 ^ 64 \<le> v then Inl (logic_error ''stoull'')
      else Inr (if neg then - of_nat v else of_nat v, length s - length (dropWhile is_digit u)))"

definition parse_size :: "string \<Rightarrow> string \<Rightarrow> u64 result" where
  "parse_size s option =
     (case stoull s of Inl e \<Rightarrow> Inl e | Inr (v, parsed) \<Rightarrow>
        if parsed \<noteq> length s \<or> v = 0 then Inl (invalid_argument (option @ '' expects a positive integer''))
        else Inr v)"

definition demo_parse_scheduler :: "string \<Rightarrow> scheduler_kind result" where
  "demo_parse_scheduler s =
     (if s = ''fifo'' then Inr Fifo
      else if s = ''priority'' then Inr Priority
      else if s = ''sjf'' then Inr ShortestJobFirst
      else if s = ''rr'' \<or> s = ''round-robin'' then Inr RoundRobin
      else Inl (invalid_argument (''unknown scheduler: '' @ s)))"

fun demo_options_loop :: "demo_options \<Rightarrow> string list \<Rightarrow> demo_options option result" where
  "demo_options_loop options [] = Inr (Some options)"
| "demo_options_loop options (argument # arguments) =
     (let require_value = (\<lambda>use. case arguments of
            [] \<Rightarrow> Inl (invalid_argument (argument @ '' requires a value''))
          | v # arguments' \<Rightarrow>
              (case use v of Inl e \<Rightarrow> Inl e | Inr options' \<Rightarrow> demo_options_loop options' arguments')) in
      if argument = ''--scheduler'' then
        require_value (\<lambda>v. map_sum (\<lambda>e. e) (\<lambda>k. options\<lparr>dg_scheduler := k\<rparr>) (demo_parse_scheduler v))
      else if argument = ''--workers'' then
        require_value (\<lambda>v. map_sum (\<lambda>e. e) (\<lambda>n. options\<lparr>dg_workers := n\<rparr>) (parse_size v argument))
      else if argument = ''--quantum'' then
        require_value (\<lambda>v. map_sum (\<lambda>e. e) (\<lambda>n. options\<lparr>dg_quantum := n\<rparr>) (parse_size v argument))
      else if argument = ''--jobs'' then
        require_value (\<lambda>v. map_sum (\<lambda>e. e) (\<lambda>n. options\<lparr>dg_jobs := n\<rparr>) (parse_size v argument))
      else if argument = ''--switch-to-priority'' then
        demo_options_loop (options\<lparr>dg_switch_to_priority := True\<rparr>) arguments
      else if argument = ''--help'' \<or> argument = ''-h'' then Inr None
      else Inl (invalid_argument (''unknown option: '' @ argument)))"

definition demo_parse_options :: "string list \<Rightarrow> demo_options option result" where
  "demo_parse_options arguments =
     demo_options_loop \<lparr>dg_scheduler = RoundRobin, dg_workers = 4, dg_quantum = 250, dg_jobs = 8,
       dg_switch_to_priority = False\<rparr> arguments"

section \<open>Output\<close>

definition demo_line :: "job_snapshot \<Rightarrow> string" where
  "demo_line job =
     setw_left 5 (u64_to_string (snap_id job)) @ setw_left 18 (snap_name job) @
     setw_left 12 (job_state_to_string (snap_state job)) @ setw_left 10 (int_to_string (snap_priority job)) @
     u64_to_string (snap_work_units_consumed job) @ ''/'' @ u64_to_string (snap_estimated_work_units job) @ [newline]"

definition print_snapshot :: "job_snapshot list \<Rightarrow> string" where
  "print_snapshot jobs =
     [newline] @ setw_left 5 ''ID'' @ setw_left 18 ''NAME'' @ setw_left 12 ''STATE'' @ setw_left 10 ''PRIORITY'' @
     ''WORK'' @ [newline] @ concat (map demo_line jobs)"

definition all_terminal :: "job_snapshot list \<Rightarrow> bool" where
  "all_terminal jobs \<longleftrightarrow> list_all (\<lambda>job. is_terminal (snap_state job)) jobs \<and> jobs \<noteq> []"

section \<open>run\_demo\<close>

text \<open>The upper bound is computed in \<open>unsigned\<close>, 32 bits.\<close>

definition demo_upper_bound :: "nat \<Rightarrow> u64" where
  "demo_upper_bound index = ucast (12000 + of_nat index * 1000 :: 32 word)"

definition demo_submission :: "nat \<Rightarrow> task \<times> submission_options" where
  "demo_submission index =
     (PrimeTask (PrimeCountTask (demo_upper_bound index)),
      \<lparr>opt_name = ''prime-'' @ nat_to_string (index + 1), opt_priority = int (index mod 4) + 1,
       opt_estimated_work_units = ucast (12000 + of_nat index * 1000 - 1 :: 32 word), opt_durable_spec = None\<rparr>)"

type_synonym 'j demo_engine = "(task, 'j) engine"

fun submit_jobs :: "'j journal_ops \<Rightarrow> (nat \<Rightarrow> time_point) \<Rightarrow> (nat \<Rightarrow> 'j demo_engine \<Rightarrow> 'j demo_engine) \<Rightarrow> nat list \<Rightarrow>
    'j demo_engine \<Rightarrow> job_handle list result \<times> 'j demo_engine" where
  "submit_jobs jo clock workers [] e = (Inr [], e)"
| "submit_jobs jo clock workers (index # indices) e =
     (case submit jo (clock index) (Some (fst (demo_submission index))) (snd (demo_submission index)) (workers index e) of
        (Inl error, e') \<Rightarrow> (Inl error, e')
      | (Inr h, e') \<Rightarrow> map_prod (map_sum (\<lambda>x. x) (Cons h)) (\<lambda>x. x) (submit_jobs jo clock workers indices e'))"

text \<open>
  The polling loop: one function per round for what the workers do before the snapshot and one for what
  they do before the switch.  \<open>None\<close> is a loop that has not ended; an exception of \<open>set_scheduler\<close> ends it.
\<close>

fun demo_poll :: "(('j demo_engine \<Rightarrow> 'j demo_engine) \<times> ('j demo_engine \<Rightarrow> 'j demo_engine)) list \<Rightarrow> demo_options \<Rightarrow>
    bool \<Rightarrow> string \<Rightarrow> 'j demo_engine \<Rightarrow> (unit result \<times> string \<times> 'j demo_engine) option" where
  "demo_poll [] options switched out e = None"
| "demo_poll ((before_snapshot, before_switch) # rounds) options switched out e =
     (let e1 = before_snapshot e; jobs = engine_snapshot e1; out1 = out @ print_snapshot jobs in
      if all_terminal jobs then Some (Inr (), out1, e1)
      else if dg_switch_to_priority options \<and> \<not> switched then
        (case engine_set_scheduler \<lparr>cfg_kind = Priority, cfg_quantum = dg_quantum options\<rparr> (before_switch e1) of
           (Inl error, e2) \<Rightarrow> Some (Inl error, out1, e2)
         | (Inr _, e2) \<Rightarrow>
             demo_poll rounds options True
               (out1 @ [newline] @ ''Scheduler switched safely to priority.'' @ [newline]) e2)
      else demo_poll rounds options switched out1 e1)"

definition result_line :: "job_result \<Rightarrow> string" where
  "result_line result =
     ''job '' @ u64_to_string (res_id result) @ '': '' @ job_state_to_string (res_state result) @ '' - '' @
     res_message result @ [newline]"

text \<open>
  The end: \<open>result().get()\<close> of every handle, in order.  A promise without a value blocks.
\<close>

fun collect_results :: "job_handle list \<Rightarrow> 'j demo_engine \<Rightarrow> job_result list option" where
  "collect_results [] e = Some []"
| "collect_results (h # hs) e =
     (case jh_result h of
        None \<Rightarrow> None
      | Some r \<Rightarrow>
          (case jr_promise (en_store e ! r) of
             [] \<Rightarrow> None
           | result # _ \<Rightarrow> map_option (Cons result) (collect_results hs e)))"

definition demo_failures :: "job_result list \<Rightarrow> nat" where
  "demo_failures results = length (filter (\<lambda>r. res_state r \<noteq> Completed) results)"

record 'j demo_env =
  de_clock :: "nat \<Rightarrow> time_point"
  de_submit_workers :: "nat \<Rightarrow> 'j demo_engine \<Rightarrow> 'j demo_engine"
  de_rounds :: "(('j demo_engine \<Rightarrow> 'j demo_engine) \<times> ('j demo_engine \<Rightarrow> 'j demo_engine)) list"
  de_drain :: "'j demo_engine \<Rightarrow> 'j demo_engine"

definition run_demo :: "'j journal_ops \<Rightarrow> platform \<Rightarrow> 'j demo_env \<Rightarrow> demo_options \<Rightarrow> (nat result \<times> string) option" where
  "run_demo jo platform env options =
     (case TaskEngine platform
             \<lparr>ec_worker_count = unat (dg_workers options),
              ec_scheduler = \<lparr>cfg_kind = dg_scheduler options, cfg_quantum = dg_quantum options\<rparr>, ec_journal = None\<rparr> of
        Inl error \<Rightarrow> Some (Inl error, [])
      | Inr e0 \<Rightarrow>
          (let out0 = ''Kronos foundation demo'' @ [newline] @ ''workers='' @ nat_to_string (en_worker_count e0) @
                 '' scheduler='' @ scheduler_kind_to_string (dg_scheduler options) @
                 '' quantum='' @ u64_to_string (dg_quantum options) @ [newline] in
           case submit_jobs jo (de_clock env) (de_submit_workers env) [0..<unat (dg_jobs options)] e0 of
             (Inl error, _) \<Rightarrow> Some (Inl error, out0)
           | (Inr handles, e1) \<Rightarrow>
               (case demo_poll (de_rounds env) options False out0 e1 of
                  None \<Rightarrow> None
                | Some (Inl error, out, _) \<Rightarrow> Some (Inl error, out)
                | Some (Inr _, out, e2) \<Rightarrow>
                    (case collect_results handles
                            (de_drain env (snd (shutdown_close Drain (shutdown_stop_accepting e2)))) of
                       None \<Rightarrow> None
                     | Some results \<Rightarrow>
                         Some (Inr (if demo_failures results = 0 then 0 else 1),
                               out @ [newline] @ ''Final results:'' @ [newline] @ concat (map result_line results))))))"

section \<open>What the options accept\<close>

lemma digits_not_space: "is_digit c \<Longrightarrow> \<not> is_space c \<and> c \<noteq> CHR ''-'' \<and> c \<noteq> CHR ''+''"
  by (auto simp: is_digit_def is_space_def)

lemma stoull_digits:
  assumes "n < 2 ^ 64"
  shows "stoull (nat_to_string n) = Inr (of_nat n, length (nat_to_string n))"
    "stoull (CHR ''-'' # nat_to_string n) = Inr (- of_nat n, Suc (length (nat_to_string n)))"
proof -
  have "dropWhile is_space (nat_to_string n) = nat_to_string n" "\<not> is_space CHR ''-''"
    using hd_nat_to_string [of n] digits_not_space by (auto simp: dropWhile_eq_self_iff is_space_def)
  then show "stoull (nat_to_string n) = Inr (of_nat n, length (nat_to_string n))"
    "stoull (CHR ''-'' # nat_to_string n) = Inr (- of_nat n, Suc (length (nat_to_string n)))"
    using assms hd_nat_to_string [of n] digits_not_space [of "hd (nat_to_string n)"] by (simp_all add: stoull_def Let_def)
qed

text \<open>
  Negative sizes.  For every positive number below \<open>2^64\<close>, the options of the demo accept its decimal text
  as that number; but they accept the text with a minus sign too, as the number modulo \<open>2^64\<close>, although the
  message says that a positive integer is expected.
\<close>

theorem parse_size_wraps:
  assumes "0 < n" "n < 2 ^ 64"
  shows "parse_size (nat_to_string n) option = Inr (of_nat n) \<and>
    (\<exists>v. parse_size (CHR ''-'' # nat_to_string n) option = Inr v \<and> unat v = 2 ^ 64 - n)"
proof -
  have small: "unat (of_nat k :: u64) = k" if "k < 2 ^ 64" for k
    using that by (simp add: unsigned_of_nat take_bit_nat_eq_self)
  have pos: "(of_nat n :: u64) \<noteq> 0" using small [OF assms(2)] assms(1) by (metis less_irrefl unsigned_0)
  have neg: "(- of_nat n :: u64) = of_nat (2 ^ 64 - n)"
  proof -
    have "(of_nat (2 ^ 64 - n) :: u64) + of_nat n = of_nat (2 ^ 64)"
      using assms(2) by (simp only: of_nat_add [symmetric] le_add_diff_inverse2 order_less_imp_le)
    also have "\<dots> = 0" by (simp add: word_of_nat_eq_0_iff)
    finally show ?thesis by (simp add: minus_unique add.commute)
  qed
  have "unat (- of_nat n :: u64) = 2 ^ 64 - n" unfolding neg by (rule small) (use assms in simp)
  then show ?thesis using pos by (simp add: parse_size_def stoull_digits [OF assms(2)])
qed

theorem parse_size_wraps_witness:
  "\<exists>v. parse_size (CHR ''-'' # nat_to_string 1) ''--jobs'' = Inr v \<and> unat v = 2 ^ 64 - 1"
  using parse_size_wraps [of 1 "''--jobs''"] by simp

section \<open>The jobs of the demo\<close>

text \<open>The estimate is computed modulo \<open>2^32\<close> and is never zero, since the upper bound is even.\<close>

lemma demo_estimate_nonzero: "opt_estimated_work_units (snd (demo_submission index)) \<noteq> 0"
proof
  let ?w = "12000 + of_nat index * 1000 :: 32 word"
  assume "opt_estimated_work_units (snd (demo_submission index)) = 0"
  then have "unat (ucast (?w - 1) :: u64) = 0" by (simp add: demo_submission_def)
  moreover have "unat (?w - 1) < 2 ^ 64" by (rule order_less_trans [OF unsigned_less]) simp
  ultimately have "unat (?w - 1) = 0" by (simp add: unsigned_ucast_eq take_bit_nat_eq_self del: unsigned_0)
  then have "?w = 1" by (simp add: unsigned_eq_0_iff)
  moreover have "?w = 2 * (6000 + of_nat index * 500)" by (simp add: algebra_simps)
  ultimately have "even (1 :: 32 word)" by (metis dvd_triv_left)
  then show False by simp
qed

lemma push_or_finish_keeps:
  "en_accepting (push_or_finish jo now entry r message e) = en_accepting e"
  "en_journal e = None \<Longrightarrow> en_journal (push_or_finish jo now entry r message e) = None"
  by (auto simp: push_or_finish_def engine_push_def finish_record_def with_record_def finish_section_def finish_locked_def
      persist_transition_locked_def map_snd_eq_Pair_iff split: prod.splits bool.splits option.splits)

lemma submit_undurable:
  assumes "en_accepting e" "en_journal e = None" "opt_estimated_work_units options \<noteq> 0"
  obtains h e' where "submit jo now (Some t) options e = (Inr h, e')" "jh_id h = en_next_job_id e"
    "en_next_job_id e' = en_next_job_id e + 1" "en_accepting e'" "en_journal e' = None"
proof -
  obtain out e' where run: "submit jo now (Some t) options e = (out, e')" by fastforce
  from run show thesis
  proof (cases rule: submit_cases)
    case rejected
    then show thesis using assms by (simp add: submit_check_def)
  next
    case not_journaled
    then show thesis using assms(2) by (simp add: submit_journal_def take_job_id_def take_sequence_def)
  next
    case (accepted t' e2 e3 ins r e4)
    have "e3 = e2" "en_journal e2 = None" "en_accepting e2" "en_next_job_id e2 = en_next_job_id e + 1"
      using accepted(2,3) assms by (auto simp: submit_journal_def take_job_id_def take_sequence_def)
    moreover from accepted(4) have "en_journal e4 = en_journal e3" "en_accepting e4 = en_accepting e3"
        "en_next_job_id e4 = en_next_job_id e3"
      by (auto simp: registry_emplace_def Let_def split: prod.splits)
    ultimately show thesis using that run accepted(5,6)
      by (simp add: JobHandle_def push_or_finish_keeps)
  qed
qed

text \<open>
  The demo submits its jobs.  On an accepting engine without a journal, submitting any number of jobs
  never throws, although the estimates are computed in 32-bit arithmetic: one handle per job comes back,
  with consecutive job IDs, whatever the workers do meanwhile.
\<close>

theorem demo_submits:
  assumes "en_accepting e" "en_journal e = None"
    "\<forall>i e. en_next_job_id (workers i e) = en_next_job_id e \<and> en_accepting (workers i e) = en_accepting e \<and>
       en_journal (workers i e) = en_journal e"
  shows "\<exists>hs e'. submit_jobs jo clock workers indices e = (Inr hs, e') \<and>
    map jh_id hs = map (\<lambda>k. en_next_job_id e + of_nat k) [0..<length indices]"
  using assms(1,2)
proof (induction indices arbitrary: e)
  case (Cons index indices)
  have e: "en_accepting (workers index e)" "en_journal (workers index e) = None" using Cons.prems assms(3) by simp_all
  obtain h e1 where h: "submit jo (clock index) (Some (fst (demo_submission index))) (snd (demo_submission index))
        (workers index e) = (Inr h, e1)" "jh_id h = en_next_job_id e" "en_next_job_id e1 = en_next_job_id e + 1"
      "en_accepting e1" "en_journal e1 = None"
    using submit_undurable [OF e demo_estimate_nonzero] assms(3) by metis
  obtain hs e' where "submit_jobs jo clock workers indices e1 = (Inr hs, e')"
      "map jh_id hs = map (\<lambda>k. en_next_job_id e1 + of_nat k) [0..<length indices]"
    using Cons.IH [OF h(4,5)] by blast
  then show ?case using h
    by (simp add: upt_conv_Cons map_Suc_upt [symmetric] comp_def algebra_simps del: upt_Suc map_Suc_upt)
qed simp

theorem demo_submits_witness:
  "\<exists>(e :: (task, unit) engine) hs e'. TaskEngine able_platform \<lparr>ec_worker_count = 4, ec_scheduler = \<lparr>cfg_kind = RoundRobin, cfg_quantum = 250\<rparr>,
       ec_journal = None\<rparr> = Inr e \<and>
     submit_jobs no_journal (\<lambda>_. 10) (\<lambda>_ e. e) [0..<8] e = (Inr hs, e') \<and> map jh_id hs = [1, 2, 3, 4, 5, 6, 7, 8]"
proof -
  obtain e :: "(task, unit) engine" where e: "TaskEngine able_platform \<lparr>ec_worker_count = 4,
      ec_scheduler = \<lparr>cfg_kind = RoundRobin, cfg_quantum = 250\<rparr>, ec_journal = None\<rparr> = Inr e"
      "en_accepting e" "en_journal e = None" "en_next_job_id e = 1"
    by (simp add: TaskEngine_Inr_iff TaskQueue_def RoundRobinScheduler_def resolved_worker_count_def)
  obtain hs e' where "submit_jobs no_journal (\<lambda>_. 10) (\<lambda>_ e. e) [0..<8] e = (Inr hs, e')" "map jh_id hs = [1, 2, 3, 4, 5, 6, 7, 8]"
    using demo_submits [OF e(2,3), of "\<lambda>_ e. e" no_journal "\<lambda>_. 10" "[0..<8]"] by (auto simp: e(4) upt_rec)
  then show ?thesis using e(1) by (intro exI [of _ e] exI [of _ hs] exI [of _ e']) simp
qed

end
