(* ===== verification/Spec2Isabelle.thy ===== *)
theory Spec2Isabelle
  imports Kronos_Completion Kronos_Crash Kronos_Restart Kronos_Shell Kronos_Demo
begin

text \<open>
  Kronos is a background task engine: clients submit jobs over a pair of named pipes, a pool of worker
  threads runs them in slices under a scheduling policy, and a write-ahead log makes jobs survive a crash.
  This development models its C++ sources and proves that the parts work, alone and together.

  \<^bold>\<open>Parts of the program and their theories.\<close>

  \<^item> \<open>Kronos_Prelude\<close>, \<open>Kronos_Text\<close>: exceptions as values (\<open>exn\<close>, \<open>result\<close>), 64-bit words, \<open>std::unordered_map\<close> as an
    association list, \<open>std::to_string\<close>, \<open>std::from_chars\<close>, hexadecimal text.
  \<^item> \<open>Kronos_Types\<close>: the value types of \<open>include/kronos/types.hpp\<close>, \<open>journal.hpp\<close> and \<open>src/types.cpp\<close>.
  \<^item> \<open>Priority_Heap\<close>, \<open>Kronos_Scheduler\<close>: \<open>std::priority_queue\<close> as a binary heap in an array, and the four policies of
    \<open>src/scheduler.cpp\<close>.  The locales \<open>priority_queue\<close> and \<open>scheduler_container\<close> state what a heap and a scheduler promise; the properties are
    that no entry is lost or invented, that \<open>pop\<close> follows the policy (the oldest push not handed out yet for FIFO and Round Robin, judged by the
    history of the run), and that round robin is fair.
  \<^item> \<open>Kronos_Tasks\<close>, \<open>Kronos_Factory\<close>: the slices of the built-in tasks of \<open>src/example_tasks.cpp\<close> (trial division is
    correct, any sequence of slices computes the right result) and \<open>src/task_factory.cpp\<close> (the durable
    specification of a task restores the task).
  \<^item> \<open>Kronos_Crc\<close>, \<open>Kronos_Wal\<close>: checksum, record format, \<open>append\<close> over partial writes and \<open>recover\<close> of
    \<open>src/wal.cpp\<close>: recovery of a log with a torn tail, atomicity of an append under a crash, detection of
    damaged bytes, and the one way in which a failed append spoils the file.
  \<^item> \<open>Kronos_Queue\<close>, \<open>Kronos_Engine\<close>, \<open>Kronos_Steps\<close>, \<open>Kronos_Run\<close>: \<open>TaskQueue\<close> and \<open>TaskEngine::Impl\<close> of
    \<open>src/task_engine.cpp\<close>, one function per critical section or atomic access, the public operations composed
    of them, and the interleaving of all threads as the relation \<open>step\<close>.  The locale \<open>job_queue\<close> is what the engine relies on in the
    queue, \<open>locked_section\<close> the contract of a critical section on a job record.
  \<^item> \<open>Kronos_Invariant\<close>, \<open>Kronos_Lifecycle\<close>, \<open>Kronos_Operations\<close>: the invariant of reachable states and what it gives:
    results are published once and never change, no two workers run a job, no job is lost, shutdown finishes
    every job, unfinished work can always move; and the outcome of each operation on every branch.
  \<^item> \<open>Kronos_Slices\<close>, \<open>Kronos_Completion\<close>: the engine together with its tasks.  \<open>internal_step\<close> refines \<open>step\<close>: a slice is the call of
    \<open>run_slice\<close> on the task of the job.  The locale \<open>counted_task\<close>, which extends \<open>sliced_task\<close>, is what the engine relies on in a task; it is interpreted for
    the tasks of the factory.  The engine comes to rest under every schedule, within the bound \<open>work_left\<close>, and then every job has ended; and a completed
    job has published the right answer.
  \<^item> \<open>Kronos_Journal\<close>, \<open>Kronos_Write_Ahead\<close>, \<open>Kronos_Crash\<close>: \<open>WalManager\<close> behind \<open>IJobJournal\<close>.  The locale
    \<open>log_journal\<close> is the contract of a journal, interpreted for the log; in it the engine is shown to log before it acts, and so
    recovery after a crash reports the jobs as they were in memory.
  \<^item> \<open>Kronos_Protocol\<close>, \<open>Kronos_Transport\<close>, \<open>Kronos_Endpoints\<close>: messages and command lines (\<open>src/protocol.cpp\<close>), lines over a
    FIFO, and the server and client ends with their files, lock and descriptors (\<open>src/fifo.cpp\<close>).
  \<^item> \<open>Kronos_Daemon\<close>, \<open>Kronos_Requests\<close>, \<open>Kronos_Restart\<close>: \<open>apps/kronos_engine.cpp\<close>.  The locale \<open>message_sink\<close> is what the request
    handler relies on, interpreted for the response FIFO: one answer per request; and which jobs a daemon
    registers again when it starts on a log.
  \<^item> \<open>Kronos_Shell\<close>, \<open>Kronos_Demo\<close>: \<open>apps/kronos_shell.cpp\<close> and \<open>apps/kronos_demo.cpp\<close>.
  \<^item> This theory: the properties that span several parts.

  \<^bold>\<open>How the model corresponds to the code.\<close>  A class is a record with the members as fields, a member function a function
  on it with the same name (with a prefix where two classes share a name); a function that may throw returns
  \<open>exn + 'a\<close> and the state it leaves behind.  \<open>uint64_t\<close> and \<open>size_t\<close> are 64-bit words and wrap around; \<open>int\<close> and \<open>int64_t\<close>
  are integers with their range where it matters.  A shared job record is a reference into a store, so that a handle, the
  registry and a worker see the same record.  Locks do not appear as such: a critical section is one
  function and one step.

  The operating system is an argument or a state: the results of \<open>write\<close>, \<open>read\<close>, \<open>poll\<close> and \<open>fsync\<close> are
  lists, with short, interrupted and failing calls; files, locks and descriptors are a record, with a
  function that says which calls fail.  A loop that consumes such a list is structurally recursive, and
  a loop whose list is used up has not returned (\<open>Blocked\<close>, \<open>AppendPending\<close>, \<open>None\<close>); theorems say when the loops do return.  Time
  enters as an argument \<open>now\<close>, and what the constructor of the engine asks for (processors, memory, threads) as the record \<open>platform\<close>.  Where a sequential operation of the daemon or the demo
  makes several calls whose results depend on the engine (restoring jobs, \<open>kill\<close>, submitting and polling in the demo), what the worker threads do
  between them is a function argument; \<open>worker_effect\<close>, the condition on it, holds for every worker step of the engine.  The other commands call the engine once:
  they are taken as one sequential call, and worker steps before the answer is sent are not interleaved with them (\<open>handle_submit\<close> is \<open>submit\<close>, observing the handle and answering).

  \<^bold>\<open>Conditions on the environment.\<close>  They are hypotheses of the theorems or guards of the step relation:
  \<open>restore\<close> does not overlap with \<open>submit\<close> or another \<open>restore\<close> (the daemon restores before it serves), the counter of job
  IDs does not wrap around, a shutdown is not called from inside a task; for the theorems on crashes, a failing append has
  written nothing or everything (\<open>wal_holds\<close>; what happens otherwise is a property of \<open>Kronos_Wal\<close>), and \<open>restore\<close> is called
  only for submissions of the log (\<open>calls_ok\<close>); for the theorem on the restart, besides, the file can be read and truncated and the appends of the new daemon
  succeed (\<open>log_healthy\<close>, in \<open>starting\<close>); for the answers of the daemon, the response FIFO reports no
  error (\<open>fifo_carries\<close>); for the theorems on completion, the tasks submitted are new built-in tasks and not the prime
  counter with the bound \<open>UINT64_MAX\<close> (\<open>new_task\<close>), which is shown never to complete.

  \<^bold>\<open>Choices.\<close>  \<open>std::sort\<close> is a stable sort (the code sorts by keys that are distinct in every log and
  registry the program builds); the order of \<open>std::unordered_map\<close> is the order of insertion, which no result depends on.
  \<open>Kronos_Run\<close>, and the sample states in the other theories, hold concrete runs for the witnesses.

  \<^bold>\<open>Not modelled.\<close>  The benchmark and the tests; text on the standard streams of the daemon; signal
  handlers and \<open>main\<close> functions beyond the options and the loops they call; the passing of time (a timed
  wait ends when its list of answers says so); memory exhaustion, except for the answer to reserving the worker threads.
\<close>

section \<open>Crash and restart\<close>

text \<open>
  C1 (nothing is lost over a crash and a restart).  Stop an engine on a write-ahead log anywhere, as in the crash
  theorem, and start a new daemon on the file, with the torn bytes of an unfinished append at its end; its
  own appends succeed.  The daemon starts; every job that was registered before the crash, except those the engine failed because
  the log threw, has its ID reserved, and it is registered again exactly when it had not finished
  and the factory can rebuild its task from the specification in the log.
\<close>

theorem restart_after_crash:
  fixes s0 s :: "(task, wal_manager) system"
  assumes "reachable wal_ops s0" "sys_clients s0 = []" "\<forall>i. find_record i (sys_engine s0) = None"
    "en_journal (sys_engine s0) = Some w0" "wal_holds w0 rs0" "log_wf {} rs0"
    "\<forall>i \<in> known_ids rs0. i < en_next_job_id (sys_engine s0)"
    "(durable_step wal_ops wal_holds)\<^sup>*\<^sup>* s0 s" "newline \<notin> set torn"
    "en_journal (sys_engine s) = Some w" "starting (wm_file w @ torn) d" "\<forall>i e. worker_effect e (workers i e)"
  shows "\<exists>d'. daemon_recover \<lparr>ra_readable = True, ra_ftruncate = None, ra_fsync = None\<rparr> clock workers d = (None, d') \<and>
    (\<forall>i rec. rec_of (sys_engine s) i = Some rec \<and> \<not> wal_failed rec \<longrightarrow>
       (i \<noteq> - 1 \<longrightarrow> i < en_next_job_id (dm_engine d')) \<and>
       (\<exists>sub. (\<exists>rs. wm_file w = log_text rs \<and> sub \<in> set (submissions rs)) \<and> sub_id sub = i \<and>
          (get_job i (dm_engine d') \<noteq> None \<longleftrightarrow>
             \<not> is_terminal (rec_state rec) \<and> \<not> isl (factory_restore (sub_task sub)))))"
proof -
  obtain rs where rs: "wm_file w = log_text rs" "log_ok rs"
    and jobs: "\<And>i rec. rec_of (sys_engine s) i = Some rec \<Longrightarrow>
       \<exists>sub \<in> set (submissions rs). sub_id sub = i \<and> (wal_failed rec \<or> rj_state (job_of_log rs sub) = rec_state rec)"
    using crash_log [OF assms(1-8)] assms(10) by (metis option.inject)
  have "starting (log_text rs @ torn) d" using assms(11) rs(1) by simp
  from daemon_restarts [OF rs(2) assms(9) this assms(12), of clock]
  obtain d' where d': "daemon_recover \<lparr>ra_readable = True, ra_ftruncate = None, ra_fsync = None\<rparr> clock workers d = (None, d')"
    and ids: "\<And>sub. sub \<in> set (submissions rs) \<Longrightarrow> sub_id sub \<noteq> - 1 \<Longrightarrow> sub_id sub < en_next_job_id (dm_engine d')"
    and again: "\<And>sub. sub \<in> set (submissions rs) \<Longrightarrow>
      get_job (sub_id sub) (dm_engine d') \<noteq> None \<longleftrightarrow> revived (job_of_log rs sub)"
    by blast
  have "(i \<noteq> - 1 \<longrightarrow> i < en_next_job_id (dm_engine d')) \<and>
      (\<exists>sub. (\<exists>rs. wm_file w = log_text rs \<and> sub \<in> set (submissions rs)) \<and> sub_id sub = i \<and>
         (get_job i (dm_engine d') \<noteq> None \<longleftrightarrow> \<not> is_terminal (rec_state rec) \<and> \<not> isl (factory_restore (sub_task sub))))"
    if rec: "rec_of (sys_engine s) i = Some rec" "\<not> wal_failed rec" for i rec
  proof -
    obtain sub where sub: "sub \<in> set (submissions rs)" "sub_id sub = i" "rj_state (job_of_log rs sub) = rec_state rec"
      using jobs [OF rec(1)] rec(2) by blast
    then show ?thesis using ids [OF sub(1)] again [OF sub(1)] rs(1) by (auto simp: revived_def)
  qed
  then show ?thesis using d' by blast
qed

theorem restart_after_crash_witness:
  "\<exists>(s :: (task, wal_manager) system) w d'. (durable_step wal_ops wal_holds)\<^sup>*\<^sup>* (durable_system [] 1 0 [] []) s \<and>
     en_journal (sys_engine s) = Some w \<and>
     daemon_recover \<lparr>ra_readable = True, ra_ftruncate = None, ra_fsync = None\<rparr> (\<lambda>_. 10) (\<lambda>_ e. e)
       (idle_daemon (wm_file w @ ''K1|T|17'')) = (None, d') \<and> 1 < en_next_job_id (dm_engine d')"
proof -
  let ?s0 = "durable_system [] 1 0 [] [] :: (task, wal_manager) system"
  let ?rec = "JobRecord (submit_snapshot 10 1 0 durable_options) (submit_entry 1 0 durable_options) (ct_task prime_created)"
  obtain contents where run: "(durable_step wal_ops wal_holds)\<^sup>*\<^sup>* ?s0 (durable_system [?rec] 2 1 contents
      [C_Push 0 (submit_entry 1 0 durable_options) ''submission raced with engine shutdown''])"
    using durable_run [of "ct_task prime_created"] by blast
  let ?crashed = "durable_system [?rec] 2 1 contents
    [C_Push 0 (submit_entry 1 0 durable_options) ''submission raced with engine shutdown'']"
  have start: "sys_clients ?s0 = []" "\<forall>i. find_record i (sys_engine ?s0) = None"
      "en_journal (sys_engine ?s0) = Some (durable_wal [])" "wal_holds (durable_wal []) []" "log_wf {} []"
      "\<forall>i \<in> known_ids []. i < en_next_job_id (sys_engine ?s0)" "newline \<notin> set ''K1|T|17''"
      "en_journal (sys_engine ?crashed) = Some (durable_wal contents)" "\<forall>i e. worker_effect e ((\<lambda>_ e. e) i e)"
    by (simp_all add: durable_system_def durable_engine_def find_record_def wal_holds_def durable_wal_def
        answer_atomic_def in_range_def known_ids_def worker_effect_refl)
  have idle: "starting (wm_file (durable_wal contents) @ ''K1|T|17'') (idle_daemon (wm_file (durable_wal contents) @ ''K1|T|17''))"
    by (simp add: starting_def idle_daemon_def idle_engine_def log_healthy_def answer_good_def)
  have rec: "rec_of (sys_engine ?crashed) 1 = Some ?rec" "\<not> wal_failed ?rec"
    by (simp_all add: rec_of_def durable_system_def durable_engine_def find_record_def hm_find_def JobRecord_def
        submit_snapshot_def wal_failed_def)
  have one: "(1 :: u64) \<noteq> - 1" by simp
  from restart_after_crash [OF durable_initial start(1-6) run start(7,8) idle start(9), of "\<lambda>_. 10"]
  obtain d' where "daemon_recover \<lparr>ra_readable = True, ra_ftruncate = None, ra_fsync = None\<rparr> (\<lambda>_. 10) (\<lambda>_ e. e)
      (idle_daemon (wm_file (durable_wal contents) @ ''K1|T|17'')) = (None, d')" "1 < en_next_job_id (dm_engine d')"
    using rec one by blast
  then show ?thesis using run start(8) by blast
qed

section \<open>A command from the shell to the daemon and back\<close>

text \<open>
  C10 (a command reaches the daemon and its answer comes back).  The shell sends a command; the daemon, reading the
  request FIFO in any chunks, receives exactly that command, handles it and answers; the listener of the
  shell reads the response FIFO, again in any chunks and over any number of calls.  Then the command of
  the shell returns the daemon's answer, with the request ID of the command.
\<close>

theorem command_round_trip:
  assumes "tokens \<noteq> []" "ss_listener_error session = None" "hm_find (ss_responses session) (ss_next_request_id session) = None"
    "transport_send (ce_writes env) (ce_polls env)
       \<lparr>msg_request_id = ss_next_request_id session, msg_kind = ''REQUEST'', msg_fields = tokens\<rparr> [] = (Ret (), requests)"
    "read_bytes os = requests" "tp_read_buffer server = []"
    "receive_all calls os server = (outs, server', os')" "received outs = [request]"
    "fifo_carries (dm_out d) []" "handle_request now workers ra request d = (None, d')"
    "read_bytes cos = fo_bytes (dm_out d')" "tp_read_buffer client = []"
    "receive_all ccalls cos client = (couts, client', cos')" "read_bytes cos' = []" "couts \<noteq> []" "last couts = Ret None"
    "\<forall>e. Raise e \<notin> set couts" "concat (ce_batches env) = couts"
  shows "\<exists>kind text session'. (kind = ''OK'' \<or> kind = ''ERROR'') \<and>
    request = \<lparr>msg_request_id = ss_next_request_id session, msg_kind = ''REQUEST'', msg_fields = tokens\<rparr> \<and>
    fifo_carries (dm_out d') [\<lparr>msg_request_id = ss_next_request_id session, msg_kind = kind, msg_fields = [text]\<rparr>] \<and>
    execute env tokens (session, []) =
      (Ret \<lparr>msg_request_id = ss_next_request_id session, msg_kind = kind, msg_fields = [text]\<rparr>, session', requests)"
proof -
  let ?rid = "ss_next_request_id session"
  let ?request = "\<lparr>msg_request_id = ?rid, msg_kind = ''REQUEST'', msg_fields = tokens\<rparr>"
  obtain line where line: "map encode_message [?request] = map Inr [line]" "requests = concat [line]"
    using transport_send_spec [OF assms(4)] by (auto split: sum.splits)
  have "tp_read_buffer server @ read_bytes os @ [] = concat [line]" using assms(5,6) line(2) by simp
  from receive_in_order [OF line(1) this assms(7)] obtain k where "received outs = take k [?request]" by blast
  then have request: "request = ?request" using assms(8) by (cases k) auto
  have "answered ?rid [] (None, d')"
    using handle_request_answered [OF assms(9), of request now workers ra] assms(10) request by simp
  then obtain kind tx where answer: "kind = ''OK'' \<or> kind = ''ERROR''"
      "fifo_carries (dm_out d') [\<lparr>msg_request_id = ?rid, msg_kind = kind, msg_fields = [tx]\<rparr>]"
    by (auto simp: answered_def)
  let ?response = "\<lparr>msg_request_id = ?rid, msg_kind = kind, msg_fields = [tx]\<rparr>"
  obtain lines where lines: "map encode_message [?response] = map Inr lines" "fo_bytes (dm_out d') = concat lines"
    using answer(2) unfolding fifo_carries_def by blast
  have "tp_read_buffer client @ read_bytes cos @ [] = concat lines" using assms(11,12) lines(2) by simp
  from receive_in_order [OF lines(1) this assms(13)] have "received couts = [?response]" using assms(14-16) by blast
  then have "answers_to ?rid (concat (ce_batches env)) = [?response]"
    using answer(1) assms(18) by (auto simp: answers_to_def)
  moreover have "\<forall>e. Raise e \<notin> set (concat (ce_batches env))" unfolding assms(18) by (rule assms(17))
  ultimately obtain session' where "execute env tokens (session, []) = (Ret ?response, session', requests)"
    using execute_returns [OF assms(1-4), of ?response] by blast
  then show ?thesis using answer request by blast
qed

text \<open>One call that finds a whole line, and one that finds nothing.\<close>

lemma receive_one:
  assumes "encode_message m = Inr line" "length line \<le> max_message_size" "tp_read_buffer t = []"
  shows "receive_all [(\<lambda>_. [PollReady], 200)] [ReadBytes line] t = ([Ret (Some m)], t, [])"
    "receive_all [(\<lambda>_. [PollReady], 200), (\<lambda>_. [PollReady], 200)] [ReadBytes line, ReadWouldBlock] t =
       ([Ret (Some m), Ret None], t, [])"
proof -
  obtain p where p: "line = p @ [newline]" "newline \<notin> set p" using encoded_is_line [OF assms(1)] is_lineE by blast
  have "extract_line line = (Some line, [])" using p by (simp add: extract_line_def scan_to_newline)
  moreover have "extract_line [] = (None, [])" by (simp add: extract_line_def)
  moreover have "t\<lparr>tp_read_buffer := []\<rparr> = t" using assms(3) by simp
  ultimately show "receive_all [(\<lambda>_. [PollReady], 200)] [ReadBytes line] t = ([Ret (Some m)], t, [])"
    "receive_all [(\<lambda>_. [PollReady], 200), (\<lambda>_. [PollReady], 200)] [ReadBytes line, ReadWouldBlock] t =
       ([Ret (Some m), Ret None], t, [])"
    using assms(2,3) encoded_is_line [OF assms(1)] by (simp_all add: transport_receive_def receive_line_def)
qed

definition idle_transport :: transport where
  "idle_transport = \<lparr>tp_paths = \<lparr>fp_directory = [], fp_requests = [], fp_responses = []\<rparr>, tp_read_fd = 3, tp_write_fd = 4,
     tp_read_buffer = []\<rparr>"

theorem command_round_trip_witness:
  "\<exists>response session' requests. execute \<lparr>ce_writes = [SentBytes 4096], ce_polls = [],
       ce_batches = [[Ret (Some pong), Ret None]]\<rparr> [''ping''] (ShellSession, []) = (Ret response, session', requests) \<and>
     msg_request_id response = 1"
proof -
  let ?request = "\<lparr>msg_request_id = 1, msg_kind = ''REQUEST'', msg_fields = [''ping'']\<rparr>"
  let ?ra = "\<lparr>ra_readable = True, ra_ftruncate = None, ra_fsync = None\<rparr>"
  let ?env = "\<lparr>ce_writes = [SentBytes 4096], ce_polls = [], ce_batches = [[Ret (Some pong), Ret None]]\<rparr>"
  obtain requests where sent: "transport_send [SentBytes 4096] [] ?request [] = (Ret (), requests)" using ping_sent by blast
  then have req: "encode_message ?request = Inr requests" "length requests \<le> max_message_size"
    using transport_send_spec [OF sent] by (auto split: sum.splits)
  have short: "''OK'' = ''OK'' \<or> ''OK'' = ''ERROR''" "length ''pong'' \<le> 524000" by simp_all
  obtain out where out: "respond 1 ''OK'' ''pong'' (idle_daemon []) = (None, (idle_daemon [])\<lparr>dm_out := out\<rparr>)"
      "fifo_carries out ([] @ [\<lparr>msg_request_id = 1, msg_kind = ''OK'', msg_fields = [''pong'']\<rparr>])"
    using respond_short [OF idle_carries short] by blast
  have handled: "handle_request 10 (\<lambda>e. e) ?ra ?request (idle_daemon []) = (None, (idle_daemon [])\<lparr>dm_out := out\<rparr>)"
    using out(1) by (simp add: handle_request_def handle_command_def)
  have resp: "encode_message pong = Inr (fo_bytes out)"
    using out(2) by (auto simp: fifo_carries_def pong_def)
  have "message_fits pong" using message_fits_answer [OF short] by (simp add: pong_def)
  then have size: "length (fo_bytes out) \<le> max_message_size" by (simp add: message_fits_def resp)
  have idle: "tp_read_buffer idle_transport = []" by (simp add: idle_transport_def)
  have served: "receive_all [(\<lambda>_. [PollReady], 200)] [ReadBytes requests] idle_transport = ([Ret (Some ?request)], idle_transport, [])"
    by (rule receive_one(1) [OF req idle])
  have listened: "receive_all [(\<lambda>_. [PollReady], 200), (\<lambda>_. [PollReady], 200)] [ReadBytes (fo_bytes out), ReadWouldBlock] idle_transport =
      ([Ret (Some pong), Ret None], idle_transport, [])"
    by (rule receive_one(2) [OF resp size idle])
  have "\<exists>kind text session'. (kind = ''OK'' \<or> kind = ''ERROR'') \<and>
      ?request = \<lparr>msg_request_id = ss_next_request_id ShellSession, msg_kind = ''REQUEST'', msg_fields = [''ping'']\<rparr> \<and>
      fifo_carries (dm_out ((idle_daemon [])\<lparr>dm_out := out\<rparr>))
        [\<lparr>msg_request_id = ss_next_request_id ShellSession, msg_kind = kind, msg_fields = [text]\<rparr>] \<and>
      execute ?env [''ping''] (ShellSession, []) =
        (Ret \<lparr>msg_request_id = ss_next_request_id ShellSession, msg_kind = kind, msg_fields = [text]\<rparr>, session', requests)"
    by (rule command_round_trip [OF _ _ _ _ _ idle served _ idle_carries handled _ idle listened])
      (use sent in \<open>simp_all add: ShellSession_def\<close>)
  then show ?thesis by (auto simp: ShellSession_def)
qed

end
